(* ===== verification/C_Prelude.thy ===== *)
theory C_Prelude
  imports Main "HOL-Library.Word"
begin

text \<open>
  Shared vocabulary of the development: the machine integers of the C sources, the ways a C
  function can end (a value, a call of exit, the ERROR macro, longjmp, undefined behaviour),
  the sequencing combinators the models are written with, and the generic lemmas on big endian
  byte strings and list updates that the component theories share.
\<close>

unbundle bit_operations_syntax

named_theorems io_simps \<open>unfolding rules of the sequencing combinators\<close>
named_theorems frame_simps \<open>state components an operation leaves alone\<close>

section \<open>Machine integers\<close>

type_synonym u8 = "8 word"
type_synonym u16 = "16 word"
type_synonym u32 = "32 word"
type_synonym u64 = "64 word"

text \<open>C strings of the sources as byte lists (without the terminating NUL).\<close>

definition bytes_of :: "string \<Rightarrow> u8 list" where
  "bytes_of cs = map (\<lambda>c. of_char c) cs"

lemma length_bytes_of [simp]: "length (bytes_of cs) = length cs"
  by (simp add: bytes_of_def)

section \<open>Outcomes of a C function\<close>

datatype fault =
    Out_Of_Bounds     \<comment> \<open>access outside the object a pointer points into\<close>
  | Null_Call         \<comment> \<open>call through a NULL function pointer\<close>
  | Uninitialised     \<comment> \<open>use of an indeterminate value\<close>
  | Shift_Range       \<comment> \<open>shift by at least the width of the type\<close>

datatype halt =
    Exit int          \<comment> \<open>exit(n)\<close>
  | Error string      \<comment> \<open>the ERROR macro: log the message, exit(1)\<close>
  | Longjmp int       \<comment> \<open>longjmp to the active setjmp\<close>
  | Undef fault       \<comment> \<open>undefined behaviour\<close>
  | Out_Of_Fuel       \<comment> \<open>the model's recursion bound was too small\<close>

datatype ('s, 'a) res = Ok 'a 's | Stop halt 's

type_synonym ('s, 'a) cm = "'s \<Rightarrow> ('s, 'a) res"

definition ret :: "'a \<Rightarrow> ('s, 'a) cm" where
  "ret a = (\<lambda>s. Ok a s)"

definition skip :: "('s, unit) cm" where
  "skip = ret ()"

definition stop :: "halt \<Rightarrow> ('s, 'a) cm" where
  "stop h = (\<lambda>s. Stop h s)"

definition andthen :: "('s, 'a) cm \<Rightarrow> ('a \<Rightarrow> ('s, 'b) cm) \<Rightarrow> ('s, 'b) cm" where
  "andthen m k = (\<lambda>s. case m s of Ok a s' \<Rightarrow> k a s' | Stop h s' \<Rightarrow> Stop h s')"

definition gets :: "('s \<Rightarrow> 'a) \<Rightarrow> ('s, 'a) cm" where
  "gets f = (\<lambda>s. Ok (f s) s)"

definition modify :: "('s \<Rightarrow> 's) \<Rightarrow> ('s, unit) cm" where
  "modify f = (\<lambda>s. Ok () (f s))"

text \<open>ASSERT of system.h: ERROR, naming the condition, when it does not hold.\<close>

definition assert_that :: "bool \<Rightarrow> string \<Rightarrow> ('s, unit) cm" where
  "assert_that b msg = (if b then skip else stop (Error msg))"

text \<open>ASSERT_EQ and ASSERT_ERRNO: for two values that have to be equal, and for the result of a
  system call, which is -1 when it failed.\<close>

definition assert_eq :: "'v \<Rightarrow> 'v \<Rightarrow> string \<Rightarrow> ('s, unit) cm" where
  "assert_eq a b msg = (if a \<noteq> b then stop (Error msg) else skip)"

definition assert_gt :: "'v::linorder \<Rightarrow> 'v \<Rightarrow> string \<Rightarrow> ('s, unit) cm" where
  "assert_gt a b msg = (if a \<le> b then stop (Error msg) else skip)"

definition assert_errno :: "int \<Rightarrow> string \<Rightarrow> ('s, unit) cm" where
  "assert_errno a msg = (if - 1 = a then stop (Error msg) else skip)"

text \<open>A sequence of statements, a for loop over a list, and n repetitions of a call whose
  results are collected.\<close>

fun statements :: "('s, unit) cm list \<Rightarrow> ('s, unit) cm" where
  "statements [] = skip"
| "statements (m # ms) = andthen m (\<lambda>_. statements ms)"

fun for_each :: "('x \<Rightarrow> ('s, unit) cm) \<Rightarrow> 'x list \<Rightarrow> ('s, unit) cm" where
  "for_each f [] = skip"
| "for_each f (x # xs) = andthen (f x) (\<lambda>_. for_each f xs)"

fun collect :: "nat \<Rightarrow> ('s, 'a) cm \<Rightarrow> ('s, 'a list) cm" where
  "collect 0 m = ret []"
| "collect (Suc n) m = andthen m (\<lambda>x. andthen (collect n m) (\<lambda>xs. ret (x # xs)))"

text \<open>A loop over the elements of a list whose turns may be undefined behaviour: None.\<close>

fun fold_some :: "('x \<Rightarrow> 's \<Rightarrow> 's option) \<Rightarrow> 'x list \<Rightarrow> 's \<Rightarrow> 's option" where
  "fold_some f [] s = Some s"
| "fold_some f (x # xs) s = (case f x s of None \<Rightarrow> None | Some t \<Rightarrow> fold_some f xs t)"

fun res_state :: "('s, 'a) res \<Rightarrow> 's" where
  "res_state (Ok a s) = s"
| "res_state (Stop h s) = s"

fun is_ok :: "('s, 'a) res \<Rightarrow> bool" where
  "is_ok (Ok a s) = True"
| "is_ok (Stop h s) = False"

text \<open>The result seen through an abstraction of the state.\<close>

fun map_state :: "('s \<Rightarrow> 't) \<Rightarrow> ('s, 'a) res \<Rightarrow> ('t, 'a) res" where
  "map_state f (Ok a s) = Ok a (f s)"
| "map_state f (Stop h s) = Stop h (f s)"

lemma ret_apply [simp, io_simps]: "ret a s = Ok a s"
  by (simp add: ret_def)

lemma skip_apply [simp, io_simps]: "skip s = Ok () s"
  by (simp add: skip_def)

lemma stop_apply [simp, io_simps]: "stop h s = Stop h s"
  by (simp add: stop_def)

lemma gets_apply [simp, io_simps]: "gets f s = Ok (f s) s"
  by (simp add: gets_def)

lemma modify_apply [simp, io_simps]: "modify f s = Ok () (f s)"
  by (simp add: modify_def)

lemma andthen_apply [io_simps]:
  "andthen m k s = (case m s of Ok a s' \<Rightarrow> k a s' | Stop h s' \<Rightarrow> Stop h s')"
  by (simp add: andthen_def)

lemma andthen_Ok [simp]: "m s = Ok a s' \<Longrightarrow> andthen m k s = k a s'"
  by (simp add: andthen_def)

lemma andthen_Stop [simp]: "m s = Stop h s' \<Longrightarrow> andthen m k s = Stop h s'"
  by (simp add: andthen_def)

lemma andthen_eq_Ok_iff:
  "andthen m k s = Ok b t \<longleftrightarrow> (\<exists>a s'. m s = Ok a s' \<and> k a s' = Ok b t)"
  by (cases "m s") (auto simp: andthen_def)

lemma andthen_eq_Stop_iff:
  "andthen m k s = Stop h t \<longleftrightarrow>
     m s = Stop h t \<or> (\<exists>a s'. m s = Ok a s' \<and> k a s' = Stop h t)"
  by (cases "m s") (auto simp: andthen_def)

lemma andthen_ret [simp]: "andthen (ret a) k = k a"
  by (simp add: andthen_def ret_def)

lemma andthen_skip [simp]: "andthen skip k = k ()"
  by (simp add: skip_def)

lemma andthen_stop [simp]: "andthen (stop h) k = stop h"
  by (simp add: andthen_def stop_def)

lemma andthen_assoc:
  "andthen (andthen m k) l = andthen m (\<lambda>a. andthen (k a) l)"
  by (auto simp: andthen_def fun_eq_iff split: res.splits)

lemma andthen_cong [fundef_cong]:
  assumes "m s = m' s'" and "\<And>a t. m' s' = Ok a t \<Longrightarrow> k a t = k' a t" and "s = s'"
  shows "andthen m k s = andthen m' k' s'"
  using assms by (auto simp: andthen_def split: res.splits)

lemma assert_that_True [simp]: "assert_that True msg = skip"
  by (simp add: assert_that_def)

lemma assert_that_False [simp]: "assert_that False msg = stop (Error msg)"
  by (simp add: assert_that_def)

lemma assert_variants [simp]:
  "assert_eq a b msg = assert_that (a = b) msg" "assert_errno c msg = assert_that (c \<noteq> - 1) msg"
  "assert_gt x y msg = assert_that (y < x) msg"
  by (auto simp: assert_eq_def assert_errno_def assert_gt_def assert_that_def)

lemma statements_append:
  "statements (xs @ ys) = andthen (statements xs) (\<lambda>_. statements ys)"
  by (induction xs) (auto simp: andthen_assoc)

lemma for_each_append:
  "for_each f (xs @ ys) = andthen (for_each f xs) (\<lambda>_. for_each f ys)"
  by (induction xs) (auto simp: andthen_assoc)

lemma fold_some_append:
  "fold_some f (xs @ ys) s = (case fold_some f xs s of None \<Rightarrow> None | Some t \<Rightarrow> fold_some f ys t)"
  by (induction xs arbitrary: s) (auto split: option.split)

lemma map_state_Ok_iff: "map_state f r = Ok a t \<longleftrightarrow> (\<exists>s. r = Ok a s \<and> f s = t)"
  by (cases r) auto

lemma map_state_comp: "map_state f (map_state g r) = map_state (\<lambda>s. f (g s)) r"
  by (cases r) auto

text \<open>A call keeps a function of the state when it ends, normally or not, with its value
  unchanged.\<close>

definition keeps :: "('s \<Rightarrow> 'x) \<Rightarrow> ('s, 'a) cm \<Rightarrow> bool" where
  "keeps f m \<longleftrightarrow> (\<forall>s. f (res_state (m s)) = f s)"

named_theorems keep_intros \<open>what keeps a function of the state\<close>

lemma keeps_pure [keep_intros]:
  "keeps f (ret a)" "keeps f skip" "keeps f (stop h)" "keeps f (gets g)" "keeps f (assert_that b msg)"
  "keeps f (assert_eq x y msg)" "keeps f (assert_errno c msg)" "keeps f (Ok a)" "keeps f (Stop h)"
  by (simp_all add: keeps_def assert_that_def)

lemma keeps_modify [keep_intros]: "(\<And>s. f (g s) = f s) \<Longrightarrow> keeps f (modify g)"
  by (simp add: keeps_def)

lemma keeps_andthen [keep_intros]: "keeps f m \<Longrightarrow> (\<And>a. keeps f (k a)) \<Longrightarrow> keeps f (andthen m k)"
  by (auto simp: keeps_def andthen_def split: res.splits) (metis res_state.simps)+

lemma keeps_for_each [keep_intros]: "(\<And>x. keeps f (g x)) \<Longrightarrow> keeps f (for_each g xs)"
  by (induction xs) (auto intro: keep_intros)

lemma keepsD: "keeps f m \<Longrightarrow> f (res_state (m s)) = f s"
  by (simp add: keeps_def)

lemma keeps_Ok: "keeps f m \<Longrightarrow> m s = Ok a t \<Longrightarrow> f t = f s"
  unfolding keeps_def by (metis res_state.simps(1))

lemma keeps_Stop: "keeps f m \<Longrightarrow> m s = Stop h t \<Longrightarrow> f t = f s"
  unfolding keeps_def by (metis res_state.simps(2))

lemma keeps_after: "(\<And>a. keeps f (k a)) \<Longrightarrow> f (res_state (andthen m k s)) = f (res_state (m s))"
  by (auto simp: keeps_def andthen_def split: res.splits)

lemma keeps_via: "keeps f m \<Longrightarrow> (\<And>s t. f s = f t \<Longrightarrow> g s = g t) \<Longrightarrow> keeps g m"
  unfolding keeps_def by blast

text \<open>A call preserves an invariant of the state, whether it returns or stops.\<close>

definition preserves :: "('s \<Rightarrow> bool) \<Rightarrow> ('s, 'a) cm \<Rightarrow> bool" where
  "preserves P m \<longleftrightarrow> (\<forall>s. P s \<longrightarrow> P (res_state (m s)))"

named_theorems pres_intros \<open>what preserves an invariant\<close>

lemma preserves_pure [pres_intros]:
  "preserves P (ret a)" "preserves P skip" "preserves P (stop h)" "preserves P (gets g)"
  "preserves P (assert_that b msg)" "preserves P (assert_eq x y msg)" "preserves P (assert_errno c msg)"
  "preserves P (Ok a)" "preserves P (Stop h)"
  by (simp_all add: preserves_def assert_that_def)

lemma preserves_modify [pres_intros]: "(\<And>s. P s \<Longrightarrow> P (g s)) \<Longrightarrow> preserves P (modify g)"
  by (simp add: preserves_def)

lemma preserves_andthen [pres_intros]:
  "preserves P m \<Longrightarrow> (\<And>a. preserves P (k a)) \<Longrightarrow> preserves P (andthen m k)"
  by (simp add: preserves_def andthen_def split: res.splits) (metis res_state.simps)

lemma preserves_for_each [pres_intros]: "(\<And>x. preserves P (g x)) \<Longrightarrow> preserves P (for_each g xs)"
  by (induction xs) (auto intro: pres_intros)

lemma preservesD: "preserves P m \<Longrightarrow> P s \<Longrightarrow> P (res_state (m s))"
  by (simp add: preserves_def)

lemma preserves_keeps: "keeps f m \<Longrightarrow> (\<And>s t. f s = f t \<Longrightarrow> P s \<Longrightarrow> P t) \<Longrightarrow> preserves P m"
  unfolding keeps_def preserves_def by metis

text \<open>After a call the next one may be looked at in the states of the invariant only.\<close>

lemma andthen_same_on:
  assumes "preserves P m" "P s" "\<And>a t. P t \<Longrightarrow> k a t = k' a t"
  shows "andthen m k s = andthen m k' s"
  using preservesD [OF assms(1,2)] assms(3) by (cases "m s") simp_all

text \<open>From the states of an invariant a call does not run out of the turns it was given.\<close>

definition ends :: "('s \<Rightarrow> bool) \<Rightarrow> ('s, 'a) cm \<Rightarrow> bool" where
  "ends P m \<longleftrightarrow> (\<forall>s t. P s \<longrightarrow> m s \<noteq> Stop Out_Of_Fuel t)"

named_theorems end_intros \<open>what comes to an end\<close>

lemma ends_pure [end_intros]:
  "ends P (ret a)" "ends P skip" "ends P (stop (Error msg))" "ends P (stop (Exit n))"
  "ends P (stop (Undef u))" "ends P (gets f)" "ends P (modify g)" "ends P (assert_that b msg)"
  "ends P (assert_eq x y msg)" "ends P (assert_errno c msg)"
  by (simp_all add: ends_def assert_that_def)

lemma ends_then:
  "ends P m \<Longrightarrow> (\<And>s a t. P s \<Longrightarrow> m s = Ok a t \<Longrightarrow> Q a t) \<Longrightarrow> (\<And>a. ends (Q a) (k a)) \<Longrightarrow>
    ends P (andthen m k)"
  by (simp add: ends_def andthen_def split: res.splits) blast

lemma ends_andthen [end_intros]:
  "ends P m \<Longrightarrow> preserves P m \<Longrightarrow> (\<And>a. ends P (k a)) \<Longrightarrow> ends P (andthen m k)"
  by (rule ends_then [where Q = "\<lambda>_. P"]) (simp_all add: preserves_def, metis res_state.simps(1))

lemma ends_for_each [end_intros]:
  "(\<And>x. ends P (f x)) \<Longrightarrow> (\<And>x. preserves P (f x)) \<Longrightarrow> ends P (for_each f xs)"
  by (induction xs) (auto intro: end_intros)

lemma endsD: "ends P m \<Longrightarrow> P s \<Longrightarrow> m s \<noteq> Stop Out_Of_Fuel t"
  by (simp add: ends_def)

text \<open>From the states of an invariant the behaviour of a call is defined.\<close>

definition defined :: "('s \<Rightarrow> bool) \<Rightarrow> ('s, 'a) cm \<Rightarrow> bool" where
  "defined P m \<longleftrightarrow> (\<forall>s u t. P s \<longrightarrow> m s \<noteq> Stop (Undef u) t)"

named_theorems def_intros \<open>what has a defined behaviour\<close>

lemma defined_pure [def_intros]:
  "defined P (ret a)" "defined P skip" "defined P (stop (Error msg))" "defined P (stop (Exit n))"
  "defined P (gets f)" "defined P (modify g)" "defined P (assert_that b msg)"
  "defined P (assert_eq x y msg)" "defined P (assert_errno c msg)"
  by (simp_all add: defined_def assert_that_def)

lemma defined_andthen [def_intros]:
  "defined P m \<Longrightarrow> preserves P m \<Longrightarrow> (\<And>a. defined P (k a)) \<Longrightarrow> defined P (andthen m k)"
  by (simp add: defined_def preserves_def andthen_def split: res.splits) (metis res_state.simps(1))

lemma definedD: "defined P m \<Longrightarrow> P s \<Longrightarrow> m s \<noteq> Stop (Undef u) t"
  by (simp add: defined_def)

lemma those_map_Some: "those (map Some xs) = Some xs"
  by (induction xs) auto

section \<open>Calls that leave a trace\<close>

text \<open>A call that always ends normally and whose only effect is to move the state along by a
  piece of a trace. The laws of the relation say what pieces are: there is an empty one, and they
  can be joined.\<close>

definition plays :: "('b list \<Rightarrow> 's \<Rightarrow> 's \<Rightarrow> bool) \<Rightarrow> ('s, unit) cm \<Rightarrow> 'b list \<Rightarrow> bool" where
  "plays moved m bs \<longleftrightarrow> (\<forall>s. \<exists>s'. m s = Ok () s' \<and> moved bs s s')"

locale trace =
  fixes moved :: "'b list \<Rightarrow> 's \<Rightarrow> 's \<Rightarrow> bool"
  assumes moved_Nil: "moved [] s s"
    and moved_append: "moved xs s t \<Longrightarrow> moved ys t u \<Longrightarrow> moved (xs @ ys) s u"
begin

lemma plays_skip: "plays moved skip []" "plays moved (Ok ()) []"
  unfolding plays_def by (simp_all add: moved_Nil)

lemma plays_andthen:
  assumes "plays moved m xs" and "plays moved k ys"
  shows "plays moved (andthen m (\<lambda>_. k)) (xs @ ys)"
  unfolding plays_def
proof
  fix s
  obtain t where t: "m s = Ok () t" "moved xs s t" using assms(1) by (auto simp: plays_def)
  obtain u where "k t = Ok () u" "moved ys t u" using assms(2) by (auto simp: plays_def)
  with t show "\<exists>s'. andthen m (\<lambda>_. k) s = Ok () s' \<and> moved (xs @ ys) s s'"
    using moved_append by auto
qed

lemma plays_statements:
  "list_all2 (plays moved) ms bss \<Longrightarrow> plays moved (statements ms) (concat bss)"
  by (induction rule: list_all2_induct) (simp_all add: plays_skip plays_andthen)

lemma plays_for_each:
  "(\<And>x. x \<in> set xs \<Longrightarrow> plays moved (f x) (g x)) \<Longrightarrow>
    plays moved (for_each f xs) (concat (map g xs))"
  by (induction xs) (simp_all add: plays_skip plays_andthen)

text \<open>A loop over the indices of an array.\<close>

lemma plays_indexed:
  assumes "\<And>x. plays moved (f x) [g x]" and "n \<le> length xs"
  shows "plays moved (for_each (\<lambda>i. if i < length xs then f (xs ! i) else stop h) [0..<n])
    (map g (take n xs))"
proof -
  have "plays moved (for_each (\<lambda>i. if i < length xs then f (xs ! i) else stop h) [0..<n])
      (concat (map (\<lambda>i. [g (xs ! i)]) [0..<n]))"
    using assms by (intro plays_for_each) auto
  moreover have "concat (map (\<lambda>i. [g (xs ! i)]) [0..<n]) = map (\<lambda>i. g (xs ! i)) [0..<n]"
    by (induction n) simp_all
  moreover have "map (\<lambda>i. g (xs ! i)) [0..<n] = map g (take n xs)"
    using assms(2) by (simp add: list_eq_iff_nth_eq)
  ultimately show ?thesis by simp
qed

end

section \<open>Big endian byte strings\<close>

text \<open>The value of a byte string read most significant byte first, and the n low order bytes
  of a number in that order.\<close>

fun be_value_acc :: "nat \<Rightarrow> u8 list \<Rightarrow> nat" where
  "be_value_acc acc [] = acc"
| "be_value_acc acc (b # bs) = be_value_acc (acc * 256 + unat b) bs"

definition be_value :: "u8 list \<Rightarrow> nat" where
  "be_value bs = be_value_acc 0 bs"

fun be_bytes :: "nat \<Rightarrow> nat \<Rightarrow> u8 list" where
  "be_bytes 0 v = []"
| "be_bytes (Suc n) v = word_of_nat (v div 256 ^ n) # be_bytes n v"

lemma length_be_bytes [simp]: "length (be_bytes n v) = n"
  by (induction n) auto

lemma unat_u8_less [simp]: "unat (b :: u8) < 256"
  using unsigned_less [of b, where ?'a = nat] by simp

lemma be_value_acc_linear: "be_value_acc acc bs = acc * 256 ^ length bs + be_value_acc 0 bs"
proof (induction bs arbitrary: acc)
  case (Cons b bs)
  show ?case
    using Cons.IH [of "acc * 256 + unat b"] Cons.IH [of "unat b"]
    by (simp add: algebra_simps)
qed simp

lemma be_value_Nil [simp]: "be_value [] = 0"
  by (simp add: be_value_def)

lemma be_value_Cons: "be_value (b # bs) = unat b * 256 ^ length bs + be_value bs"
  using be_value_acc_linear [of "unat b" bs] by (simp add: be_value_def)

lemma be_value_bound: "be_value bs < 256 ^ length bs"
proof (induction bs)
  case (Cons b bs)
  have "unat b * 256 ^ length bs + be_value bs < (unat b + 1) * 256 ^ length bs"
    using Cons.IH by simp
  also have "\<dots> \<le> 256 * 256 ^ length bs"
    by (intro mult_right_mono) (auto simp: Suc_le_eq)
  finally show ?case by (simp add: be_value_Cons)
qed simp

lemma unat_word_of_nat_u8: "unat (word_of_nat n :: u8) = n mod 256"
  by (simp add: unat_of_nat)

lemma word_unat_eqI: "unat x = unat y \<Longrightarrow> x = (y :: 'a::len word)"
  by (rule unsigned_word_eqI)

lemma be_value_be_bytes: "be_value (be_bytes n v) = v mod 256 ^ n"
proof (induction n)
  case (Suc n)
  have "be_value (be_bytes (Suc n) v) = (v div 256 ^ n) mod 256 * 256 ^ n + v mod 256 ^ n"
    by (simp add: be_value_Cons unat_word_of_nat_u8 Suc.IH)
  also have "\<dots> = v mod (256 ^ n * 256)"
    by (simp only: mod_mult2_eq) (simp add: mult.commute)
  finally show ?case by (simp only: power_Suc mult.commute)
qed simp

lemma be_bytes_add: "k \<le> n \<Longrightarrow> be_bytes k (a * 256 ^ n + v) = be_bytes k v"
proof (induction k)
  case (Suc k)
  then obtain d where n: "n = k + Suc d"
    by (metis add_Suc_right less_iff_Suc_add Suc_le_eq)
  have "a * 256 ^ n + v = v + (a * 256 ^ d * 256) * 256 ^ k"
    by (simp add: n power_add mult.assoc mult.left_commute)
  then have "(a * 256 ^ n + v) div 256 ^ k = (a * 256 ^ d * 256) + v div 256 ^ k"
    by (simp only: div_mult_self1 power_not_zero zero_neq_numeral [symmetric] not_False_eq_True)
  then have "(word_of_nat ((a * 256 ^ n + v) div 256 ^ k) :: u8) = word_of_nat (v div 256 ^ k)"
    by (intro word_unat_eqI) (simp only: unat_word_of_nat_u8 mod_mult_self3)
  with Suc show ?case by simp
qed simp

lemma be_bytes_be_value: "be_bytes (length bs) (be_value bs) = bs"
proof (induction bs)
  case (Cons b bs)
  then show ?case
    using be_value_bound [of bs] by (simp add: be_value_Cons be_bytes_add)
qed simp

lemma unat_ucast_u8: "unat (ucast (x :: 'a::len word) :: u8) = unat x mod 256"
  by (simp add: unsigned_ucast_eq take_bit_eq_mod)

lemma unat_drop_bit_div: "unat (drop_bit n (x :: 'a::len word)) = unat x div 2 ^ n"
  by (rule trans [OF unat_drop_bit_eq drop_bit_eq_div])

lemma bit_u8_high [simp]: "8 \<le> n \<Longrightarrow> \<not> bit (b :: u8) n"
  using bit_imp_le_length [of b n] by auto

lemma ucast_drop_byte:
  "(ucast (drop_bit (8 * k) (v :: 'a::len word)) :: u8) = word_of_nat (unat v div 256 ^ k)"
  by (rule word_unat_eqI)
    (simp only: unat_word_of_nat_u8 unat_ucast_u8 unat_drop_bit_div power_mult, simp)

lemma be_bytes_4:
  "be_bytes 4 v = [word_of_nat (v div 16777216), word_of_nat (v div 65536),
     word_of_nat (v div 256), word_of_nat v]"
proof -
  have four: "(4 :: nat) = Suc (Suc (Suc (Suc 0)))" by simp
  show ?thesis unfolding four by simp
qed

lemma be_bytes_2: "be_bytes 2 v = [word_of_nat (v div 256), word_of_nat v]"
  by (simp add: numeral_2_eq_2)

lemma be_bytes_inject:
  "a < 256 ^ n \<Longrightarrow> b < 256 ^ n \<Longrightarrow> be_bytes n a = be_bytes n b \<longleftrightarrow> a = b"
  by (metis be_value_be_bytes mod_less)

lemma unat_u32_less: "unat (v :: u32) < 256 ^ 4"
  using unsigned_less [of v, where ?'a = nat] by simp

section \<open>Signed readings of 32 bit words\<close>

lemma sint_u32_small: "unat (v :: u32) < 2 ^ 31 \<Longrightarrow> sint v = int (unat v)"
  unfolding sint_uint uint_nat
  by (rule signed_take_bit_int_eq_self) (simp_all del: of_nat_unat)

lemma sint_u32_large: "2 ^ 31 \<le> unat (v :: u32) \<Longrightarrow> sint v = int (unat v) - 2 ^ 32"
proof -
  assume large: "2 ^ 31 \<le> unat v"
  have "int (unat v) + 2 ^ 31 = (int (unat v) - 2 ^ 31) + 2 ^ 32" by simp
  also have "\<dots> mod 2 ^ 32 = (int (unat v) - 2 ^ 31) mod 2 ^ 32" by (rule mod_add_self2)
  also have "\<dots> = int (unat v) - 2 ^ 31"
    using large unat_u32_less [of v]
    by (intro mod_pos_pos_trivial) (simp_all del: of_nat_unat)
  finally have "(int (unat v) + 2 ^ 31) mod 2 ^ 32 = int (unat v) - 2 ^ 31" .
  then show "sint v = int (unat v) - 2 ^ 32"
    unfolding sint_uint uint_nat
    by (simp add: signed_take_bit_eq_take_bit_shift take_bit_eq_mod del: of_nat_unat)
qed

lemma sint_u32_pos_iff: "0 < sint (v :: u32) \<longleftrightarrow> 0 < unat v \<and> unat v < 2 ^ 31"
  using sint_u32_small [of v] sint_u32_large [of v] unat_u32_less [of v]
  by (cases "unat v < 2 ^ 31") (auto simp del: of_nat_unat)

lemma sint_u32_neg_iff: "sint (v :: u32) < 0 \<longleftrightarrow> 2 ^ 31 \<le> unat v"
  using sint_u32_small [of v] sint_u32_large [of v] unat_u32_less [of v]
  by (cases "unat v < 2 ^ 31") (auto simp del: of_nat_unat)

lemma unat_u32_of_nat: "n < 2 ^ 32 \<Longrightarrow> unat (word_of_nat n :: u32) = n"
  by (simp add: unat_of_nat)

lemma unat_u32_of_int_range: "n < 2 ^ 31 \<Longrightarrow> unat (word_of_nat n :: u32) = n"
  by (rule unat_u32_of_nat) simp

lemma sint_u32_of_nat: "n < 2 ^ 31 \<Longrightarrow> sint (word_of_nat n :: u32) = int n"
  using sint_u32_small [of "word_of_nat n"] unat_u32_of_nat [of n] by (simp del: of_nat_unat)

end
