(* ===== verification/Posix_Io.thy ===== *)
theory Posix_Io
  imports C_Prelude
begin

text \<open>
  The operating system as the C programs see it through system.h and port.h: file descriptors
  that read and write, and malloc. What the other end of a descriptor does is data of the state:
  a descriptor's incoming side is a script of events, one per segment of data or failing read
  call, and its outgoing side a script that says how many bytes the next write calls accept. An
  exhausted incoming script is end of file, an exhausted outgoing script accepts everything.
\<close>

definition EINTR :: int where "EINTR = 4"

datatype rd_event = Rd_data "u8 list" | Rd_err int

datatype wr_event = Wr_room nat | Wr_err int

record posix =
  rd :: "int \<Rightarrow> rd_event list"
  wr :: "int \<Rightarrow> wr_event list"
  out :: "int \<Rightarrow> u8 list"
  malloc_max :: nat
  live_blocks :: nat

text \<open>The read system call: at most nb bytes of the next segment, an errno, or end of file
  (no bytes).\<close>

fun sys_read :: "rd_event list \<Rightarrow> nat \<Rightarrow> (int + u8 list) \<times> rd_event list" where
  "sys_read [] nb = (Inr [], [])"
| "sys_read (Rd_err e # q) nb = (Inl e, q)"
| "sys_read (Rd_data bs # q) nb =
     (Inr (take nb bs), if drop nb bs = [] then q else Rd_data (drop nb bs) # q)"

text \<open>The write system call: how many of the bytes were accepted, or an errno.\<close>

fun sys_write :: "wr_event list \<Rightarrow> u8 list \<Rightarrow> (int + nat) \<times> wr_event list" where
  "sys_write [] bs = (Inr (length bs), [])"
| "sys_write (Wr_err e # q) bs = (Inl e, q)"
| "sys_write (Wr_room n # q) bs = (Inr (min n (length bs)), q)"

text \<open>malloc: NULL when the block is larger than the allocator gives, else a live block whose
  capacity is the number asked for. free releases a block, and ignores NULL.\<close>

definition malloc :: "nat \<Rightarrow> ('z posix_scheme, nat option) cm" where
  "malloc n s =
     (if n \<le> malloc_max s then Ok (Some n) (s\<lparr>live_blocks := Suc (live_blocks s)\<rparr>)
      else Ok None s)"

definition free_block :: "'a option \<Rightarrow> ('z posix_scheme, unit) cm" where
  "free_block p s =
     (case p of None \<Rightarrow> Ok () s | Some _ \<Rightarrow> Ok () (s\<lparr>live_blocks := live_blocks s - 1\<rparr>))"

section \<open>Abstract view of a descriptor\<close>

text \<open>The bytes still to come, whatever their segmentation, and scripts without failing calls
  (interrupted reads, which port.h repeats, are no failure).\<close>

fun script_bytes :: "rd_event list \<Rightarrow> u8 list" where
  "script_bytes [] = []"
| "script_bytes (Rd_data bs # q) = bs @ script_bytes q"
| "script_bytes (Rd_err e # q) = script_bytes q"

fun script_ok :: "rd_event list \<Rightarrow> bool" where
  "script_ok [] = True"
| "script_ok (Rd_data bs # q) = (bs \<noteq> [] \<and> script_ok q)"
| "script_ok (Rd_err e # q) = (e = EINTR \<and> script_ok q)"

fun accepts :: "wr_event list \<Rightarrow> bool" where
  "accepts [] = True"
| "accepts (Wr_room n # q) = accepts q"
| "accepts (Wr_err e # q) = False"

definition pending :: "int \<Rightarrow> 'z posix_scheme \<Rightarrow> u8 list" where
  "pending fd s = script_bytes (rd s fd)"

definition readable :: "int \<Rightarrow> 'z posix_scheme \<Rightarrow> bool" where
  "readable fd s = script_ok (rd s fd)"

definition writable :: "int \<Rightarrow> 'z posix_scheme \<Rightarrow> bool" where
  "writable fd s = accepts (wr s fd)"

text \<open>States that differ in the incoming side of one descriptor only.\<close>

definition same_but_rd :: "int \<Rightarrow> 'z posix_scheme \<Rightarrow> 'z posix_scheme \<Rightarrow> bool" where
  "same_but_rd fd s s' \<longleftrightarrow> (\<exists>q. s' = s\<lparr>rd := (rd s)(fd := q)\<rparr>)"

lemma same_but_rd_refl [simp]: "same_but_rd fd s s"
  by (auto simp: same_but_rd_def intro!: exI [of _ "rd s fd"])

lemma same_but_rd_trans [trans]:
  "same_but_rd fd s t \<Longrightarrow> same_but_rd fd t u \<Longrightarrow> same_but_rd fd s u"
  by (auto simp: same_but_rd_def)

lemma same_but_rd_fields [frame_simps]:
  assumes "same_but_rd fd s t"
  shows "wr t = wr s" "out t = out s" "malloc_max t = malloc_max s"
    "live_blocks t = live_blocks s" "writable g t = writable g s" "posix.more t = posix.more s"
  using assms by (auto simp: same_but_rd_def writable_def)

lemma sys_read_split:
  assumes "sys_read q nb = (Inr bs, q')" and "script_ok q"
  shows "script_bytes q = bs @ script_bytes q'" and "script_ok q'" and "length bs \<le> nb"
  using assms by (cases "(q, nb)" rule: sys_read.cases; auto split: if_splits)+

lemma sys_read_progress:
  assumes "sys_read q nb = (Inr bs, q')" and "script_ok q" and "0 < nb" and "script_bytes q \<noteq> []"
  shows "bs \<noteq> []"
  using assms by (cases "(q, nb)" rule: sys_read.cases) (auto split: if_splits)

end
