(* ===== verification/Port.thy ===== *)
theory Port
  imports Posix_Io
begin

text \<open>
  The port I/O primitives of include/port.h over the ASSERT and ERROR macros of
  include/system.h: reads that repeat on EINTR and stop the program on end of file or failure,
  reads of an exact number of bytes, length prefixed packets in both directions.

  A buffer argument is a capacity (reads return the bytes they stored) or its contents where
  the caller sees what was there before. Storing past the capacity is undefined behaviour.
  Lengths of type uint32_t are words, size_t and ssize_t (64 bit) are natural numbers.
\<close>

section \<open>Reading\<close>

text \<open>The do/while loop of \<open>assert_read\<close>: repeat the system call while it is interrupted.\<close>

lemma sys_read_err_shorter: "sys_read q nb = (Inl e, q') \<Longrightarrow> length q' < length q"
  by (cases "(q, nb)" rule: sys_read.cases) auto

function read_retry :: "rd_event list \<Rightarrow> nat \<Rightarrow> (int + u8 list) \<times> rd_event list" where
  "read_retry q nb =
     (case sys_read q nb of
        (Inl e, q') \<Rightarrow> if e = EINTR then read_retry q' nb else (Inl e, q')
      | (Inr bs, q') \<Rightarrow> (Inr bs, q'))"
  by pat_completeness auto
termination
  by (relation "measure (\<lambda>(q, nb). length q)") (auto dest: sys_read_err_shorter [OF sym])

declare read_retry.simps [simp del]

definition assert_read :: "int \<Rightarrow> nat \<Rightarrow> nat \<Rightarrow> ('z posix_scheme, u8 list) cm" where
  "assert_read fd cap nb s =
     (if nb = 0 then Ok [] s
      else case read_retry (rd s fd) nb of (r, q) \<Rightarrow>
        (let s' = s\<lparr>rd := (rd s)(fd := q)\<rparr> in
         case r of
           Inl e \<Rightarrow> Stop (Error ''rv > 0'') s'
         | Inr bs \<Rightarrow>
             if bs = [] then Stop (Exit 0) s'
             else if cap < length bs then Stop (Undef Out_Of_Bounds) s'
             else Ok bs s'))"

lemma read_retry_length: "read_retry q nb = (Inr bs, q') \<Longrightarrow> length bs \<le> nb"
proof (induction q nb rule: read_retry.induct)
  case (1 q nb)
  show ?case
  proof (cases "sys_read q nb")
    case (Pair r t)
    show ?thesis
    proof (cases r)
      case (Inl e)
      with 1 Pair show ?thesis by (auto simp: read_retry.simps [of q nb] split: if_splits)
    next
      case (Inr cs)
      with 1 Pair show ?thesis
        by (cases "(q, nb)" rule: sys_read.cases)
          (auto simp: read_retry.simps [of q nb] split: if_splits)
    qed
  qed
qed

lemma assert_read_Ok_bounds:
  assumes "assert_read fd cap nb s = Ok bs s'" and "0 < nb"
  shows "bs \<noteq> [] \<and> length bs \<le> nb \<and> length bs \<le> cap"
  using assms
  by (auto simp: assert_read_def Let_def split: prod.splits sum.splits if_splits
      dest: read_retry_length)

text \<open>The loop of \<open>assert_read_fixed\<close>, with the bytes got so far.\<close>

function read_fixed_loop ::
    "int \<Rightarrow> nat \<Rightarrow> nat \<Rightarrow> u8 list \<Rightarrow> ('z posix_scheme, u8 list) cm" where
  "read_fixed_loop fd cap nb got s =
     (if length got < nb then
        case assert_read fd (cap - length got) (nb - length got) s of
          Stop h s' \<Rightarrow> Stop h s'
        | Ok bs s' \<Rightarrow>
            if bs = [] then Stop (Error ''rv > 0'') s'
            else read_fixed_loop fd cap nb (got @ bs) s'
      else Ok got s)"
  by pat_completeness auto
termination
  by (relation "measure (\<lambda>(fd, cap, nb, got, s). nb - length got)") (auto simp: neq_Nil_conv)

declare read_fixed_loop.simps [simp del]

definition assert_read_fixed :: "int \<Rightarrow> nat \<Rightarrow> nat \<Rightarrow> ('z posix_scheme, u8 list) cm" where
  "assert_read_fixed fd cap nb =
     andthen (read_fixed_loop fd cap nb []) (\<lambda>got.
     andthen (assert_eq (length got) nb ''got == nb'') (\<lambda>_. ret got))"

text \<open>A read of a one byte length and of up to that many bytes into the buffer, whose previous
  contents stay where nothing was read. The result is the length and the new contents.\<close>

definition assert_read_packet1 ::
    "int \<Rightarrow> u8 list \<Rightarrow> ('z posix_scheme, u8 \<times> u8 list) cm" where
  "assert_read_packet1 fd buf =
     andthen (assert_read fd 1 1) (\<lambda>sz.
     andthen (assert_read fd (length buf) (unat (hd sz))) (\<lambda>bs.
     ret (hd sz, bs @ drop (length bs) buf)))"

definition assert_read_packet1_cstring ::
    "int \<Rightarrow> u8 list \<Rightarrow> ('z posix_scheme, u8 \<times> u8 list) cm" where
  "assert_read_packet1_cstring fd buf =
     andthen (assert_read_packet1 fd buf) (\<lambda>(len, b).
       if unat len < length b then ret (len, b[unat len := 0])
       else stop (Undef Out_Of_Bounds))"

text \<open>The same functions under the names that go with \<open>assert_write_port8\<close>.\<close>

definition assert_read_port8 :: "int \<Rightarrow> u8 list \<Rightarrow> ('z posix_scheme, u8 \<times> u8 list) cm" where
  "assert_read_port8 = assert_read_packet1"

definition assert_read_port8_cstring ::
    "int \<Rightarrow> u8 list \<Rightarrow> ('z posix_scheme, u8 \<times> u8 list) cm" where
  "assert_read_port8_cstring = assert_read_packet1_cstring"

text \<open>Big endian decoding. The C shifts promoted ints into the sign bit; the result is read
  back as uint32_t, so the model shifts unsigned words.\<close>

definition u32_of_be :: "u8 \<Rightarrow> u8 \<Rightarrow> u8 \<Rightarrow> u8 \<Rightarrow> u32" where
  "u32_of_be b0 b1 b2 b3 =
     push_bit 24 (ucast b0) OR push_bit 16 (ucast b1) OR push_bit 8 (ucast b2) OR ucast b3"

definition assert_read_u32 :: "int \<Rightarrow> ('z posix_scheme, u32) cm" where
  "assert_read_u32 fd =
     andthen (assert_read_fixed fd 4 4) (\<lambda>be.
     ret (u32_of_be (be ! 0) (be ! 1) (be ! 2) (be ! 3)))"

text \<open>A packet with a four byte length. The block has buf_len+1 bytes, computed in uint32_t,
  and a NUL is stored after the packet; the length is the second result (\<open>save_len\<close>). An empty
  packet allocates nothing and gives NULL.\<close>

definition assert_read_packet4_len ::
    "int \<Rightarrow> ('z posix_scheme, u8 list option \<times> u32) cm" where
  "assert_read_packet4_len fd =
     andthen (assert_read_u32 fd) (\<lambda>buf_len.
     if buf_len = 0 then ret (None, buf_len)
     else
       andthen (malloc (unat (buf_len + 1))) (\<lambda>p.
       case p of
         None \<Rightarrow> stop (Error ''buf'')
       | Some cap \<Rightarrow>
           andthen (assert_read_fixed fd cap (unat buf_len)) (\<lambda>bs.
           if unat buf_len < cap then ret (Some (bs @ [0]), buf_len)
           else stop (Undef Out_Of_Bounds))))"

definition assert_read_packet4 :: "int \<Rightarrow> ('z posix_scheme, u8 list option) cm" where
  "assert_read_packet4 fd = andthen (assert_read_packet4_len fd) (\<lambda>(p, len). ret p)"

text \<open>The native (little endian) byte order of the targets.\<close>

definition le_u32 :: "u32 \<Rightarrow> u8 list" where
  "le_u32 v = rev (be_bytes 4 (unat v))"

text \<open>The static variant reads descriptor 0 whatever fd is, and checks the size with an
  addition in uint32_t against an ssize_t.\<close>

definition assert_read_packet4_static ::
    "int \<Rightarrow> u8 list \<Rightarrow> nat \<Rightarrow> ('z posix_scheme, u8 list) cm" where
  "assert_read_packet4_static fd buf buf_size =
     andthen (assert_read_u32 0) (\<lambda>size.
     if length buf < 4 then stop (Undef Out_Of_Bounds)
     else
       andthen (assert_that (unat (4 + size) \<le> buf_size) ''4 + *size <= buf_size'') (\<lambda>_.
       andthen (assert_read 0 (length buf - 4) (unat size)) (\<lambda>bs.
       ret (le_u32 size @ bs @ drop (4 + length bs) buf))))"

section \<open>Writing\<close>

lemma sys_write_decreases:
  "sys_write q bs = (Inr n, q') \<Longrightarrow> length q' < length q \<or> q' = [] \<and> q = [] \<and> n = length bs"
  by (cases "(q, bs)" rule: sys_write.cases) auto

text \<open>The loop of \<open>assert_write\<close> over the bytes that are left.\<close>

function write_loop :: "int \<Rightarrow> u8 list \<Rightarrow> ('z posix_scheme, unit) cm" where
  "write_loop fd left s =
     (if left = [] then Ok () s
      else case sys_write (wr s fd) left of
        (Inl e, q) \<Rightarrow> Stop (Error ''rv = WRITE(fd, buf, left)'') (s\<lparr>wr := (wr s)(fd := q)\<rparr>)
      | (Inr n, q) \<Rightarrow>
          write_loop fd (drop n left)
            (s\<lparr>wr := (wr s)(fd := q), out := (out s)(fd := out s fd @ take n left)\<rparr>))"
  by pat_completeness auto
termination
  by (relation "measures [\<lambda>(fd, left, s). length (wr s fd), \<lambda>(fd, left, s). length left]")
    (auto dest: sys_write_decreases [OF sym])

declare write_loop.simps [simp del]

text \<open>\<open>assert_write\<close> keeps the count in an int: a uint32_t of 2^31 or more is negative there
  and nothing is written.\<close>

definition assert_write :: "int \<Rightarrow> u8 list \<Rightarrow> u32 \<Rightarrow> ('z posix_scheme, u32) cm" where
  "assert_write fd buf nb =
     (if 0 < sint nb then
        (if length buf < unat nb then stop (Undef Out_Of_Bounds)
         else andthen (write_loop fd (take (unat nb) buf)) (\<lambda>_. ret nb))
      else ret nb)"

definition assert_write_port8 :: "int \<Rightarrow> u8 list \<Rightarrow> u8 \<Rightarrow> ('z posix_scheme, unit) cm" where
  "assert_write_port8 fd buf nb_bytes =
     andthen (assert_write fd [nb_bytes] 1) (\<lambda>_.
     andthen (assert_write fd buf (ucast nb_bytes)) (\<lambda>_. skip))"

definition set_u32be :: "u32 \<Rightarrow> u8 list" where
  "set_u32be val = [ucast (drop_bit 24 val), ucast (drop_bit 16 val), ucast (drop_bit 8 val),
     ucast val]"

definition assert_write_port32 :: "int \<Rightarrow> u8 list \<Rightarrow> u32 \<Rightarrow> ('z posix_scheme, unit) cm" where
  "assert_write_port32 fd buf nb_bytes =
     andthen (assert_write fd (set_u32be nb_bytes) 4) (\<lambda>_.
     andthen (assert_write fd buf nb_bytes) (\<lambda>_. skip))"

text \<open>Reading leaves everything but the incoming sides alone, writing everything but the outgoing
  ones; neither allocates or frees.\<close>

definition all_but_rd :: "'z posix_scheme \<Rightarrow> 'z posix_scheme" where
  "all_but_rd s = s\<lparr>rd := \<lambda>_. []\<rparr>"

lemma all_but_rd_eq:
  "all_but_rd s = all_but_rd t \<Longrightarrow> wr s = wr t \<and> out s = out t \<and> malloc_max s = malloc_max t \<and>
     live_blocks s = live_blocks t \<and> posix.more s = posix.more t"
  by (cases s, cases t) (simp add: all_but_rd_def)

lemma assert_read_rest [keep_intros]: "keeps all_but_rd (assert_read fd cap nb)"
  by (auto simp: keeps_def assert_read_def Let_def all_but_rd_def split: prod.splits sum.splits)

lemma read_fixed_loop_rest:
  "all_but_rd (res_state (read_fixed_loop fd cap nb got s)) = all_but_rd s"
proof (induction fd cap nb got s rule: read_fixed_loop.induct)
  case (1 fd cap nb got s)
  have "all_but_rd (res_state (assert_read fd (cap - length got) (nb - length got) s)) = all_but_rd s"
    by (rule keepsD [OF assert_read_rest])
  with 1 show ?case
    by (subst read_fixed_loop.simps) (auto split: res.splits)
qed

lemma assert_read_fixed_rest [keep_intros]: "keeps all_but_rd (assert_read_fixed fd cap nb)"
proof -
  have "keeps all_but_rd (read_fixed_loop fd cap nb [])"
    by (simp add: keeps_def read_fixed_loop_rest)
  then show ?thesis unfolding assert_read_fixed_def by (intro keep_intros)
qed

lemma assert_read_u32_rest [keep_intros]: "keeps all_but_rd (assert_read_u32 fd)"
  unfolding assert_read_u32_def by (intro keep_intros)

lemma keeps_rest_live: "keeps all_but_rd m \<Longrightarrow> keeps live_blocks m"
  by (erule keeps_via) (blast dest: all_but_rd_eq)

lemmas reads_live [keep_intros] =
  assert_read_rest [THEN keeps_rest_live] assert_read_fixed_rest [THEN keeps_rest_live]
  assert_read_u32_rest [THEN keeps_rest_live]

definition all_but_wr :: "'z posix_scheme \<Rightarrow> 'z posix_scheme" where
  "all_but_wr s = s\<lparr>wr := \<lambda>_. [], out := \<lambda>_. []\<rparr>"

lemma all_but_wr_eq:
  "all_but_wr s = all_but_wr t \<Longrightarrow> rd s = rd t \<and> malloc_max s = malloc_max t \<and>
     live_blocks s = live_blocks t \<and> posix.more s = posix.more t"
  by (cases s, cases t) (simp add: all_but_wr_def)

lemma write_loop_rest: "all_but_wr (res_state (write_loop fd left s)) = all_but_wr s"
  by (induction fd left s rule: write_loop.induct)
    (subst write_loop.simps, auto simp: all_but_wr_def split: sum.splits prod.splits)

lemma assert_write_rest [keep_intros]: "keeps all_but_wr (assert_write fd buf nb)"
  by (auto simp: assert_write_def keeps_def andthen_def write_loop_rest
      split: res.splits) (metis res_state.simps write_loop_rest)+

lemma keeps_wr_more: "keeps all_but_wr m \<Longrightarrow> keeps posix.more m"
  by (erule keeps_via) (blast dest: all_but_wr_eq)

lemma keeps_wr_live: "keeps all_but_wr m \<Longrightarrow> keeps live_blocks m"
  by (erule keeps_via) (blast dest: all_but_wr_eq)

lemmas assert_write_more [keep_intros] = assert_write_rest [THEN keeps_wr_more]

lemmas assert_write_live [keep_intros] = assert_write_rest [THEN keeps_wr_live]

text \<open>Reading takes from the input what it returns, and never asks for turns.\<close>

lemma sys_read_consumes:
  "sys_read q nb = (r, q') \<Longrightarrow>
    length (script_bytes q') + (case r of Inl e \<Rightarrow> 0 | Inr bs \<Rightarrow> length bs) = length (script_bytes q)"
  by (cases "(q, nb)" rule: sys_read.cases) (auto split: if_splits)

lemma read_retry_consumes:
  "read_retry q nb = (r, q') \<Longrightarrow>
    length (script_bytes q') + (case r of Inl e \<Rightarrow> 0 | Inr bs \<Rightarrow> length bs) = length (script_bytes q)"
proof (induction q nb rule: read_retry.induct)
  case (1 q nb)
  obtain r1 q1 where r1: "sys_read q nb = (r1, q1)" by fastforce
  with 1 sys_read_consumes [OF r1] show ?case
    by (cases r1) (auto simp: read_retry.simps [of q nb] split: if_splits)
qed

lemma assert_read_consumes:
  "case assert_read fd cap nb s of
     Ok bs t \<Rightarrow> length (pending fd t) + length bs = length (pending fd s)
   | Stop h t \<Rightarrow> length (pending fd t) \<le> length (pending fd s) \<and> h \<noteq> Out_Of_Fuel"
  using read_retry_consumes [of "rd s fd" nb]
  by (cases "read_retry (rd s fd) nb") (fastforce simp: assert_read_def pending_def Let_def split: sum.splits)

lemma read_fixed_loop_consumes:
  "case read_fixed_loop fd cap nb got s of
     Ok bs t \<Rightarrow> length (pending fd t) + length bs = length (pending fd s) + length got
   | Stop h t \<Rightarrow> length (pending fd t) \<le> length (pending fd s) \<and> h \<noteq> Out_Of_Fuel"
proof (induction fd cap nb got s rule: read_fixed_loop.induct)
  case (1 fd cap nb got s)
  show ?case
  proof (cases "assert_read fd (cap - length got) (nb - length got) s")
    case (Ok bs t)
    with 1 [OF _ Ok] assert_read_consumes [where fd = fd and cap = "cap - length got" and nb = "nb - length got" and s = s] show ?thesis
      by (auto simp: read_fixed_loop.simps [of fd cap nb got s] split: res.splits)
  next
    case (Stop h t)
    with assert_read_consumes [where fd = fd and cap = "cap - length got" and nb = "nb - length got" and s = s] show ?thesis
      by (auto simp: read_fixed_loop.simps [of fd cap nb got s])
  qed
qed

lemma assert_read_fixed_consumes:
  "case assert_read_fixed fd cap nb s of
     Ok bs t \<Rightarrow> length bs = nb \<and> length (pending fd t) + nb = length (pending fd s)
   | Stop h t \<Rightarrow> length (pending fd t) \<le> length (pending fd s) \<and> h \<noteq> Out_Of_Fuel"
  using read_fixed_loop_consumes [where fd = fd and cap = cap and nb = nb and got = "[]" and s = s]
  by (auto simp: assert_read_fixed_def assert_that_def io_simps split: res.splits)

lemma assert_read_u32_consumes:
  "case assert_read_u32 fd s of
     Ok v t \<Rightarrow> length (pending fd t) + 4 = length (pending fd s)
   | Stop h t \<Rightarrow> length (pending fd t) \<le> length (pending fd s) \<and> h \<noteq> Out_Of_Fuel"
  using assert_read_fixed_consumes [where fd = fd and cap = 4 and nb = 4 and s = s]
  by (auto simp: assert_read_u32_def io_simps split: res.splits)

lemma reads_shrink:
  "length (pending fd (res_state (assert_read_fixed fd cap nb s))) \<le> length (pending fd s)"
  "length (pending fd (res_state (assert_read_u32 fd s))) \<le> length (pending fd s)"
  using assert_read_fixed_consumes [where fd = fd and cap = cap and nb = nb and s = s]
    assert_read_u32_consumes [where fd = fd and s = s]
  by (simp_all split: res.splits)

section \<open>Reading does not depend on how the data is segmented\<close>

lemma read_retry_data:
  assumes "script_ok q" and "0 < nb" and "script_bytes q \<noteq> []"
  shows "\<exists>bs q'. read_retry q nb = (Inr bs, q') \<and> bs \<noteq> [] \<and> length bs \<le> nb \<and>
           script_bytes q = bs @ script_bytes q' \<and> script_ok q'"
  using assms
proof (induction q nb rule: read_retry.induct)
  case (1 q nb)
  obtain r t where rt: "sys_read q nb = (r, t)" by fastforce
  show ?case
  proof (cases r)
    case (Inl e)
    with rt "1.prems" have "e = EINTR" "script_ok t" "script_bytes t = script_bytes q"
      by (cases "(q, nb)" rule: sys_read.cases; auto)+
    with 1 Inl rt show ?thesis by (simp add: read_retry.simps [of q nb])
  next
    case (Inr bs)
    with rt sys_read_split [of q nb bs t] sys_read_progress [of q nb bs t] "1.prems"
    show ?thesis by (simp add: read_retry.simps [of q nb])
  qed
qed

lemma read_retry_eof:
  "script_ok q \<Longrightarrow> script_bytes q = [] \<Longrightarrow> read_retry q nb = (Inr [], [])"
proof (induction q nb rule: read_retry.induct)
  case (1 q nb)
  then show ?case
    by (cases "(q, nb)" rule: sys_read.cases) 
      (auto simp: read_retry.simps [of "[]"] read_retry.simps [of "Rd_err EINTR # t" for t])
qed

lemma assert_read_data:
  assumes "readable fd s" and "0 < nb" and "nb \<le> cap" and "pending fd s \<noteq> []"
  obtains bs s' where "assert_read fd cap nb s = Ok bs s'" "bs \<noteq> []" "length bs \<le> nb"
    "pending fd s = bs @ pending fd s'" "readable fd s'" "same_but_rd fd s s'"
proof -
  from assms read_retry_data [of "rd s fd" nb] obtain bs q where
    "read_retry (rd s fd) nb = (Inr bs, q)" "bs \<noteq> []" "length bs \<le> nb"
    "script_bytes (rd s fd) = bs @ script_bytes q" "script_ok q"
    by (auto simp: readable_def pending_def)
  with assms show ?thesis
    by (intro that [of bs "s\<lparr>rd := (rd s)(fd := q)\<rparr>"])
      (auto simp: assert_read_def Let_def pending_def readable_def same_but_rd_def)
qed

lemma assert_read_eof:
  assumes "readable fd s" and "0 < nb" and "pending fd s = []"
  obtains s' where "assert_read fd cap nb s = Stop (Exit 0) s'" "same_but_rd fd s s'"
  using assms read_retry_eof [of "rd s fd" nb]
  by (auto simp: assert_read_def readable_def pending_def Let_def same_but_rd_def)

lemma read_fixed_loop_data:
  assumes "readable fd s" and "nb \<le> cap" and "length got \<le> nb"
    and "nb - length got \<le> length (pending fd s)"
  shows "\<exists>s'. read_fixed_loop fd cap nb got s = Ok (got @ take (nb - length got) (pending fd s)) s' \<and>
           pending fd s' = drop (nb - length got) (pending fd s) \<and> readable fd s' \<and>
           same_but_rd fd s s'"
  using assms
proof (induction fd cap nb got s rule: read_fixed_loop.induct)
  case (1 fd cap nb got s)
  show ?case
  proof (cases "length got < nb")
    case False
    with "1.prems" show ?thesis by (simp add: read_fixed_loop.simps)
  next
    case True
    with "1.prems" obtain bs s1 where r:
      "assert_read fd (cap - length got) (nb - length got) s = Ok bs s1" "bs \<noteq> []"
      "length bs \<le> nb - length got" "pending fd s = bs @ pending fd s1" "readable fd s1"
      "same_but_rd fd s s1"
      by (auto elim: assert_read_data [of fd s "nb - length got" "cap - length got"])
    from r(3,4) True "1.prems" have le: "length (got @ bs) \<le> nb"
      "nb - length (got @ bs) \<le> length (pending fd s1)" by auto
    with "1.IH" [OF True r(1,2,5) "1.prems"(2)] obtain s' where s':
      "read_fixed_loop fd cap nb (got @ bs) s1 =
         Ok ((got @ bs) @ take (nb - length (got @ bs)) (pending fd s1)) s'"
      "pending fd s' = drop (nb - length (got @ bs)) (pending fd s1)" "readable fd s'"
      "same_but_rd fd s1 s'"
      by auto
    with True r show ?thesis
      by (auto simp: read_fixed_loop.simps [of fd cap nb got s] diff_diff_eq
          intro: same_but_rd_trans)
  qed
qed

lemma read_fixed_loop_eof:
  assumes "readable fd s" and "nb \<le> cap" and "length got \<le> nb"
    and "length (pending fd s) < nb - length got"
  shows "\<exists>s'. read_fixed_loop fd cap nb got s = Stop (Exit 0) s' \<and> same_but_rd fd s s'"
  using assms
proof (induction fd cap nb got s rule: read_fixed_loop.induct)
  case (1 fd cap nb got s)
  from "1.prems" have True: "length got < nb" by simp
  show ?case
  proof (cases "pending fd s = []")
    case no_data: True
    with True "1.prems" show ?thesis
      by (auto simp: read_fixed_loop.simps [of fd cap nb got s]
          elim: assert_read_eof [of fd s "nb - length got" "cap - length got"])
  next
    case False
    with True "1.prems" obtain bs s1 where r:
      "assert_read fd (cap - length got) (nb - length got) s = Ok bs s1" "bs \<noteq> []"
      "length bs \<le> nb - length got" "pending fd s = bs @ pending fd s1" "readable fd s1"
      "same_but_rd fd s s1"
      by (auto elim: assert_read_data [of fd s "nb - length got" "cap - length got"])
    from r(3,4) True "1.prems" have le: "length (got @ bs) \<le> nb"
      "length (pending fd s1) < nb - length (got @ bs)" by auto
    with "1.IH" [OF True r(1,2,5) "1.prems"(2)] obtain s' where s':
      "read_fixed_loop fd cap nb (got @ bs) s1 = Stop (Exit 0) s'" "same_but_rd fd s1 s'"
      by auto
    with True r show ?thesis
      by (auto simp: read_fixed_loop.simps [of fd cap nb got s] intro: same_but_rd_trans)
  qed
qed

text \<open>A larger buffer makes no difference, so the capacity is fixed to the count below.\<close>

lemma assert_read_fixed_data:
  assumes "readable fd s" and "nb \<le> cap" and "nb \<le> length (pending fd s)"
  shows "\<exists>s'. assert_read_fixed fd cap nb s = Ok (take nb (pending fd s)) s' \<and>
           pending fd s' = drop nb (pending fd s) \<and> readable fd s' \<and> same_but_rd fd s s'"
  using read_fixed_loop_data [of fd s nb cap "[]"] assms
  by (auto simp: assert_read_fixed_def io_simps)

lemma assert_read_fixed_eof:
  assumes "readable fd s" and "nb \<le> cap" and "length (pending fd s) < nb"
  shows "\<exists>s'. assert_read_fixed fd cap nb s = Stop (Exit 0) s' \<and> same_but_rd fd s s'"
  using read_fixed_loop_eof [of fd s nb cap "[]"] assms
  by (auto simp: assert_read_fixed_def io_simps)

section \<open>The interface of an exact reader\<close>

text \<open>What the message loops of the port programs rely on: a call that returns exactly the
  next n bytes of a stream, or ends the program normally when the stream is shorter, and changes
  nothing else.\<close>

locale exact_reader =
  fixes fetch :: "nat \<Rightarrow> ('s, u8 list) cm"
    and stream :: "'s \<Rightarrow> u8 list"
    and steady :: "'s \<Rightarrow> bool"
    and moved :: "'s \<Rightarrow> 's \<Rightarrow> bool"
  assumes fetch_data: "steady s \<Longrightarrow> n \<le> length (stream s) \<Longrightarrow>
      \<exists>s'. fetch n s = Ok (take n (stream s)) s' \<and> stream s' = drop n (stream s) \<and>
           steady s' \<and> moved s s'"
    and fetch_eof: "steady s \<Longrightarrow> length (stream s) < n \<Longrightarrow>
      \<exists>s'. fetch n s = Stop (Exit 0) s' \<and> moved s s'"
    and moved_trans: "moved s t \<Longrightarrow> moved t u \<Longrightarrow> moved s u"
begin

lemma fetch_prefix:
  assumes "steady s" and "stream s = bs @ rest"
  obtains s' where "fetch (length bs) s = Ok bs s'" "stream s' = rest" "steady s'" "moved s s'"
  using fetch_data [of s "length bs"] assms by auto

text \<open>Consecutive exact reads return consecutive pieces of the stream.\<close>

lemma fetch_two:
  assumes "steady s" and "stream s = as @ bs @ rest"
  obtains s' where
    "andthen (fetch (length as)) (\<lambda>x. andthen (fetch (length bs)) (k x)) s = k as bs s'"
    "stream s' = rest" "steady s'" "moved s s'"
proof -
  from assms obtain t where t: "fetch (length as) s = Ok as t" "stream t = bs @ rest"
    "steady t" "moved s t"
    by (auto elim: fetch_prefix)
  then obtain s' where "fetch (length bs) t = Ok bs s'" "stream s' = rest" "steady s'" "moved t s'"
    by (auto elim: fetch_prefix)
  with t that show thesis by (auto simp: io_simps intro: moved_trans)
qed

lemma fetch_never_undefined: "steady s \<Longrightarrow> fetch n s \<noteq> Stop (Undef u) t"
  using fetch_data [of s n] fetch_eof [of s n] by (cases "n \<le> length (stream s)") auto

end

interpretation fixed_reader:
  exact_reader "\<lambda>n. assert_read_fixed fd n n" "pending fd" "readable fd" "same_but_rd fd"
  for fd
  using same_but_rd_trans
  by unfold_locales (auto intro!: assert_read_fixed_data assert_read_fixed_eof)

text \<open>A read into a buffer that is large enough has a defined behaviour, whatever the descriptor does.\<close>

lemma read_fixed_loop_defined:
  "nb \<le> cap \<Longrightarrow> read_fixed_loop fd cap nb got s \<noteq> Stop (Undef u) t"
proof (induction fd cap nb got s rule: read_fixed_loop.induct)
  case (1 fd cap nb got s)
  have "assert_read fd (cap - length got) (nb - length got) s \<noteq> Stop (Undef v) w" for v w
    using "1.prems" by (auto simp: assert_read_def Let_def split: prod.splits sum.splits dest: read_retry_length)
  with 1 show ?case
    by (subst read_fixed_loop.simps) (auto split: res.splits)
qed

lemma read_u32_defined [def_intros]: "defined P (assert_read_u32 fd)"
  using read_fixed_loop_defined [of 4 4 fd "[]"]
  by (auto simp: defined_def assert_read_u32_def assert_read_fixed_def assert_that_def andthen_eq_Stop_iff split: if_splits)

lemma write_loop_defined: "write_loop fd left s \<noteq> Stop (Undef u) t"
proof (induction fd left s rule: write_loop.induct)
  case (1 fd left s)
  then show ?case by (subst write_loop.simps) (auto split: prod.splits sum.splits)
qed

lemma assert_write_defined: "unat nb \<le> length buf \<Longrightarrow> defined P (assert_write fd buf nb)"
  by (auto simp: defined_def assert_write_def andthen_eq_Stop_iff write_loop_defined)

lemma write_port32_defined [def_intros]: "defined P (assert_write_port32 fd msg (word_of_nat (length msg)))"
  for P :: "'z posix_scheme \<Rightarrow> bool"
proof -
  have "unat (word_of_nat (length msg) :: u32) \<le> length msg"
    by (simp add: unsigned_of_nat take_bit_eq_mod)
  from assert_write_defined [OF this, of "\<lambda>_ :: 'z posix_scheme. True" fd]
    assert_write_defined [of 4 "set_u32be (word_of_nat (length msg))" "\<lambda>_ :: 'z posix_scheme. True" fd]
  show ?thesis
    by (auto simp: assert_write_port32_def defined_def andthen_eq_Stop_iff set_u32be_def)
qed

section \<open>Four byte lengths\<close>

lemma length_set_u32be [simp]: "length (set_u32be v) = 4"
  by (simp add: set_u32be_def)

lemma set_u32be_be_bytes: "set_u32be v = be_bytes 4 (unat v)"
  using ucast_drop_byte [of 3 v] ucast_drop_byte [of 2 v] ucast_drop_byte [of 1 v]
    ucast_drop_byte [of 0 v]
  by (simp add: set_u32be_def be_bytes_4)

lemma set_u32be_u32_of_be: "set_u32be (u32_of_be b0 b1 b2 b3) = [b0, b1, b2, b3]"
  unfolding set_u32be_def u32_of_be_def
  by (auto intro!: bit_word_eqI simp: bit_simps)

lemma unat_u32_of_be: "unat (u32_of_be b0 b1 b2 b3) = be_value [b0, b1, b2, b3]"
  unfolding set_u32be_u32_of_be [symmetric] set_u32be_be_bytes be_value_be_bytes
  using unat_u32_less by simp

lemma u32_of_set_u32be: "set_u32be v = [b0, b1, b2, b3] \<Longrightarrow> u32_of_be b0 b1 b2 b3 = v"
  using unat_u32_less [of v]
  by (intro word_unat_eqI)
    (metis be_value_be_bytes mod_less set_u32be_be_bytes unat_u32_of_be)

lemma u32_of_be_nth: "bs = set_u32be v \<Longrightarrow> u32_of_be (bs ! 0) (bs ! 1) (bs ! 2) (bs ! 3) = v"
  by (rule u32_of_set_u32be) (simp add: set_u32be_def)

section \<open>The interface of an exact writer\<close>

definition wrote :: "int \<Rightarrow> u8 list \<Rightarrow> 'z posix_scheme \<Rightarrow> 'z posix_scheme \<Rightarrow> bool" where
  "wrote fd bs s s' \<longleftrightarrow>
     (\<exists>q. s' = s\<lparr>wr := (wr s)(fd := q), out := (out s)(fd := out s fd @ bs)\<rparr>)"

lemma wrote_Nil [simp]: "wrote fd [] s s"
  by (auto simp: wrote_def intro!: exI [of _ "wr s fd"])

lemma wrote_trans: "wrote fd xs s t \<Longrightarrow> wrote fd ys t u \<Longrightarrow> wrote fd (xs @ ys) s u"
  by (auto simp: wrote_def)

lemma wrote_fields [frame_simps]:
  assumes "wrote fd bs s t"
  shows "rd t = rd s" "out t = (out s)(fd := out s fd @ bs)" "malloc_max t = malloc_max s"
    "live_blocks t = live_blocks s" "posix.more t = posix.more s"
    "pending g t = pending g s" "readable g t = readable g s"
  using assms by (auto simp: wrote_def pending_def readable_def)

lemma write_loop_all:
  "writable fd s \<Longrightarrow> \<exists>s'. write_loop fd left s = Ok () s' \<and> writable fd s' \<and> wrote fd left s s'"
proof (induction fd left s rule: write_loop.induct)
  case (1 fd left s)
  show ?case
  proof (cases "left = []")
    case True
    with 1 show ?thesis by (simp add: write_loop.simps)
  next
    case False
    from "1.prems" obtain n q where w: "sys_write (wr s fd) left = (Inr n, q)" "accepts q"
      by (cases "(wr s fd, left)" rule: sys_write.cases) (auto simp: writable_def)
    let ?t = "s\<lparr>wr := (wr s)(fd := q), out := (out s)(fd := out s fd @ take n left)\<rparr>"
    from "1.IH" [OF False w(1) [symmetric] refl] w(2) obtain s' where
      "write_loop fd (drop n left) ?t = Ok () s'" "writable fd s'" "wrote fd (drop n left) ?t s'"
      by (auto simp: writable_def)
    moreover have "wrote fd (take n left) s ?t" by (auto simp: wrote_def)
    ultimately have "write_loop fd left s = Ok () s' \<and> writable fd s' \<and> wrote fd left s s'"
      using False w wrote_trans [of fd "take n left" s ?t "drop n left" s']
      by (simp add: write_loop.simps [of fd left s])
    then show ?thesis by blast
  qed
qed

text \<open>Whatever the descriptor does, a part of the data is written, all of it unless a call fails.\<close>

lemma write_loop_outcome:
  "case write_loop fd left s of
     Ok _ s' \<Rightarrow> wrote fd left s s'
   | Stop h s' \<Rightarrow> h = Error ''rv = WRITE(fd, buf, left)'' \<and> \<not> writable fd s \<and>
       (\<exists>k < length left. wrote fd (take k left) s s')"
proof (induction fd left s rule: write_loop.induct)
  case (1 fd left s)
  obtain r q where w: "sys_write (wr s fd) left = (r, q)" by fastforce
  show ?case
  proof (cases "left = []")
    case True
    then show ?thesis by (simp add: write_loop.simps)
  next
    case False
    show ?thesis
    proof (cases r)
      case (Inl e)
      moreover from this w have "\<not> writable fd s"
        by (cases "(wr s fd, left)" rule: sys_write.cases) (auto simp: writable_def)
      moreover have "wrote fd (take 0 left) s (s\<lparr>wr := (wr s)(fd := q)\<rparr>)" by (auto simp: wrote_def)
      ultimately show ?thesis using False w by (fastforce simp: write_loop.simps [of fd left s])
    next
      case (Inr n)
      let ?t = "s\<lparr>wr := (wr s)(fd := q), out := (out s)(fd := out s fd @ take n left)\<rparr>"
      have wr: "wrote fd (take n left) s ?t" by (auto simp: wrote_def)
      have n: "n \<le> length left" "writable fd s \<Longrightarrow> writable fd ?t"
        using w Inr by (cases "(wr s fd, left)" rule: sys_write.cases; auto simp: writable_def)+
      have step: "write_loop fd left s = write_loop fd (drop n left) ?t"
        using False w Inr by (simp add: write_loop.simps [of fd left s])
      show ?thesis
      proof (cases "write_loop fd (drop n left) ?t")
        case (Ok u s')
        then show ?thesis
          using "1.IH" [OF False w [unfolded Inr, symmetric] refl] wrote_trans [OF wr, of "drop n left" s']
          by (simp add: step)
      next
        case (Stop h s')
        then obtain k where "h = Error ''rv = WRITE(fd, buf, left)''" "\<not> writable fd ?t"
          "k < length (drop n left)" "wrote fd (take k (drop n left)) ?t s'"
          using "1.IH" [OF False w [unfolded Inr, symmetric] refl] by auto
        with Stop step n wrote_trans [OF wr, of "take k (drop n left)" s']
        show ?thesis by (auto simp: take_add [symmetric] intro!: exI [of _ "n + k"])
      qed
    qed
  qed
qed

text \<open>What is appended is a trace; a writer appends all it is given while it is ready.\<close>

locale exact_writer = trace appended
  for appended :: "u8 list \<Rightarrow> 's \<Rightarrow> 's \<Rightarrow> bool" +
  fixes put :: "u8 list \<Rightarrow> ('s, unit) cm"
    and ready :: "'s \<Rightarrow> bool"
  assumes put_ready: "ready s \<Longrightarrow> length bs < 2 ^ 31 \<Longrightarrow>
      \<exists>s'. put bs s = Ok () s' \<and> ready s' \<and> appended bs s s'"
begin

text \<open>A sequence of messages arrives as their concatenation.\<close>

lemma put_each:
  assumes "ready s" and "\<forall>bs \<in> set bss. length bs < 2 ^ 31"
  shows "\<exists>s'. for_each put bss s = Ok () s' \<and> ready s' \<and> appended (concat bss) s s'"
  using assms
proof (induction bss arbitrary: s)
  case Nil
  then show ?case by (simp add: moved_Nil)
next
  case (Cons bs bss)
  then obtain t where t: "put bs s = Ok () t" "ready t" "appended bs s t"
    using put_ready [of s bs] by auto
  with Cons obtain u where "for_each put bss t = Ok () u" "ready u" "appended (concat bss) t u"
    by fastforce
  with t show ?case by (auto intro: moved_append)
qed

end

definition write_bytes :: "int \<Rightarrow> u8 list \<Rightarrow> ('z posix_scheme, unit) cm" where
  "write_bytes fd bs = andthen (assert_write fd bs (word_of_nat (length bs))) (\<lambda>_. skip)"

lemma assert_write_ok:
  assumes "writable fd s" and "length bs < 2 ^ 31"
  obtains s' where "assert_write fd bs (word_of_nat (length bs)) s = Ok (word_of_nat (length bs)) s'"
    "writable fd s'" "wrote fd bs s s'"
proof (cases "bs = []")
  case True
  with assms that show thesis by (auto simp: assert_write_def)
next
  case False
  have n: "unat (word_of_nat (length bs) :: u32) = length bs"
    using assms by (intro unat_u32_of_nat) simp
  from write_loop_all [OF assms(1), of bs] that n False assms show thesis
    by (auto simp: assert_write_def sint_u32_pos_iff io_simps)
qed

interpretation port_writer: exact_writer "wrote fd" "write_bytes fd" "writable fd" for fd
proof unfold_locales
  fix s :: "'a posix_scheme" and bs :: "u8 list"
  assume "writable fd s" "length bs < 2 ^ 31"
  then obtain s' where
    "assert_write fd bs (word_of_nat (length bs)) s = Ok (word_of_nat (length bs)) s'"
    "writable fd s'" "wrote fd bs s s'"
    by (rule assert_write_ok)
  then show "\<exists>s'. write_bytes fd bs s = Ok () s' \<and> writable fd s' \<and> wrote fd bs s s'"
    by (simp add: write_bytes_def io_simps)
qed (auto intro: wrote_trans)

lemma assert_write_port32_ok:
  assumes "writable fd s" and "length bs < 2 ^ 31"
  obtains s' where "assert_write_port32 fd bs (word_of_nat (length bs)) s = Ok () s'"
    "writable fd s'" "wrote fd (be_bytes 4 (length bs) @ bs) s s'"
proof -
  let ?h = "be_bytes 4 (length bs)"
  have h: "set_u32be (word_of_nat (length bs)) = ?h"
    using assms by (simp add: set_u32be_be_bytes unat_u32_of_nat)
  obtain t where t: "assert_write fd ?h 4 s = Ok 4 t" "writable fd t" "wrote fd ?h s t"
    using assert_write_ok [OF assms(1), of ?h] by auto
  obtain u where "assert_write fd bs (word_of_nat (length bs)) t = Ok (word_of_nat (length bs)) u"
    "writable fd u" "wrote fd bs t u"
    using assert_write_ok [OF t(2) assms(2)] by blast
  with t that [of u] show thesis
    by (auto simp: assert_write_port32_def h io_simps intro: wrote_trans)
qed

lemma assert_write_port8_ok:
  assumes "writable fd s" and "length bs < 256"
  obtains s' where "assert_write_port8 fd bs (word_of_nat (length bs)) s = Ok () s'"
    "writable fd s'" "wrote fd (word_of_nat (length bs) # bs) s s'"
proof -
  let ?n = "word_of_nat (length bs) :: u8"
  have n: "ucast ?n = (word_of_nat (length bs) :: u32)"
    using assms(2) by (intro word_unat_eqI)
      (simp add: unsigned_ucast_eq take_bit_nat_eq_self_iff unat_word_of_nat_u8 unat_u32_of_nat)
  obtain t where t: "assert_write fd [?n] 1 s = Ok 1 t" "writable fd t" "wrote fd [?n] s t"
    using assert_write_ok [OF assms(1), of "[?n]"] by auto
  obtain u where "assert_write fd bs (word_of_nat (length bs)) t = Ok (word_of_nat (length bs)) u"
    "writable fd u" "wrote fd bs t u"
    using assert_write_ok [OF t(2), of bs] assms(2) by auto
  with t that [of u] wrote_trans [OF t(3), of bs u] show thesis
    by (auto simp: assert_write_port8_def n io_simps)
qed

section \<open>Packets\<close>

text \<open>A message as it stands on a {packet,4} stream.\<close>

definition frame :: "u8 list \<Rightarrow> u8 list" where
  "frame bs = be_bytes 4 (length bs) @ bs"

lemma read_u32_data:
  assumes "readable fd s" and "pending fd s = be_bytes 4 n @ rest" and "n < 2 ^ 32"
  obtains s' where "assert_read_u32 fd s = Ok (word_of_nat n) s'" "pending fd s' = rest"
    "readable fd s'" "same_but_rd fd s s'"
proof -
  obtain s' where s': "assert_read_fixed fd 4 4 s = Ok (be_bytes 4 n) s'" "pending fd s' = rest"
    "readable fd s'" "same_but_rd fd s s'"
    using fixed_reader.fetch_prefix [OF assms(1,2)] by auto
  moreover have "u32_of_be (be_bytes 4 n ! 0) (be_bytes 4 n ! 1) (be_bytes 4 n ! 2)
      (be_bytes 4 n ! 3) = word_of_nat n"
    using assms(3) by (intro u32_of_be_nth) (simp add: set_u32be_be_bytes unat_u32_of_nat)
  ultimately show thesis
    by (intro that [of s']) (simp_all add: assert_read_u32_def io_simps)
qed

lemma read_u32_eof:
  assumes "readable fd s" and "length (pending fd s) < 4"
  obtains s' where "assert_read_u32 fd s = Stop (Exit 0) s'" "same_but_rd fd s s'"
  using fixed_reader.fetch_eof [of fd s 4] assms by (auto simp: assert_read_u32_def io_simps)

text \<open>The programs that are sent packets share a contract: a turn begins by reading the length of a
  packet. So when the port is closed, they end with status 0 and do nothing more.\<close>

locale packet_loop =
  fixes fd :: int and turn :: "('z posix_scheme, 'a) cm"
  assumes reads_length: "\<exists>k. turn = andthen (assert_read_u32 fd) k"
begin

lemma ends_with_port:
  assumes "readable fd s" and "length (pending fd s) < 4"
  obtains t where "turn s = Stop (Exit 0) t" "same_but_rd fd s t"
proof -
  obtain k where k: "turn = andthen (assert_read_u32 fd) k" using reads_length by blast
  obtain t where "assert_read_u32 fd s = Stop (Exit 0) t" "same_but_rd fd s t"
    by (rule read_u32_eof [OF assms])
  then show thesis by (intro that [of t]) (simp_all add: k)
qed

end

lemma packet_loop_read: "packet_loop fd (andthen (assert_read_u32 fd) k)"
  by (rule packet_loop.intro) blast

lemma packet_loop_then: "packet_loop fd m \<Longrightarrow> packet_loop fd (andthen m k)"
  unfolding packet_loop_def by (metis andthen_assoc)

interpretation packet4_loop: packet_loop fd "assert_read_packet4_len fd" for fd
  unfolding assert_read_packet4_len_def by (rule packet_loop_read)

lemma malloc_ok: "n \<le> malloc_max s \<Longrightarrow> malloc n s = Ok (Some n) (s\<lparr>live_blocks := Suc (live_blocks s)\<rparr>)"
  by (simp add: malloc_def)

lemma pending_live [simp]:
  "pending fd (s\<lparr>live_blocks := n\<rparr>) = pending fd s" "readable fd (s\<lparr>live_blocks := n\<rparr>) = readable fd s"
  "writable fd (s\<lparr>live_blocks := n\<rparr>) = writable fd s"
  by (simp_all add: pending_def readable_def writable_def)

lemma unat_succ_u32: "unat (v :: u32) < 2 ^ 32 - 1 \<Longrightarrow> unat (v + 1) = Suc (unat v)"
  by (simp add: unat_word_ariths)

text \<open>A packet with a non empty payload arrives in a fresh block, NUL terminated.\<close>

lemma packet4_len_data:
  assumes "readable fd s" and "pending fd s = be_bytes 4 (length bs) @ bs @ rest"
    and "bs \<noteq> []" and "length bs < 2 ^ 32 - 1" and "length bs < malloc_max s"
  obtains s' t where
    "assert_read_packet4_len fd s = Ok (Some (bs @ [0]), word_of_nat (length bs)) s'"
    "pending fd s' = rest" "readable fd s'"
    "same_but_rd fd s t" "same_but_rd fd (t\<lparr>live_blocks := Suc (live_blocks t)\<rparr>) s'"
proof -
  let ?n = "word_of_nat (length bs) :: u32"
  have n: "unat ?n = length bs" using assms(4) by (intro unat_u32_of_nat) simp
  have n1: "unat (?n + 1) = Suc (length bs)" using unat_succ_u32 [of ?n] assms(4) n by simp
  have nz: "?n \<noteq> 0" using n assms(3) by (metis length_0_conv unat_0)
  obtain t where t: "assert_read_u32 fd s = Ok ?n t" "pending fd t = bs @ rest" "readable fd t"
    "same_but_rd fd s t"
    using read_u32_data [OF assms(1,2)] assms(4) by auto
  let ?m = "t\<lparr>live_blocks := Suc (live_blocks t)\<rparr>"
  have m: "malloc (Suc (length bs)) t = Ok (Some (Suc (length bs))) ?m"
    using t assms(5) by (intro malloc_ok) (simp add: frame_simps)
  obtain u where u: "assert_read_fixed fd (Suc (length bs)) (length bs) ?m = Ok bs u"
    "pending fd u = rest" "readable fd u" "same_but_rd fd ?m u"
    using assert_read_fixed_data [of fd ?m "length bs" "Suc (length bs)"] t by auto
  show thesis
    using that [of u t] t u n nz m
    by (simp add: assert_read_packet4_len_def io_simps n n1)
qed

lemma packet4_len_empty:
  assumes "readable fd s" and "pending fd s = be_bytes 4 0 @ rest"
  obtains s' where "assert_read_packet4_len fd s = Ok (None, 0) s'" "pending fd s' = rest"
    "readable fd s'" "same_but_rd fd s s'"
proof -
  obtain t where "assert_read_u32 fd s = Ok 0 t" "pending fd t = rest" "readable fd t"
    "same_but_rd fd s t"
    using read_u32_data [OF assms] by auto
  then show thesis by (intro that [of t]) (simp_all add: assert_read_packet4_len_def io_simps)
qed

text \<open>Both cases, for a message framed on the stream: the pointer read back and what changed.\<close>

definition packet_ptr :: "u8 list \<Rightarrow> u8 list option" where
  "packet_ptr bs = (if bs = [] then None else Some (bs @ [0]))"

lemma packet4_len_frame:
  assumes "readable fd s" and "pending fd s = frame bs @ rest"
    and "length bs < 2 ^ 31" and "length bs < malloc_max s"
  obtains s' where "assert_read_packet4_len fd s = Ok (packet_ptr bs, word_of_nat (length bs)) s'"
    "pending fd s' = rest" "readable fd s'" "wr s' = wr s" "out s' = out s"
    "malloc_max s' = malloc_max s" "posix.more s' = posix.more s"
    "live_blocks s' = live_blocks s + (if bs = [] then 0 else 1)"
proof (cases "bs = []")
  case True
  then have "pending fd s = be_bytes 4 0 @ rest" using assms(2) by (simp add: frame_def)
  then obtain s' where "assert_read_packet4_len fd s = Ok (None, 0) s'" "pending fd s' = rest"
    "readable fd s'" "same_but_rd fd s s'"
    by (rule packet4_len_empty [OF assms(1)])
  with True show thesis by (intro that [of s']) (simp_all add: packet_ptr_def frame_simps)
next
  case False
  have stream: "pending fd s = be_bytes 4 (length bs) @ bs @ rest" and len: "length bs < 2 ^ 32 - 1"
    using assms(2,3) by (simp_all add: frame_def)
  obtain s' t where s': "assert_read_packet4_len fd s = Ok (Some (bs @ [0]), word_of_nat (length bs)) s'"
    "pending fd s' = rest" "readable fd s'"
    "same_but_rd fd s t" "same_but_rd fd (t\<lparr>live_blocks := Suc (live_blocks t)\<rparr>) s'"
    using packet4_len_data [OF assms(1) stream False len assms(4)] .
  moreover from s'(4) have "posix.more t = posix.more s" "wr t = wr s" "out t = out s"
    "malloc_max t = malloc_max s" "live_blocks t = live_blocks s"
    by (simp_all add: frame_simps)
  ultimately show thesis
    using False by (intro that [of s']) (simp_all add: packet_ptr_def frame_simps)
qed

text \<open>Whatever the stream: a packet that is not empty comes in a new block.\<close>

lemma packet4_len_allocates:
  assumes "assert_read_packet4_len fd s = Ok (p, len) s'" and "len \<noteq> 0"
  shows "live_blocks s' = Suc (live_blocks s)"
proof -
  obtain t where t: "assert_read_u32 fd s = Ok len t"
    using assms by (auto simp: assert_read_packet4_len_def andthen_eq_Ok_iff split: if_splits
        option.splits)
  obtain cap u where u: "malloc (unat (len + 1)) t = Ok (Some cap) u"
    "andthen (assert_read_fixed fd cap (unat len)) (\<lambda>bs. if unat len < cap
       then ret (Some (bs @ [0]), len) else stop (Undef Out_Of_Bounds)) u = Ok (p, len) s'"
    using assms t by (auto simp: assert_read_packet4_len_def andthen_eq_Ok_iff
        split: option.splits)
  have "live_blocks u = Suc (live_blocks t)" using u(1) by (auto simp: malloc_def split: if_splits)
  moreover have "live_blocks (res_state (andthen (assert_read_fixed fd cap (unat len)) (\<lambda>bs. if unat len < cap
       then ret (Some (bs @ [0]), len) else stop (Undef Out_Of_Bounds)) u)) = live_blocks u"
    by (rule keepsD) (auto intro!: keep_intros)
  then have "live_blocks s' = live_blocks u" unfolding u(2) by simp
  ultimately show ?thesis using keeps_Ok [OF reads_live(3) t] by simp
qed

section \<open>Properties\<close>

text \<open>C7: \<open>assert_read_fixed\<close> does not depend on how the kernel cuts the data into segments or
  how often a signal interrupts the call: it stores exactly the next nb bytes of the stream and
  consumes exactly those, or ends the program with status 0 when the stream is shorter.\<close>

theorem assert_read_fixed_exact:
  assumes "readable fd s" and "nb \<le> cap"
  shows "if nb \<le> length (pending fd s)
     then (\<exists>s'. assert_read_fixed fd cap nb s = Ok (take nb (pending fd s)) s' \<and>
             pending fd s' = drop nb (pending fd s) \<and> readable fd s' \<and> same_but_rd fd s s')
     else (\<exists>s'. assert_read_fixed fd cap nb s = Stop (Exit 0) s' \<and> same_but_rd fd s s')"
  using assert_read_fixed_data [OF assms] assert_read_fixed_eof [OF assms] by auto

definition idle :: posix where
  "idle = \<lparr>rd = (\<lambda>_. []), wr = (\<lambda>_. []), out = (\<lambda>_. []), malloc_max = 1000, live_blocks = 0\<rparr>"

definition feeding :: "rd_event list \<Rightarrow> posix" where
  "feeding q = idle\<lparr>rd := (\<lambda>_. [])(0 := q)\<rparr>"

lemma feeding_simps [simp]:
  "pending 0 (feeding q) = script_bytes q" "readable 0 (feeding q) = script_ok q"
  "rd (feeding q) 0 = q" "malloc_max (feeding q) = 1000" "live_blocks (feeding q) = 0"
  by (simp_all add: feeding_def idle_def pending_def readable_def)

lemma writable_idle [simp]: "writable fd idle" "out idle fd = []"
  by (simp_all add: writable_def idle_def)

theorem assert_read_fixed_exact_witness:
  "\<exists>s'. assert_read_fixed 0 3 3 (feeding [Rd_data [1], Rd_err EINTR, Rd_data [2, 3, 4]]) =
     Ok [1, 2, 3] s' \<and> pending 0 s' = [4]"
  using assert_read_fixed_exact
    [of 0 "feeding [Rd_data [1], Rd_err EINTR, Rd_data [2, 3, 4]]" 3 3]
  by (auto simp: numeral_3_eq_3)

text \<open>What \<open>assert_write_port32\<close> puts on a descriptor, \<open>assert_read_packet4_len\<close> reads back on
  the other side of the pipe, whatever the segmentation: the same payload with a NUL behind it,
  its length, nothing of the following data consumed, and one block allocated.\<close>

lemma port32_roundtrip:
  assumes "writable fd s" and "bs \<noteq> []" and "length bs < 2 ^ 31"
    and "assert_write_port32 fd bs (word_of_nat (length bs)) s = Ok () s'"
    and "out s' fd = out s fd @ msg"
    and "readable gd r" and "pending gd r = msg @ rest" and "length bs < malloc_max r"
  shows "\<exists>r'. assert_read_packet4_len gd r = Ok (Some (bs @ [0]), word_of_nat (length bs)) r' \<and>
     pending gd r' = rest \<and> live_blocks r' = Suc (live_blocks r)"
proof -
  obtain t where "assert_write_port32 fd bs (word_of_nat (length bs)) s = Ok () t"
    "wrote fd (be_bytes 4 (length bs) @ bs) s t"
    using assert_write_port32_ok [OF assms(1,3)] by blast
  with assms(4,5) have msg: "msg = be_bytes 4 (length bs) @ bs" by (simp add: frame_simps)
  have stream: "pending gd r = be_bytes 4 (length bs) @ bs @ rest" and "length bs < 2 ^ 32 - 1"
    using assms(3,7) msg by auto
  then obtain r' t where
    "assert_read_packet4_len gd r = Ok (Some (bs @ [0]), word_of_nat (length bs)) r'"
    "pending gd r' = rest" "readable gd r'" "same_but_rd gd r t"
    "same_but_rd gd (t\<lparr>live_blocks := Suc (live_blocks t)\<rparr>) r'"
    using packet4_len_data [OF assms(6) stream assms(2) _ assms(8)] by blast
  then show ?thesis by (auto simp: frame_simps)
qed

lemma port32_roundtrip_witness:
  "\<exists>s' msg. assert_write_port32 1 [7, 8] 2 idle = Ok () s' \<and> out s' 1 = msg \<and>
     (\<exists>r'. assert_read_packet4_len 0 (feeding [Rd_data msg]) = Ok (Some [7, 8, 0], 2) r' \<and>
        live_blocks r' = 1)"
proof -
  obtain s' where w: "assert_write_port32 1 [7, 8] 2 idle = Ok () s'"
    "wrote 1 [0, 0, 0, 2, 7, 8] idle s'"
    using assert_write_port32_ok [of 1 idle "[7, 8]"] by (auto simp: be_bytes_4)
  then have "out s' 1 = [0, 0, 0, 2, 7, 8]" by (simp add: frame_simps)
  with w port32_roundtrip [of 1 idle "[7, 8]" s' "[0, 0, 0, 2, 7, 8]" 0
      "feeding [Rd_data [0, 0, 0, 2, 7, 8]]" "[]"]
  show ?thesis by auto
qed

text \<open>The block of \<open>assert_read_packet4_len\<close> is sized with an addition in uint32_t: for the
  length 0xFFFFFFFF the block is empty and the first byte of the packet is stored outside it.\<close>

lemma packet4_len_wraps:
  assumes "readable fd s" and "pending fd s = [255, 255, 255, 255, b] @ rest"
  shows "\<exists>s'. assert_read_packet4_len fd s = Stop (Undef Out_Of_Bounds) s'"
proof -
  have hdr: "be_bytes 4 4294967295 = [255, 255, 255, 255]"
    by (simp add: be_bytes_4)
  obtain t where t: "assert_read_u32 fd s = Ok 4294967295 t" "pending fd t = b # rest"
    "readable fd t"
    using read_u32_data [OF assms(1), of 4294967295 "b # rest"] assms(2) by (auto simp: hdr)
  let ?m = "t\<lparr>live_blocks := Suc (live_blocks t)\<rparr>"
  obtain bs q where q: "read_retry (rd t fd) 4294967295 = (Inr bs, q)" "bs \<noteq> []"
    using read_retry_data [of "rd t fd" 4294967295] t
    by (auto simp: readable_def pending_def)
  then have "\<exists>s'. assert_read_fixed fd 0 4294967295 ?m = Stop (Undef Out_Of_Bounds) s'"
    by (simp add: assert_read_fixed_def read_fixed_loop.simps assert_read_def io_simps Let_def)
  with t show ?thesis
    by (auto simp: assert_read_packet4_len_def malloc_def io_simps)
qed

lemma packet4_len_wraps_witness:
  "\<exists>s'. assert_read_packet4_len 0 (feeding [Rd_data [255, 255, 255, 255, 1]]) =
     Stop (Undef Out_Of_Bounds) s'"
  using packet4_len_wraps [of 0 "feeding [Rd_data [255, 255, 255, 255, 1]]" 1 "[]"] by simp

text \<open>\<open>assert_write\<close> on every branch, for any behaviour of the descriptor: a length whose int
  value is positive is written exactly, or the program ends with an error after a proper part of
  the data, and only where a write call failed; a buffer that is too short is overread; and since
  the count is kept in an int, a length of 2^31 or more is returned as if written while no byte
  reaches the descriptor.\<close>

lemma assert_write_exact:
  "if nb = 0 \<or> 2 ^ 31 \<le> unat nb then assert_write fd buf nb s = Ok nb s
   else if length buf < unat nb then assert_write fd buf nb s = Stop (Undef Out_Of_Bounds) s
   else (case assert_write fd buf nb s of
       Ok n s' \<Rightarrow> n = nb \<and> wrote fd (take (unat nb) buf) s s'
     | Stop h s' \<Rightarrow> h = Error ''rv = WRITE(fd, buf, left)'' \<and> \<not> writable fd s \<and>
         (\<exists>k < unat nb. wrote fd (take k buf) s s'))"
proof -
  have pos: "0 < sint nb \<longleftrightarrow> nb \<noteq> 0 \<and> unat nb < 2 ^ 31"
    by (auto simp: sint_u32_pos_iff unat_gt_0)
  show ?thesis
    using write_loop_outcome [of fd "take (unat nb) buf" s] pos
    by (auto simp: assert_write_def io_simps andthen_def split: res.splits)
qed

text \<open>The packets with a one byte length: what \<open>assert_write_port8\<close> puts on a descriptor,
  \<open>assert_read_port8_cstring\<close> stores in the buffer on the other side, terminated by a NUL, with
  the buffer beyond it unchanged and the following data left, when the packet arrives in one
  segment.\<close>

lemma port8_roundtrip:
  assumes "writable fd s" and "bs \<noteq> []" and "length bs < 256"
    and "assert_write_port8 fd bs (word_of_nat (length bs)) s = Ok () s'"
    and "out s' fd = out s fd @ msg"
    and "rd r gd = Rd_data (msg @ later) # q" and "length bs < length buf"
  shows "\<exists>r'. assert_read_port8_cstring gd buf r =
      Ok (word_of_nat (length bs), bs @ 0 # drop (Suc (length bs)) buf) r' \<and>
    pending gd r' = later @ script_bytes q"
proof -
  have n: "unat (word_of_nat (length bs) :: u8) = length bs" "word_of_nat (length bs) \<noteq> (0 :: u8)"
    using assms(2,3) unat_word_of_nat_u8 [of "length bs"] by (auto simp: unat_eq_zero)
  obtain t where "assert_write_port8 fd bs (word_of_nat (length bs)) s = Ok () t"
    "wrote fd (word_of_nat (length bs) # bs) s t"
    using assert_write_port8_ok [OF assms(1,3)] by blast
  with assms(4,5) have msg: "msg = word_of_nat (length bs) # bs" by (simp add: frame_simps)
  let ?r1 = "r\<lparr>rd := (rd r)(gd := Rd_data (bs @ later) # q)\<rparr>"
  have "assert_read gd 1 1 r = Ok [word_of_nat (length bs)] ?r1"
    using assms(2,6) msg by (simp add: assert_read_def read_retry.simps Let_def)
  moreover obtain r' where "assert_read gd (length buf) (length bs) ?r1 = Ok bs r'"
    "pending gd r' = later @ script_bytes q"
    using assms(2,7) by (auto simp: assert_read_def read_retry.simps Let_def pending_def)
  moreover have "(bs @ drop (length bs) buf)[length bs := 0] = bs @ 0 # drop (Suc (length bs)) buf"
    using assms(7) by (simp add: list_update_append Cons_nth_drop_Suc [symmetric])
  ultimately show ?thesis
    using assms(7) by (auto simp: assert_read_port8_cstring_def assert_read_packet1_cstring_def assert_read_packet1_def io_simps n)
qed

lemma port8_roundtrip_witness:
  "\<exists>s'. assert_write_port8 1 [7, 8] 2 idle = Ok () s' \<and>
     (\<exists>r'. assert_read_port8_cstring 0 [1, 1, 1, 1] (feeding [Rd_data (out s' 1 @ [9])]) =
        Ok (2, [7, 8, 0, 1]) r' \<and> pending 0 r' = [9])"
proof -
  obtain s' where w: "assert_write_port8 1 [7, 8] 2 idle = Ok () s'" "wrote 1 [2, 7, 8] idle s'"
    using assert_write_port8_ok [of 1 idle "[7, 8]"] by auto
  then have "out s' 1 = [2, 7, 8]" by (simp add: frame_simps)
  with w port8_roundtrip [of 1 idle "[7, 8]" s' "[2, 7, 8]" "feeding [Rd_data [2, 7, 8, 9]]" 0
      "[9]" "[]" "[1, 1, 1, 1]"]
  show ?thesis by auto
qed

text \<open>\<open>assert_read_packet1\<close> takes what one read call gives: when the payload's first segment
  is shorter than the announced size, the size is returned although the end of the buffer still
  holds its old contents and the rest of the packet is still in the stream.\<close>

lemma packet1_short_read:
  assumes "rd s fd = Rd_data [n] # Rd_data bs # q" and "bs \<noteq> []" and "length bs < unat n"
    and "unat n \<le> length buf"
  shows "\<exists>s'. assert_read_packet1 fd buf s = Ok (n, bs @ drop (length bs) buf) s' \<and> rd s' fd = q"
  using assms
  by (auto simp: assert_read_packet1_def assert_read_def read_retry.simps io_simps Let_def)

lemma packet1_short_read_witness:
  "\<exists>s'. assert_read_packet1 0 [0, 0, 0] (feeding [Rd_data [3], Rd_data [1], Rd_data [2, 3]]) =
     Ok (3, [1, 0, 0]) s' \<and> rd s' 0 = [Rd_data [2, 3]]"
  using packet1_short_read [of "feeding [Rd_data [3], Rd_data [1], Rd_data [2, 3]]" 0 3 "[1]"
      "[Rd_data [2, 3]]" "[0, 0, 0]"]
  by simp

text \<open>The bound check of \<open>assert_read_packet4_static\<close> wraps: a size of at least 2^32 - 4 passes
  it with any buffer of three bytes or more, and data beyond the buffer is then stored.\<close>

lemma packet4_static_check_wraps:
  assumes "rd s 0 = [Rd_data (be_bytes 4 n), Rd_data data]" and "2 ^ 32 - 4 \<le> n" "n < 2 ^ 32"
    and "4 \<le> length buf" and "length buf - 4 < length data" and "length data \<le> n"
  shows "\<exists>s'. assert_read_packet4_static fd buf (length buf) s = Stop (Undef Out_Of_Bounds) s'"
proof -
  have un: "unat (word_of_nat n :: u32) = n" using assms(3) by (rule unat_u32_of_nat)
  have "be_bytes 4 n \<noteq> []" by (metis length_be_bytes list.size(3) zero_neq_numeral)
  then have "read_fixed_loop 0 4 4 [] s =
      Ok (be_bytes 4 n) (s\<lparr>rd := (rd s)(0 := [Rd_data data])\<rparr>)"
    using assms by (simp add: read_fixed_loop.simps assert_read_def read_retry.simps Let_def)
  moreover have "u32_of_be (be_bytes 4 n ! 0) (be_bytes 4 n ! 1) (be_bytes 4 n ! 2)
      (be_bytes 4 n ! 3) = word_of_nat n"
    by (intro u32_of_be_nth) (simp add: set_u32be_be_bytes un)
  ultimately have hdr: "assert_read_u32 0 s =
      Ok (word_of_nat n) (s\<lparr>rd := (rd s)(0 := [Rd_data data])\<rparr>)"
    by (simp add: assert_read_u32_def assert_read_fixed_def io_simps)
  have "unat (4 + word_of_nat n :: u32) = (4 + n) mod 2 ^ 32"
    by (simp add: unat_word_ariths un)
  also have "\<dots> = (4 + n) - 2 ^ 32" using assms(2,3) by (simp add: mod_if)
  also have "\<dots> \<le> length buf" using assms(3,4) by simp
  finally have chk: "unat (4 + word_of_nat n :: u32) \<le> length buf" .
  have "\<exists>s'. assert_read 0 (length buf - 4) n (s\<lparr>rd := (rd s)(0 := [Rd_data data])\<rparr>) =
      Stop (Undef Out_Of_Bounds) s'"
    using assms by (auto simp: assert_read_def read_retry.simps Let_def)
  with hdr chk un assms show ?thesis
    by (auto simp: assert_read_packet4_static_def io_simps)
qed

lemma packet4_static_check_wraps_witness:
  "\<exists>s'. assert_read_packet4_static 3 [0, 0, 0, 0] (length [0, 0, 0, 0 :: u8])
      (feeding [Rd_data (be_bytes 4 4294967292), Rd_data [9]]) = Stop (Undef Out_Of_Bounds) s'"
  using packet4_static_check_wraps
    [of "feeding [Rd_data (be_bytes 4 4294967292), Rd_data [9]]" 4294967292 "[9]" "[0, 0, 0, 0]" 3]
  by simp

end
