(* ===== verification/C_Stdlib.thy ===== *)
theory C_Stdlib
  imports C_Prelude
begin

text \<open>
  What the programs use of the C library's number conversions: the %d of sprintf and printf for
  numbers that are not negative, and atoi. A number printed is read back by atoi.
\<close>

section \<open>Decimal printing (the \<open>%d\<close> of sprintf and printf)\<close>

fun dec_of_nat :: "nat \<Rightarrow> string" where
  "dec_of_nat n =
     (if n < 10 then [char_of (48 + n)] else dec_of_nat (n div 10) @ [char_of (48 + n mod 10)])"

declare dec_of_nat.simps [simp del]

lemma dec_of_nat_length: "n < 10 ^ Suc k \<Longrightarrow> length (dec_of_nat n) \<le> Suc k"
proof (induction k arbitrary: n)
  case 0
  then show ?case by (simp add: dec_of_nat.simps)
next
  case (Suc k)
  then have "n div 10 < 10 ^ Suc k" by auto
  with Suc.IH [of "n div 10"] show ?case by (subst dec_of_nat.simps) simp
qed

definition dec_bytes :: "nat \<Rightarrow> u8 list" where
  "dec_bytes n = bytes_of (dec_of_nat n)"

text \<open>%d of an int.\<close>

definition int_bytes :: "int \<Rightarrow> u8 list" where
  "int_bytes v = (if v < 0 then 45 # dec_bytes (nat (- v)) else dec_bytes (nat v))"

section \<open>\<open>atoi\<close>\<close>

definition is_digit :: "u8 \<Rightarrow> bool" where
  "is_digit b \<longleftrightarrow> 48 \<le> b \<and> b \<le> 57"

definition is_space :: "u8 \<Rightarrow> bool" where
  "is_space b \<longleftrightarrow> b = 32 \<or> 9 \<le> b \<and> b \<le> 13"

fun digits_value :: "nat \<Rightarrow> u8 list \<Rightarrow> nat" where
  "digits_value acc [] = acc"
| "digits_value acc (b # bs) =
     (if is_digit b then digits_value (acc * 10 + (unat b - 48)) bs else acc)"

definition atoi :: "u8 list \<Rightarrow> int" where
  "atoi bs =
     (case dropWhile is_space bs of
        [] \<Rightarrow> 0
      | b # ds \<Rightarrow>
          if b = 45 then - int (digits_value 0 ds)
          else if b = 43 then int (digits_value 0 ds)
          else int (digits_value 0 (b # ds)))"

lemma digits_value_append:
  "\<forall>b \<in> set xs. is_digit b \<Longrightarrow> digits_value acc (xs @ ys) = digits_value (digits_value acc xs) ys"
  by (induction xs arbitrary: acc) auto

lemma digit_byte:
  assumes "d < 10"
  shows "is_digit (word_of_nat (48 + d))" and "unat (word_of_nat (48 + d) :: u8) = 48 + d"
proof -
  show u: "unat (word_of_nat (48 + d) :: u8) = 48 + d"
    using assms by (subst unat_of_nat) simp
  show "is_digit (word_of_nat (48 + d))"
    using assms unfolding is_digit_def word_le_nat_alt u by simp
qed

lemma bytes_of_char_of: "n < 256 \<Longrightarrow> bytes_of [char_of n] = [word_of_nat n]"
proof -
  assume "n < 256"
  then have "of_char (char_of n :: char) = n" by simp
  then have "of_char (char_of n :: char) = (word_of_nat n :: u8)" by (metis of_nat_of_char)
  then show ?thesis by (simp add: bytes_of_def)
qed

lemma dec_bytes_rec:
  "dec_bytes n = (if n < 10 then [word_of_nat (48 + n)]
     else dec_bytes (n div 10) @ [word_of_nat (48 + n mod 10)])"
proof -
  have "bytes_of (xs @ ys) = bytes_of xs @ bytes_of ys" for xs ys by (simp add: bytes_of_def)
  moreover have "48 + n mod 10 < 256" by linarith
  ultimately show ?thesis
    unfolding dec_bytes_def
    using bytes_of_char_of [of "48 + n"] bytes_of_char_of [of "48 + n mod 10"]
    by (subst dec_of_nat.simps) (simp add: bytes_of_char_of del: of_nat_add)
qed

lemma dec_bytes_read_back:
  "(\<forall>b \<in> set (dec_bytes n). is_digit b) \<and> dec_bytes n \<noteq> [] \<and> digits_value 0 (dec_bytes n) = n"
proof (induction n rule: less_induct)
  case (less n)
  show ?case
  proof (cases "n < 10")
    case True
    then show ?thesis
      using digit_byte [of n] by (simp add: dec_bytes_rec [of n] del: of_nat_add)
  next
    case False
    then have "n div 10 < n" by simp
    from less.IH [OF this] False digit_byte [of "n mod 10"] show ?thesis
      by (simp add: dec_bytes_rec [of n] digits_value_append del: of_nat_add)
  qed
qed

lemma digit_not_sign: "is_digit b \<Longrightarrow> b \<noteq> 45 \<and> b \<noteq> 43 \<and> \<not> is_space b"
  by (auto simp: is_digit_def is_space_def word_le_nat_alt)

text \<open>What is printed is read back, whatever follows that is not a digit.\<close>

lemma digits_value_dec_bytes:
  assumes "rest = [] \<or> \<not> is_digit (hd rest)"
  shows "digits_value 0 (dec_bytes n @ rest) = n"
proof -
  have "digits_value n rest = n" using assms by (cases rest) auto
  then show ?thesis using dec_bytes_read_back [of n] by (simp add: digits_value_append)
qed

lemma atoi_dec_bytes:
  assumes "rest = [] \<or> \<not> is_digit (hd rest)"
  shows "atoi (dec_bytes n @ rest) = int n"
proof -
  obtain b ds where b: "dec_bytes n = b # ds"
    using dec_bytes_read_back [of n] by (cases "dec_bytes n") auto
  then have "is_digit b" using dec_bytes_read_back [of n] by auto
  then show ?thesis
    using digits_value_dec_bytes [OF assms, of n] digit_not_sign by (simp add: atoi_def b)
qed

lemma atoi_int_bytes:
  assumes "rest = [] \<or> \<not> is_digit (hd rest)"
  shows "atoi (int_bytes v @ rest) = v"
proof (cases "v < 0")
  case True
  then show ?thesis
    using digits_value_dec_bytes [OF assms, of "nat (- v)"]
    by (simp add: int_bytes_def atoi_def is_space_def word_le_nat_alt)
next
  case False
  then show ?thesis using atoi_dec_bytes [OF assms, of "nat v"] by (simp add: int_bytes_def)
qed

lemma comma_not_in_dec_bytes: "44 \<notin> set (dec_bytes n)"
  using dec_bytes_read_back [of n] by (auto simp: is_digit_def word_le_nat_alt)

end
