(* ===== verification/Bert_Reader.thy ===== *)
theory Bert_Reader
  imports C_Stdlib
begin

text \<open>
  The BERT parser of c_src/bert.c and include/bert.h: a generalised right fold over the external
  term format whose constructors are callbacks. The struct of function pointers is a record of
  state transformers over the client's state; a NULL pointer is None. Objects are pointers, so
  the type \<open>'o option\<close> with None for NULL.

  \<open>r_object\<close> and \<open>r_tuple\<close> call each other without a bound the code states; the model takes the
  depth of the recursion as fuel. How much is enough is proved for each client. The variable
  length array of \<open>r_tuple\<close> and the C stack have no limit in the model.
\<close>

section \<open>Tags (include/bert.h)\<close>

definition BERT_START :: u8 where "BERT_START = 131"
definition BERT_SMALL_ATOM :: u8 where "BERT_SMALL_ATOM = 115"
definition BERT_ATOM :: u8 where "BERT_ATOM = 100"
definition BERT_BINARY :: u8 where "BERT_BINARY = 109"
definition BERT_SMALL_INTEGER :: u8 where "BERT_SMALL_INTEGER = 97"
definition BERT_INTEGER :: u8 where "BERT_INTEGER = 98"
definition BERT_STRING :: u8 where "BERT_STRING = 107"
definition BERT_LIST :: u8 where "BERT_LIST = 108"
definition BERT_SMALL_TUPLE :: u8 where "BERT_SMALL_TUPLE = 104"
definition BERT_LARGE_TUPLE :: u8 where "BERT_LARGE_TUPLE = 105"
definition BERT_NIL :: u8 where "BERT_NIL = 106"
definition BERT_SMALL_BIG :: u8 where "BERT_SMALL_BIG = 110"
definition BERT_LARGE_BIG :: u8 where "BERT_LARGE_BIG = 111"
definition BERT_FLOAT :: u8 where "BERT_FLOAT = 99"
definition BERT_NEW_FLOAT :: u8 where "BERT_NEW_FLOAT = 70"
definition BERT_MAP :: u8 where "BERT_MAP = 116"
definition BERT_ZERO :: u8 where "BERT_ZERO = 0"

lemmas bert_tags = BERT_START_def BERT_SMALL_ATOM_def BERT_ATOM_def BERT_BINARY_def
  BERT_SMALL_INTEGER_def BERT_INTEGER_def BERT_STRING_def BERT_LIST_def BERT_SMALL_TUPLE_def
  BERT_LARGE_TUPLE_def BERT_NIL_def

lemmas foreign_tags = BERT_SMALL_BIG_def BERT_LARGE_BIG_def BERT_FLOAT_def BERT_NEW_FLOAT_def
  BERT_MAP_def BERT_ZERO_def

section \<open>The reader interface\<close>

text \<open>The error callback does not return: it yields how the program ends.\<close>

record ('s, 'o) bert_reader =
  r_pop :: "('s, u8) cm"
  r_wind :: "u32 \<Rightarrow> ('s, unit) cm"
  r_tuple_cb :: "(u32 \<Rightarrow> 'o option list \<Rightarrow> ('s, 'o option) cm) option"
  r_list_cb :: "('o option \<Rightarrow> 'o option \<Rightarrow> ('s, 'o option) cm) option"
  r_binary_cb :: "(u32 \<Rightarrow> ('s, 'o option) cm) option"
  r_atom_cb :: "(u32 \<Rightarrow> ('s, 'o option) cm) option"
  r_string_cb :: "(u32 \<Rightarrow> ('s, 'o option) cm) option"
  r_integer_cb :: "(u32 \<Rightarrow> ('s, 'o option) cm) option"
  r_nil :: "'o option"
  r_error :: "string \<Rightarrow> 's \<Rightarrow> halt \<times> 's"

definition fail_with :: "('s, 'o) bert_reader \<Rightarrow> string \<Rightarrow> ('s, 'a) cm" where
  "fail_with r msg s = (case r_error r msg s of (h, s') \<Rightarrow> Stop h s')"

text \<open>A call through a function pointer.\<close>

definition call_ptr :: "'f option \<Rightarrow> ('f \<Rightarrow> ('s, 'a) cm) \<Rightarrow> ('s, 'a) cm" where
  "call_ptr p k = (case p of None \<Rightarrow> stop (Undef Null_Call) | Some f \<Rightarrow> k f)"

lemma call_ptr_simps [simp]:
  "call_ptr None k = stop (Undef Null_Call)" "call_ptr (Some f) k = k f"
  by (simp_all add: call_ptr_def)

section \<open>Numbers\<close>

fun r_uint_loop :: "('s, 'o) bert_reader \<Rightarrow> nat \<Rightarrow> u32 \<Rightarrow> ('s, u32) cm" where
  "r_uint_loop r 0 acc = ret acc"
| "r_uint_loop r (Suc n) acc =
     andthen (r_pop r) (\<lambda>b. r_uint_loop r n (push_bit 8 acc + ucast b))"

definition r_uint :: "('s, 'o) bert_reader \<Rightarrow> nat \<Rightarrow> ('s, u32) cm" where
  "r_uint r nb = r_uint_loop r nb 0"

definition r_sint :: "('s, 'o) bert_reader \<Rightarrow> nat \<Rightarrow> ('s, u32) cm" where
  "r_sint r nb =
     (if nb = 4 then r_uint r nb else fail_with r ''unsupported signed int size'')"

section \<open>The message for an unknown type\<close>

definition unexpected_type :: "u8 \<Rightarrow> string" where
  "unexpected_type t = ''Unexpected BERT type: '' @ dec_of_nat (unat t)"

section \<open>Compound objects\<close>

text \<open>The parameter \<open>obj\<close> is the recursive call of \<open>r_object\<close>.\<close>

definition r_tuple ::
    "('s, 'o option) cm \<Rightarrow> ('s, 'o) bert_reader \<Rightarrow> nat \<Rightarrow> ('s, 'o option) cm" where
  "r_tuple obj r size_size =
     andthen (r_uint r size_size) (\<lambda>size.
     andthen (collect (unat size) obj) (\<lambda>el.
     call_ptr (r_tuple_cb r) (\<lambda>f. f size el)))"

definition r_list ::
    "('s, 'o option) cm \<Rightarrow> ('s, 'o) bert_reader \<Rightarrow> ('s, 'o option) cm" where
  "r_list obj r =
     andthen (r_tuple obj r 4) (\<lambda>val_tuple.
     andthen obj (\<lambda>val_tail.
     call_ptr (r_list_cb r) (\<lambda>f. f val_tuple val_tail)))"

definition r_slice ::
    "('s, 'o) bert_reader \<Rightarrow> (u32 \<Rightarrow> ('s, 'o option) cm) \<Rightarrow> nat \<Rightarrow> ('s, 'o option) cm" where
  "r_slice r obj size_size =
     andthen (r_uint r size_size) (\<lambda>size.
     andthen (obj size) (\<lambda>val.
     andthen (r_wind r size) (\<lambda>_. ret val)))"

text \<open>\<open>r_object\<close> after the type byte: the chain of tests in the source's order.\<close>

definition r_dispatch ::
    "('s, 'o option) cm \<Rightarrow> ('s, 'o) bert_reader \<Rightarrow> u8 \<Rightarrow> ('s, 'o option) cm" where
  "r_dispatch obj r type =
     (if r_list_cb r \<noteq> None \<and> type = BERT_LIST then r_list obj r
      else if r_binary_cb r \<noteq> None \<and> type = BERT_BINARY then r_slice r (the (r_binary_cb r)) 4
      else if type = BERT_NIL then ret (r_nil r)
      else if r_atom_cb r \<noteq> None \<and> type = BERT_SMALL_ATOM then r_slice r (the (r_atom_cb r)) 1
      else if r_atom_cb r \<noteq> None \<and> type = BERT_ATOM then r_slice r (the (r_atom_cb r)) 2
      else if type = BERT_SMALL_INTEGER then
        andthen (r_uint r 1) (\<lambda>v. call_ptr (r_integer_cb r) (\<lambda>f. f v))
      else if type = BERT_INTEGER then
        andthen (r_sint r 4) (\<lambda>v. call_ptr (r_integer_cb r) (\<lambda>f. f v))
      else if r_tuple_cb r \<noteq> None \<and> type = BERT_SMALL_TUPLE then r_tuple obj r 1
      else if r_tuple_cb r \<noteq> None \<and> type = BERT_LARGE_TUPLE then r_tuple obj r 4
      else if r_string_cb r \<noteq> None \<and> type = BERT_STRING then r_slice r (the (r_string_cb r)) 2
      else fail_with r (unexpected_type type))"

primrec r_object :: "nat \<Rightarrow> ('s, 'o) bert_reader \<Rightarrow> ('s, 'o option) cm" where
  "r_object 0 r = stop Out_Of_Fuel"
| "r_object (Suc n) r = andthen (r_pop r) (r_dispatch (r_object n r) r)"

section \<open>\<open>bert_decode\<close>\<close>

text \<open>Undefined constructors are replaced by one that returns NULL.\<close>

definition or_null :: "'f option \<Rightarrow> 'f \<Rightarrow> 'f option" where
  "or_null p c_null = (case p of None \<Rightarrow> Some c_null | Some f \<Rightarrow> Some f)"

definition default_callbacks :: "('s, 'o) bert_reader \<Rightarrow> ('s, 'o) bert_reader" where
  "default_callbacks r = r\<lparr>
     r_tuple_cb := or_null (r_tuple_cb r) (\<lambda>_ _. ret None),
     r_list_cb := or_null (r_list_cb r) (\<lambda>_ _. ret None),
     r_binary_cb := or_null (r_binary_cb r) (\<lambda>_. ret None),
     r_atom_cb := or_null (r_atom_cb r) (\<lambda>_. ret None),
     r_string_cb := or_null (r_string_cb r) (\<lambda>_. ret None),
     r_integer_cb := or_null (r_integer_cb r) (\<lambda>_. ret None)\<rparr>"

definition bert_decode :: "nat \<Rightarrow> ('s, 'o) bert_reader \<Rightarrow> ('s, 'o option) cm" where
  "bert_decode fuel r0 =
     (let r = default_callbacks r0 in
      andthen (r_pop r) (\<lambda>start.
      if start \<noteq> BERT_START then fail_with r ''Not a valid BERT''
      else r_object fuel r))"

section \<open>Facts about the pieces\<close>

lemma unat_shift_add:
  assumes "unat acc * 256 + unat b < 2 ^ 32"
  shows "unat (push_bit 8 acc + ucast (b :: u8) :: u32) = unat acc * 256 + unat b"
proof -
  have s: "unat (push_bit 8 acc :: u32) = unat acc * 256"
    using assms by (simp add: push_bit_eq_mult unat_word_ariths)
  have b: "unat (ucast b :: u32) = unat b"
    by (simp add: unsigned_ucast_eq take_bit_nat_eq_self_iff less_trans [OF unat_u8_less])
  show ?thesis using assms by (simp add: unat_word_ariths s b)
qed

text \<open>The value read by \<open>r_uint\<close> is bounded by the number of bytes.\<close>

lemma r_uint_loop_bound:
  assumes "r_uint_loop r n acc s = Ok v s'" and "unat acc < 256 ^ k" and "n + k \<le> 4"
  shows "unat v < 256 ^ (n + k)"
  using assms
proof (induction n arbitrary: acc k s)
  case (Suc n)
  from Suc.prems(1) obtain b :: u8 and s1 where
    l: "r_uint_loop r n (push_bit 8 acc + ucast b) s1 = Ok v s'"
    by (auto simp: andthen_eq_Ok_iff)
  have "unat acc * 256 + unat b < 256 ^ Suc k"
    using Suc.prems(2) unat_u8_less [of b] by (simp only: power_Suc)
  moreover have "(256 :: nat) ^ Suc k \<le> 256 ^ 4"
    using Suc.prems(3) by (intro power_increasing) auto
  ultimately have "unat (push_bit 8 acc + ucast b :: u32) < 256 ^ Suc k"
    by (subst unat_shift_add) simp_all
  from Suc.IH [OF l this] Suc.prems(3) show ?case by simp
qed simp

lemma r_uint_bound: "r_uint r n s = Ok v s' \<Longrightarrow> n \<le> 4 \<Longrightarrow> unat v < 256 ^ n"
  using r_uint_loop_bound [of r n 0 s v s' 0] by (simp add: r_uint_def)

section \<open>Types that are not handled\<close>

definition handled_types :: "u8 list" where
  "handled_types = [BERT_SMALL_ATOM, BERT_ATOM, BERT_BINARY, BERT_SMALL_INTEGER, BERT_INTEGER,
     BERT_STRING, BERT_LIST, BERT_SMALL_TUPLE, BERT_LARGE_TUPLE, BERT_NIL]"

lemma dispatch_unexpected:
  "t \<notin> set handled_types \<Longrightarrow> r_dispatch obj r t s = fail_with r (unexpected_type t) s"
  by (auto simp: handled_types_def r_dispatch_def)

lemma unexpected_type_fits: "Suc (length (unexpected_type t)) \<le> 32"
proof -
  have "length (dec_of_nat (unat t)) \<le> Suc 2"
    by (rule dec_of_nat_length, rule less_trans [OF unat_u8_less]) simp
  then show ?thesis by (simp add: unexpected_type_def)
qed

text \<open>A type the reader does not handle is refused, whatever callbacks are set: any byte but
  the ten handled tags, among them those of bert.h for big numbers, floats and maps, ends in the
  error callback with the text "Unexpected BERT type: n", which fits the 32 byte buffer it is
  formatted into. Nothing behind the type byte is read.\<close>

lemma unexpected_types_rejected:
  assumes "t \<notin> set handled_types" and "r_pop r s = Ok t s'"
  shows "r_object (Suc n) (default_callbacks r) s =
      fail_with (default_callbacks r) (''Unexpected BERT type: '' @ dec_of_nat (unat t)) s' \<and>
    length (''Unexpected BERT type: '' @ dec_of_nat (unat t)) < 32 \<and>
    {BERT_SMALL_BIG, BERT_LARGE_BIG, BERT_FLOAT, BERT_NEW_FLOAT, BERT_MAP, BERT_ZERO} \<inter>
      set handled_types = {}"
proof -
  have "r_pop (default_callbacks r) = r_pop r" by (simp add: default_callbacks_def)
  then show ?thesis
    using dispatch_unexpected [OF assms(1)] unexpected_type_fits [of t] assms(2)
    by (simp add: io_simps unexpected_type_def handled_types_def bert_tags foreign_tags)
qed

lemma unexpected_types_rejected_witness:
  "r_object 1 (default_callbacks \<lparr>r_pop = (\<lambda>bs. Ok (hd bs) (drop 1 bs)), r_wind = (\<lambda>_. skip),
      r_tuple_cb = None, r_list_cb = None, r_binary_cb = None, r_atom_cb = None,
      r_string_cb = None, r_integer_cb = None, r_nil = None :: unit option,
      r_error = (\<lambda>msg bs. (Error msg, bs))\<rparr>) [119, 3, 97] =
    Stop (Error ''Unexpected BERT type: 119'') [3, 97]"
proof -
  let ?r = "\<lparr>r_pop = (\<lambda>bs. Ok (hd bs) (drop 1 bs)), r_wind = (\<lambda>_. skip),
      r_tuple_cb = None, r_list_cb = None, r_binary_cb = None, r_atom_cb = None,
      r_string_cb = None, r_integer_cb = None, r_nil = None :: unit option,
      r_error = (\<lambda>msg bs. (Error msg, bs))\<rparr> :: (u8 list, unit) bert_reader"
  have "dec_of_nat 119 = ''119''" by code_simp
  then show ?thesis
    using unexpected_types_rejected [of 119 ?r "[119, 3, 97]" "[3, 97]" 0]
    by (simp add: handled_types_def bert_tags fail_with_def default_callbacks_def)
qed

end
