(* ===== verification/Bert_Fold.thy ===== *)
theory Bert_Fold
  imports Bert_Reader
begin

text \<open>
  The contract of the BERT parser. Terms of the external format are a datatype with their
  encoding; a fold over a term is what the parser computes on its encoding, for any client whose
  pop and wind walk a byte stream (locale \<open>bert_stream\<close>), and the parser stops on every input
  for any client whose callbacks do not grow a measure that pop shrinks (locale
  \<open>bert_bounded\<close>).
\<close>

section \<open>Terms and their encoding\<close>

datatype bterm =
    T_nil
  | T_small_int u8
  | T_int u32
  | T_small_atom "u8 list"
  | T_atom "u8 list"
  | T_binary "u8 list"
  | T_string "u8 list"
  | T_small_tuple "bterm list"
  | T_large_tuple "bterm list"
  | T_list "bterm list" bterm

fun encode :: "bterm \<Rightarrow> u8 list"
  and encode_all :: "bterm list \<Rightarrow> u8 list" where
  "encode T_nil = [BERT_NIL]"
| "encode (T_small_int v) = [BERT_SMALL_INTEGER, v]"
| "encode (T_int v) = BERT_INTEGER # be_bytes 4 (unat v)"
| "encode (T_small_atom bs) = BERT_SMALL_ATOM # be_bytes 1 (length bs) @ bs"
| "encode (T_atom bs) = BERT_ATOM # be_bytes 2 (length bs) @ bs"
| "encode (T_binary bs) = BERT_BINARY # be_bytes 4 (length bs) @ bs"
| "encode (T_string bs) = BERT_STRING # be_bytes 2 (length bs) @ bs"
| "encode (T_small_tuple ts) = BERT_SMALL_TUPLE # be_bytes 1 (length ts) @ encode_all ts"
| "encode (T_large_tuple ts) = BERT_LARGE_TUPLE # be_bytes 4 (length ts) @ encode_all ts"
| "encode (T_list ts q) = BERT_LIST # be_bytes 4 (length ts) @ encode_all ts @ encode q"
| "encode_all [] = []"
| "encode_all (t # ts) = encode t @ encode_all ts"

text \<open>Lengths that fit their length fields.\<close>

fun fits :: "bterm \<Rightarrow> bool"
  and all_fit :: "bterm list \<Rightarrow> bool" where
  "fits T_nil = True"
| "fits (T_small_int v) = True"
| "fits (T_int v) = True"
| "fits (T_small_atom bs) = (length bs < 256)"
| "fits (T_atom bs) = (length bs < 256 ^ 2)"
| "fits (T_binary bs) = (length bs < 256 ^ 4)"
| "fits (T_string bs) = (length bs < 256 ^ 2)"
| "fits (T_small_tuple ts) = (length ts < 256 \<and> all_fit ts)"
| "fits (T_large_tuple ts) = (length ts < 256 ^ 4 \<and> all_fit ts)"
| "fits (T_list ts q) = (length ts < 256 ^ 4 \<and> all_fit ts \<and> fits q)"
| "all_fit [] = True"
| "all_fit (t # ts) = (fits t \<and> all_fit ts)"

text \<open>The depth of recursion a term needs.\<close>

fun depth :: "bterm \<Rightarrow> nat"
  and max_depth :: "bterm list \<Rightarrow> nat" where
  "depth (T_small_tuple ts) = Suc (max_depth ts)"
| "depth (T_large_tuple ts) = Suc (max_depth ts)"
| "depth (T_list ts q) = Suc (max (max_depth ts) (depth q))"
| "depth t = Suc 0"
| "max_depth [] = 0"
| "max_depth (t # ts) = max (depth t) (max_depth ts)"

section \<open>The abstract fold\<close>

record ('a, 'o) bert_fold =
  f_tuple :: "u32 \<Rightarrow> 'o option list \<Rightarrow> ('a, 'o option) cm"
  f_list :: "'o option \<Rightarrow> 'o option \<Rightarrow> ('a, 'o option) cm"
  f_binary :: "u8 list \<Rightarrow> ('a, 'o option) cm"
  f_atom :: "u8 list \<Rightarrow> ('a, 'o option) cm"
  f_string :: "u8 list \<Rightarrow> ('a, 'o option) cm"
  f_integer :: "u32 \<Rightarrow> ('a, 'o option) cm"
  f_nil :: "'o option"

fun fold_term :: "('a, 'o) bert_fold \<Rightarrow> bterm \<Rightarrow> ('a, 'o option) cm"
  and fold_terms :: "('a, 'o) bert_fold \<Rightarrow> bterm list \<Rightarrow> ('a, 'o option list) cm" where
  "fold_term F T_nil = ret (f_nil F)"
| "fold_term F (T_small_int v) = f_integer F (ucast v)"
| "fold_term F (T_int v) = f_integer F v"
| "fold_term F (T_small_atom bs) = f_atom F bs"
| "fold_term F (T_atom bs) = f_atom F bs"
| "fold_term F (T_binary bs) = f_binary F bs"
| "fold_term F (T_string bs) = f_string F bs"
| "fold_term F (T_small_tuple ts) =
     andthen (fold_terms F ts) (\<lambda>el. f_tuple F (word_of_nat (length ts)) el)"
| "fold_term F (T_large_tuple ts) =
     andthen (fold_terms F ts) (\<lambda>el. f_tuple F (word_of_nat (length ts)) el)"
| "fold_term F (T_list ts q) =
     andthen (andthen (fold_terms F ts) (\<lambda>el. f_tuple F (word_of_nat (length ts)) el)) (\<lambda>tup.
     andthen (fold_term F q) (\<lambda>tail. f_list F tup tail))"
| "fold_terms F [] = ret []"
| "fold_terms F (t # ts) =
     andthen (fold_term F t) (\<lambda>v. andthen (fold_terms F ts) (\<lambda>vs. ret (v # vs)))"

section \<open>Simulation of the fold by a stream client\<close>

text \<open>A concrete result follows an abstract one: the same value and abstract state, the stream
  left at q, or the same halt.\<close>

definition tracks ::
    "('s \<Rightarrow> 'a) \<Rightarrow> ('s \<Rightarrow> u8 list) \<Rightarrow> ('s \<Rightarrow> bool) \<Rightarrow> u8 list \<Rightarrow>
     ('s, 'v) res \<Rightarrow> ('a, 'v) res \<Rightarrow> bool" where
  "tracks view rest good q c a \<longleftrightarrow>
     (case c of
        Ok v s \<Rightarrow> a = Ok v (view s) \<and> rest s = q \<and> good s
      | Stop h s \<Rightarrow> a = Stop h (view s))"

lemma tracks_andthen:
  assumes "tracks view rest good q1 (m s) (am (view s))"
    and "\<And>v s'. m s = Ok v s' \<Longrightarrow> good s' \<Longrightarrow> rest s' = q1 \<Longrightarrow>
      tracks view rest good q (k v s') (ak v (view s'))"
  shows "tracks view rest good q (andthen m k s) (andthen am ak (view s))"
  using assms by (cases "m s") (auto simp: tracks_def andthen_def)

text \<open>The slice operation of \<open>r_slice\<close> after its length is known.\<close>

definition slice_op :: "('s, 'o) bert_reader \<Rightarrow> (u32 \<Rightarrow> ('s, 'o option) cm) \<Rightarrow> u32 \<Rightarrow>
    ('s, 'o option) cm" where
  "slice_op r f n = andthen (f n) (\<lambda>val. andthen (r_wind r n) (\<lambda>_. ret val))"

lemma r_slice_alt: "r_slice r f k = andthen (r_uint r k) (slice_op r f)"
  unfolding r_slice_def slice_op_def [abs_def] ..

definition leaf :: "bterm \<Rightarrow> bool" where
  "leaf t \<longleftrightarrow> (case t of T_small_tuple _ \<Rightarrow> False | T_large_tuple _ \<Rightarrow> False | T_list _ _ \<Rightarrow> False | _ \<Rightarrow> True)"

locale bert_stream =
  fixes r :: "('s, 'o) bert_reader"
    and F :: "('a, 'o) bert_fold"
    and view :: "'s \<Rightarrow> 'a"
    and rest :: "'s \<Rightarrow> u8 list"
    and good :: "'s \<Rightarrow> bool"
    and tuple_fn list_fn binary_fn atom_fn string_fn integer_fn
  assumes callbacks:
      "r_tuple_cb r = Some tuple_fn" "r_list_cb r = Some list_fn"
      "r_binary_cb r = Some binary_fn" "r_atom_cb r = Some atom_fn"
      "r_string_cb r = Some string_fn" "r_integer_cb r = Some integer_fn" "r_nil r = f_nil F"
    and pop_stream: "good s \<Longrightarrow> rest s = b # bs \<Longrightarrow>
      \<exists>s'. r_pop r s = Ok b s' \<and> rest s' = bs \<and> view s' = view s \<and> good s'"
    and binary_stream: "good s \<Longrightarrow> rest s = d @ q \<Longrightarrow> length d < 2 ^ 32 \<Longrightarrow>
      tracks view rest good q (slice_op r binary_fn (word_of_nat (length d)) s)
        (f_binary F d (view s))"
    and atom_stream: "good s \<Longrightarrow> rest s = d @ q \<Longrightarrow> length d < 2 ^ 16 \<Longrightarrow>
      tracks view rest good q (slice_op r atom_fn (word_of_nat (length d)) s) (f_atom F d (view s))"
    and string_stream: "good s \<Longrightarrow> rest s = d @ q \<Longrightarrow> length d < 2 ^ 16 \<Longrightarrow>
      tracks view rest good q (slice_op r string_fn (word_of_nat (length d)) s)
        (f_string F d (view s))"
    and tuple_stream: "good s \<Longrightarrow> tracks view rest good (rest s) (tuple_fn n el s)
        (f_tuple F n el (view s))"
    and list_stream: "good s \<Longrightarrow> tracks view rest good (rest s) (list_fn v w s)
        (f_list F v w (view s))"
    and integer_stream: "good s \<Longrightarrow> tracks view rest good (rest s) (integer_fn n s)
        (f_integer F n (view s))"
begin

lemma uint_loop_stream:
  assumes "good s" and "rest s = bs @ q" and "unat acc < 256 ^ k" and "length bs + k \<le> 4"
  shows "\<exists>s'. r_uint_loop r (length bs) acc s =
      Ok (word_of_nat (be_value_acc (unat acc) bs)) s' \<and> rest s' = q \<and> view s' = view s \<and> good s'"
  using assms
proof (induction bs arbitrary: s acc k)
  case (Cons b bs)
  then obtain s1 where s1: "r_pop r s = Ok b s1" "rest s1 = bs @ q" "view s1 = view s" "good s1"
    using pop_stream [of s b "bs @ q"] by auto
  have step: "unat acc * 256 + unat b < 256 ^ Suc k"
    using Cons.prems(3) unat_u8_less [of b] by (simp only: power_Suc)
  moreover have "(256 :: nat) ^ Suc k \<le> 256 ^ 4"
    using Cons.prems(4) by (intro power_increasing) auto
  ultimately have acc: "unat (push_bit 8 acc + ucast b :: u32) = unat acc * 256 + unat b"
    by (intro unat_shift_add) simp
  obtain s' where "r_uint_loop r (length bs) (push_bit 8 acc + ucast b) s1 =
      Ok (word_of_nat (be_value_acc (unat acc * 256 + unat b) bs)) s'" "rest s' = q"
      "view s' = view s" "good s'"
    using Cons.IH [OF s1(4,2), of "push_bit 8 acc + ucast b" "Suc k"] step Cons.prems(4) acc s1(3)
    by auto
  with s1 show ?case by simp
qed simp

lemma uint_stream:
  assumes "good s" and "rest s = be_bytes k n @ q" and "n < 256 ^ k" and "k \<le> 4"
  obtains s' where "r_uint r k s = Ok (word_of_nat n) s'" "rest s' = q" "view s' = view s" "good s'"
  using uint_loop_stream [of s "be_bytes k n" q 0 0] assms be_value_be_bytes [of k n]
  by (auto simp: r_uint_def be_value_def)

lemma slice_stream:
  assumes "good s" and "rest s = be_bytes k (length d) @ d @ q" and "length d < 256 ^ k"
    and "k \<le> 4"
    and op: "\<And>s. good s \<Longrightarrow> rest s = d @ q \<Longrightarrow>
      tracks view rest good q (slice_op r f (word_of_nat (length d)) s) (af (view s))"
  shows "tracks view rest good q (r_slice r f k s) (af (view s))"
proof -
  obtain s' where "r_uint r k s = Ok (word_of_nat (length d)) s'" "rest s' = d @ q"
    "view s' = view s" "good s'"
    using uint_stream [OF assms(1-4)] by blast
  with op [of s'] show ?thesis by (simp add: r_slice_alt)
qed

lemma collect_stream:
  assumes "\<And>t s q. t \<in> set ts \<Longrightarrow> good s \<Longrightarrow> rest s = encode t @ q \<Longrightarrow>
      tracks view rest good q (obj s) (fold_term F t (view s))"
    and "good s" and "rest s = encode_all ts @ q"
  shows "tracks view rest good q (collect (length ts) obj s) (fold_terms F ts (view s))"
  using assms
proof (induction ts arbitrary: s)
  case Nil
  then show ?case by (simp add: tracks_def)
next
  case (Cons t ts)
  show ?case
    unfolding fold_terms.simps collect.simps list.size add_Suc_right add_0_right
  proof (rule tracks_andthen)
    show "tracks view rest good (encode_all ts @ q) (obj s) (fold_term F t (view s))"
      using Cons.prems by auto
  next
    fix v s'
    assume "good s'" "rest s' = encode_all ts @ q"
    then have "tracks view rest good q (collect (length ts) obj s') (fold_terms F ts (view s'))"
      using Cons by auto
    then show "tracks view rest good q
        (andthen (collect (length ts) obj) (\<lambda>xs. ret (v # xs)) s')
        (andthen (fold_terms F ts) (\<lambda>vs. ret (v # vs)) (view s'))"
      by (rule tracks_andthen) (simp add: tracks_def)
  qed
qed

lemma tuple_op_stream:
  assumes "\<And>t s q. t \<in> set ts \<Longrightarrow> good s \<Longrightarrow> rest s = encode t @ q \<Longrightarrow>
      tracks view rest good q (obj s) (fold_term F t (view s))"
    and "good s" and "rest s = be_bytes k (length ts) @ encode_all ts @ q"
    and "length ts < 256 ^ k" and "k \<le> 4"
  shows "tracks view rest good q (r_tuple obj r k s)
      (andthen (fold_terms F ts) (\<lambda>el. f_tuple F (word_of_nat (length ts)) el) (view s))"
proof -
  obtain s1 where s1: "r_uint r k s = Ok (word_of_nat (length ts)) s1"
    "rest s1 = encode_all ts @ q" "view s1 = view s" "good s1"
    using uint_stream [OF assms(2-5)] by blast
  have "(256 :: nat) ^ k \<le> 256 ^ 4" using assms(5) by (intro power_increasing) auto
  then have n: "unat (word_of_nat (length ts) :: u32) = length ts"
    using assms(4) by (intro unat_u32_of_nat) simp
  have "tracks view rest good q
      (andthen (collect (length ts) obj) (\<lambda>el. tuple_fn (word_of_nat (length ts)) el) s1)
      (andthen (fold_terms F ts) (\<lambda>el. f_tuple F (word_of_nat (length ts)) el) (view s1))"
  proof (rule tracks_andthen)
    show "tracks view rest good q (collect (length ts) obj s1) (fold_terms F ts (view s1))"
      by (rule collect_stream) (use assms(1) s1 in auto)
  next
    fix v s'
    assume "good s'" "rest s' = q"
    then show "tracks view rest good q (tuple_fn (word_of_nat (length ts)) v s')
        (f_tuple F (word_of_nat (length ts)) v (view s'))"
      using tuple_stream [of s'] by simp
  qed
  with s1 n show ?thesis by (simp add: r_tuple_def callbacks)
qed

lemma max_depth_ge: "t \<in> set ts \<Longrightarrow> depth t \<le> max_depth ts"
  by (induction ts) auto

lemma all_fitD: "t \<in> set ts \<Longrightarrow> all_fit ts \<Longrightarrow> fits t"
  by (induction ts) auto

text \<open>The cases of the switch: terms without elements, and lists.\<close>

lemma dispatch_leaf:
  assumes "leaf t" and e: "encode t = b # bs" and "good s1" "rest s1 = bs @ q" and fit: "fits t"
  shows "tracks view rest good q (r_dispatch obj r b s1) (fold_term F t (view s1))"
proof -
  note s1 = assms(3,4)
  show ?thesis
  proof (cases t)
    case T_nil
    with e s1 show ?thesis by (simp add: r_dispatch_def bert_tags callbacks tracks_def)
  next
    case (T_small_int v)
    with e s1 have "rest s1 = be_bytes 1 (unat v) @ q" by simp
    then obtain s2 where "r_uint r 1 s1 = Ok (word_of_nat (unat v)) s2" "rest s2 = q"
      "view s2 = view s1" "good s2"
      using uint_stream [of s1 1 "unat v" q] s1 by auto
    with T_small_int e s1 integer_stream [of s2 "ucast v"] show ?thesis
      by (auto simp: r_dispatch_def bert_tags callbacks)
  next
    case (T_int v)
    with e s1 obtain s2 where "r_uint r 4 s1 = Ok v s2" "rest s2 = q" "view s2 = view s1" "good s2"
      using uint_stream [of s1 4 "unat v" q] unat_u32_less [of v] by auto
    with T_int e s1 integer_stream [of s2 v] show ?thesis
      by (auto simp: r_dispatch_def bert_tags callbacks r_sint_def)
  next
    case (T_small_atom d)
    with e s1 fit have "tracks view rest good q (r_slice r atom_fn 1 s1) (f_atom F d (view s1))"
      by (intro slice_stream) (auto intro: atom_stream)
    with T_small_atom e show ?thesis by (auto simp: r_dispatch_def bert_tags callbacks)
  next
    case (T_atom d)
    with e s1 fit have "tracks view rest good q (r_slice r atom_fn 2 s1) (f_atom F d (view s1))"
      by (intro slice_stream) (auto intro: atom_stream)
    with T_atom e show ?thesis by (auto simp: r_dispatch_def bert_tags callbacks)
  next
    case (T_binary d)
    with e s1 fit have
      "tracks view rest good q (r_slice r binary_fn 4 s1) (f_binary F d (view s1))"
      by (intro slice_stream) (auto intro: binary_stream)
    with T_binary e show ?thesis by (auto simp: r_dispatch_def bert_tags callbacks)
  next
    case (T_string d)
    with e s1 fit have
      "tracks view rest good q (r_slice r string_fn 2 s1) (f_string F d (view s1))"
      by (intro slice_stream) (auto intro: string_stream)
    with T_string e show ?thesis by (auto simp: r_dispatch_def bert_tags callbacks)
  qed (use assms(1) in \<open>simp_all add: leaf_def\<close>)
qed

lemma list_op_stream:
  assumes "\<And>t s q. t \<in> set (u # ts) \<Longrightarrow> good s \<Longrightarrow> rest s = encode t @ q \<Longrightarrow>
      tracks view rest good q (obj s) (fold_term F t (view s))"
    and "good s" and "rest s = be_bytes 4 (length ts) @ encode_all ts @ encode u @ q"
    and "length ts < 256 ^ 4"
  shows "tracks view rest good q (r_list obj r s) (fold_term F (T_list ts u) (view s))"
proof -
  have "tracks view rest good (encode u @ q) (r_tuple obj r 4 s)
      (andthen (fold_terms F ts) (\<lambda>el. f_tuple F (word_of_nat (length ts)) el) (view s))"
    using assms by (intro tuple_op_stream) auto
  moreover have "tracks view rest good q (andthen obj (\<lambda>tail. list_fn v tail) s')
      (andthen (fold_term F u) (\<lambda>tail. f_list F v tail) (view s'))"
    if "good s'" "rest s' = encode u @ q" for v s'
    using that assms(1) [of u s' q] list_stream by (intro tracks_andthen) auto
  ultimately show ?thesis
    unfolding r_list_def fold_term.simps callbacks call_ptr_simps by (rule tracks_andthen)
qed

lemma object_stream:
  assumes "good s" and "rest s = encode t @ q" and "fits t" and "depth t \<le> n"
  shows "tracks view rest good q (r_object n r s) (fold_term F t (view s))"
  using assms
proof (induction n arbitrary: t s q)
  case 0
  then show ?case by (cases t) auto
next
  case (Suc n)
  obtain b bs where e: "encode t = b # bs" by (cases t) auto
  with Suc.prems obtain s1 where s1: "r_pop r s = Ok b s1" "rest s1 = bs @ q" "view s1 = view s"
    "good s1"
    using pop_stream [of s b "bs @ q"] by auto
  have elems: "tracks view rest good q' (r_object n r s') (fold_term F u (view s'))"
    if "u \<in> set ts" "good s'" "rest s' = encode u @ q'" "all_fit ts" "max_depth ts \<le> n"
    for u ts s' q'
    using that Suc.IH [of s' u q'] max_depth_ge [of u ts] all_fitD [of u ts] by auto
  have tuple: "tracks view rest good q (r_tuple (r_object n r) r k s1)
      (andthen (fold_terms F ts) (\<lambda>el. f_tuple F (word_of_nat (length ts)) el) (view s1))"
    if "rest s1 = be_bytes k (length ts) @ encode_all ts @ q" "length ts < 256 ^ k" "k \<le> 4"
      "all_fit ts" "max_depth ts \<le> n" for k ts
    using that s1(4) elems [of _ ts] by (intro tuple_op_stream) auto
  have "tracks view rest good q (r_dispatch (r_object n r) r b s1) (fold_term F t (view s1))"
  proof (cases "leaf t")
    case True
    then show ?thesis using e s1(4,2) Suc.prems(3) by (rule dispatch_leaf)
  next
    case False
    then consider (small) ts where "t = T_small_tuple ts" | (large) ts where "t = T_large_tuple ts"
      | (cons) ts u where "t = T_list ts u"
      by (cases t) (auto simp: leaf_def)
    then show ?thesis
    proof cases
      case small
      with e s1 Suc.prems tuple [of 1 ts] show ?thesis
        by (auto simp: r_dispatch_def bert_tags callbacks)
    next
      case large
      with e s1 Suc.prems tuple [of 4 ts] show ?thesis
        by (auto simp: r_dispatch_def bert_tags callbacks)
    next
      case cons
      with e s1 Suc.prems have "tracks view rest good q (r_list (r_object n r) r s1)
          (fold_term F (T_list ts u) (view s1))"
        using elems [of _ ts] Suc.IH by (intro list_op_stream) auto
      with cons e show ?thesis by (auto simp: r_dispatch_def bert_tags callbacks)
    qed
  qed
  with s1 show ?case by simp
qed

end

section \<open>Every input stops the parser\<close>

text \<open>A result within a budget: an invariant and a bounded measure, or a halt of a permitted
  kind.\<close>

definition calm ::
    "(halt \<Rightarrow> bool) \<Rightarrow> ('s \<Rightarrow> bool) \<Rightarrow> ('s \<Rightarrow> nat) \<Rightarrow> nat \<Rightarrow> ('s, 'v) res \<Rightarrow> bool" where
  "calm E good mu b c \<longleftrightarrow> (case c of Ok v s \<Rightarrow> good s \<and> mu s \<le> b | Stop h s \<Rightarrow> E h)"

lemma calm_simps [simp]:
  "calm E good mu b (Ok v s) \<longleftrightarrow> good s \<and> mu s \<le> b"
  "calm E good mu b (Stop h s) \<longleftrightarrow> E h"
  by (simp_all add: calm_def)

lemma calm_andthen:
  assumes "calm E good mu b (m s)"
    and "\<And>v s'. m s = Ok v s' \<Longrightarrow> good s' \<Longrightarrow> mu s' \<le> b \<Longrightarrow> calm E good mu b (k v s')"
  shows "calm E good mu b (andthen m k s)"
  using assms by (cases "m s") auto

lemma calm_if:
  "(c \<Longrightarrow> calm E good mu b (m s)) \<Longrightarrow> (\<not> c \<Longrightarrow> calm E good mu b (k s)) \<Longrightarrow>
   calm E good mu b ((if c then m else k) s)"
  by simp

lemma calm_mono: "calm E good mu a c \<Longrightarrow> a \<le> b \<Longrightarrow> calm E good mu b c"
  by (cases c) auto

lemma calm_collect:
  assumes "\<And>s. good s \<Longrightarrow> mu s \<le> b \<Longrightarrow> calm E good mu b (m s)" and "good s" and "mu s \<le> b"
  shows "calm E good mu b (collect n m s)"
  using assms(2,3)
  by (induction n arbitrary: s) (auto intro!: calm_andthen assms(1))

locale bert_bounded =
  fixes r :: "('s, 'o) bert_reader"
    and E :: "halt \<Rightarrow> bool"
    and good :: "'s \<Rightarrow> bool"
    and mu :: "'s \<Rightarrow> nat"
    and tuple_fn list_fn binary_fn atom_fn string_fn integer_fn
  assumes callbacks:
      "r_tuple_cb r = Some tuple_fn" "r_list_cb r = Some list_fn"
      "r_binary_cb r = Some binary_fn" "r_atom_cb r = Some atom_fn"
      "r_string_cb r = Some string_fn" "r_integer_cb r = Some integer_fn"
    and pop_calm: "good s \<Longrightarrow> calm E good mu (mu s - 1) (r_pop r s)"
    and pop_progress: "good s \<Longrightarrow> r_pop r s = Ok b s' \<Longrightarrow> 0 < mu s"
    and binary_calm: "good s \<Longrightarrow> calm E good mu (mu s) (slice_op r binary_fn n s)"
    and atom_calm: "good s \<Longrightarrow> unat n < 2 ^ 16 \<Longrightarrow> calm E good mu (mu s) (slice_op r atom_fn n s)"
    and string_calm:
      "good s \<Longrightarrow> unat n < 2 ^ 16 \<Longrightarrow> calm E good mu (mu s) (slice_op r string_fn n s)"
    and tuple_calm: "good s \<Longrightarrow> calm E good mu (mu s) (tuple_fn n el s)"
    and list_calm: "good s \<Longrightarrow> calm E good mu (mu s) (list_fn v w s)"
    and integer_calm: "good s \<Longrightarrow> calm E good mu (mu s) (integer_fn n s)"
    and error_calm: "E (fst (r_error r msg s))"
begin

lemma uint_loop_calm: "good s \<Longrightarrow> calm E good mu (mu s) (r_uint_loop r n acc s)"
proof (induction n arbitrary: acc s)
  case (Suc n)
  show ?case
    unfolding r_uint_loop.simps
  proof (rule calm_andthen)
    show "calm E good mu (mu s) (r_pop r s)"
      using pop_calm [OF Suc.prems] by (rule calm_mono) simp
  next
    fix b s'
    assume "good s'" "mu s' \<le> mu s"
    then show "calm E good mu (mu s) (r_uint_loop r n (push_bit 8 acc + ucast b) s')"
      using calm_mono Suc.IH by blast
  qed
qed simp

lemma uint_calm: "good s \<Longrightarrow> mu s \<le> b \<Longrightarrow> calm E good mu b (r_uint r k s)"
  unfolding r_uint_def by (rule calm_mono [OF uint_loop_calm])

lemma slice_calm:
  assumes op: "\<And>n s. good s \<Longrightarrow> unat n < 256 ^ k \<Longrightarrow> calm E good mu (mu s) (slice_op r f n s)"
    and "good s" and "mu s \<le> b" and "k \<le> 4"
  shows "calm E good mu b (r_slice r f k s)"
  unfolding r_slice_alt
proof (rule calm_andthen)
  show "calm E good mu b (r_uint r k s)" using assms by (intro uint_calm)
next
  fix n s'
  assume "r_uint r k s = Ok n s'" "good s'" "mu s' \<le> b"
  with assms(4) op [of s' n] r_uint_bound [of r k s n s']
  show "calm E good mu b (slice_op r f n s')" by (auto intro: calm_mono)
qed

lemma tuple_op_calm:
  assumes "\<And>s. good s \<Longrightarrow> mu s \<le> b \<Longrightarrow> calm E good mu b (obj s)" and "good s" and "mu s \<le> b"
  shows "calm E good mu b (r_tuple obj r k s)"
  unfolding r_tuple_def callbacks call_ptr_simps
  by (intro calm_andthen uint_calm calm_collect assms(2,3))
    (auto intro: assms(1) calm_mono [OF tuple_calm])

lemma dispatch_calm:
  assumes obj: "\<And>s. good s \<Longrightarrow> mu s \<le> b \<Longrightarrow> calm E good mu b (obj s)"
    and "good s" and "mu s \<le> b"
  shows "calm E good mu b (r_dispatch obj r t s)"
proof -
  have list: "calm E good mu b (r_list obj r s)"
    unfolding r_list_def callbacks call_ptr_simps
    by (intro calm_andthen tuple_op_calm assms) (auto intro: obj calm_mono [OF list_calm])
  have integer: "calm E good mu b (andthen (r_uint r k) (\<lambda>v. call_ptr (r_integer_cb r) (\<lambda>f. f v)) s)"
    for k
    unfolding callbacks call_ptr_simps
    by (intro calm_andthen uint_calm assms) (auto intro: calm_mono [OF integer_calm])
  have binary: "calm E good mu b (r_slice r binary_fn 4 s)"
    by (rule slice_calm [OF binary_calm assms(2,3)]) auto
  have atom: "calm E good mu b (r_slice r atom_fn 1 s)" "calm E good mu b (r_slice r atom_fn 2 s)"
    by (rule slice_calm [OF atom_calm assms(2,3)]; simp)+
  have string: "calm E good mu b (r_slice r string_fn 2 s)"
    by (rule slice_calm [OF string_calm assms(2,3)]) auto
  have tuple: "calm E good mu b (r_tuple obj r k s)" for k
    by (rule tuple_op_calm [OF obj assms(2,3)])
  have fail: "calm E good mu b (fail_with r msg s :: ('s, 'o option) res)" for msg
    using error_calm [of msg s] by (auto simp: fail_with_def split: prod.splits)
  have sint: "r_sint r 4 = r_uint r 4" by (simp add: r_sint_def)
  have nil: "calm E good mu b (ret (r_nil r) s)" using assms(2,3) by simp
  show ?thesis
    unfolding r_dispatch_def sint
    by (intro calm_if list integer tuple fail nil)
      (simp_all only: callbacks option.sel binary atom string)
qed

lemma object_calm:
  assumes "good s" and "mu s < n"
  shows "calm E good mu (mu s - 1) (r_object n r s)"
  using assms
proof (induction n arbitrary: s)
  case (Suc n)
  show ?case
  proof (cases "r_pop r s")
    case (Ok b s1)
    with pop_calm [OF Suc.prems(1)] pop_progress [OF Suc.prems(1)] have
      "good s1" "mu s1 \<le> mu s - 1" "0 < mu s" by auto
    moreover have "calm E good mu (mu s - 1) (r_object n r s')"
      if "good s'" "mu s' \<le> mu s - 1" for s'
    proof (rule calm_mono)
      show "calm E good mu (mu s' - 1) (r_object n r s')"
        using that Suc.prems(2) \<open>0 < mu s\<close> by (intro Suc.IH) auto
      show "mu s' - 1 \<le> mu s - 1" using that by simp
    qed
    ultimately have "calm E good mu (mu s - 1) (r_dispatch (r_object n r) r b s1)"
      by (intro dispatch_calm)
    with Ok show ?thesis by simp
  next
    case (Stop h s1)
    with pop_calm [OF Suc.prems(1)] show ?thesis by simp
  qed
qed simp

end

end
