(* ===== verification/Sqlite_Reader.thy ===== *)
theory Sqlite_Reader
  imports Bert_Fold
begin

text \<open>
  The message reader of c_src/sqlite3.c: \<open>struct reader\<close>, the callbacks it gives to
  \<open>bert_decode\<close>, and the flattening of a query term into a list of argument slices. A pointer
  into the message is an offset into it, and the message block has exactly the bytes that were
  received: reading at or behind its end is undefined behaviour. The bind functions of SQLite are
  only stored here, so a \<open>bind_t\<close> is an enumeration, with None for the NULL pointer.
\<close>

datatype bind_t = Bind_text | Bind_blob

record slice =
  sl_bind :: "bind_t option"
  sl_off :: nat
  sl_len :: u32

definition MAX_NB_SLICES :: nat where "MAX_NB_SLICES = 10"

record sq_reader =
  q_buf :: "u8 list"
  q_offset :: u32
  q_length :: u32
  q_nb_slices :: u32
  q_bind :: "bind_t option"
  q_arg :: "slice list"

definition sq_wind :: "u32 \<Rightarrow> (sq_reader, unit) cm" where
  "sq_wind nb_bytes r =
     (let new_offset = q_offset r + nb_bytes in
      if new_offset > q_length r then Stop (Error ''message truncated'') r
      else Ok () (r\<lparr>q_offset := new_offset\<rparr>))"

definition sq_pop :: "(sq_reader, u8) cm" where
  "sq_pop r =
     (if unat (q_offset r) < length (q_buf r) then
        andthen (sq_wind 1) (\<lambda>_. ret (q_buf r ! unat (q_offset r))) r
      else Stop (Undef Out_Of_Bounds) r)"

text \<open>strncmp of a literal (followed by its NUL) with the memory behind a pointer, for at most n
  bytes: whether they compare equal, None when the memory ends first.\<close>

fun strncmp_eq :: "u8 list \<Rightarrow> u8 list \<Rightarrow> nat \<Rightarrow> bool option" where
  "strncmp_eq cs mem 0 = Some True"
| "strncmp_eq cs [] (Suc n) = None"
| "strncmp_eq [] (m # mem) (Suc n) = Some (m = 0)"
| "strncmp_eq (c # cs) (m # mem) (Suc n) = (if c = m then strncmp_eq cs mem n else Some False)"

definition blobtype :: "u32 \<Rightarrow> u8 list \<Rightarrow> (sq_reader, bool) cm" where
  "blobtype nb_bytes cstring r =
     (if length cstring = unat nb_bytes then
        (case strncmp_eq cstring (drop (unat (q_offset r)) (q_buf r)) (unat nb_bytes) of
           None \<Rightarrow> Stop (Undef Out_Of_Bounds) r
         | Some eq \<Rightarrow> Ok eq r)
      else Ok False r)"

definition sq_atom :: "u32 \<Rightarrow> (sq_reader, unit option) cm" where
  "sq_atom nb_bytes =
     andthen (blobtype nb_bytes (bytes_of ''blob'')) (\<lambda>blob.
     if blob then andthen (modify (\<lambda>r. r\<lparr>q_bind := Some Bind_blob\<rparr>)) (\<lambda>_. ret None)
     else
       andthen (blobtype nb_bytes (bytes_of ''text'')) (\<lambda>text.
       if text then andthen (modify (\<lambda>r. r\<lparr>q_bind := Some Bind_text\<rparr>)) (\<lambda>_. ret None)
       else stop (Error ''unknown bind type'')))"

definition sq_binary :: "u32 \<Rightarrow> (sq_reader, unit option) cm" where
  "sq_binary nb_bytes r =
     (if unat (q_nb_slices r) \<ge> MAX_NB_SLICES then Stop (Error ''MAX_NB_SLICES'') r
      else Ok None (r\<lparr>
        q_arg := (q_arg r)[unat (q_nb_slices r) :=
          \<lparr>sl_bind = q_bind r, sl_off = unat (q_offset r), sl_len = nb_bytes\<rparr>],
        q_nb_slices := q_nb_slices r + 1,
        q_bind := Some Bind_text\<rparr>))"

definition parse_error :: "string \<Rightarrow> sq_reader \<Rightarrow> halt \<times> sq_reader" where
  "parse_error msg r = (Error msg, r)"

definition sq_callbacks :: "(sq_reader, unit) bert_reader" where
  "sq_callbacks = \<lparr>r_pop = sq_pop, r_wind = sq_wind, r_tuple_cb = None, r_list_cb = None,
     r_binary_cb = Some sq_binary, r_atom_cb = Some sq_atom, r_string_cb = None,
     r_integer_cb = None, r_nil = None, r_error = parse_error\<rparr>"

definition null_slice :: slice where
  "null_slice = \<lparr>sl_bind = None, sl_off = 0, sl_len = 0\<rparr>"

text \<open>The initial reader of \<open>query\<close>, and its run over a message.\<close>

definition sq_reader_init :: "u8 list \<Rightarrow> u32 \<Rightarrow> sq_reader" where
  "sq_reader_init buf len = \<lparr>q_buf = buf, q_offset = 0, q_length = len, q_nb_slices = 0,
     q_bind = Some Bind_text, q_arg = replicate MAX_NB_SLICES null_slice\<rparr>"

definition sq_decode :: "nat \<Rightarrow> u8 list \<Rightarrow> (sq_reader, unit option) res" where
  "sq_decode fuel buf =
     bert_decode fuel sq_callbacks (sq_reader_init buf (word_of_nat (length buf)))"

section \<open>The abstract reader: the flattened term\<close>

text \<open>What the comment at the head of sqlite3.c promises: the binaries of the term in order, each
  with the bind type the last atom set since the binary before, text by default.\<close>

record flat =
  fl_slices :: "(bind_t option \<times> u8 list) list"
  fl_bind :: "bind_t option"

definition flat_binary :: "u8 list \<Rightarrow> (flat, unit option) cm" where
  "flat_binary d a =
     (if length (fl_slices a) \<ge> MAX_NB_SLICES then Stop (Error ''MAX_NB_SLICES'') a
      else Ok None \<lparr>fl_slices = fl_slices a @ [(fl_bind a, d)], fl_bind = Some Bind_text\<rparr>)"

definition flat_atom :: "u8 list \<Rightarrow> (flat, unit option) cm" where
  "flat_atom d a =
     (if d = bytes_of ''blob'' then Ok None (a\<lparr>fl_bind := Some Bind_blob\<rparr>)
      else if d = bytes_of ''text'' then Ok None (a\<lparr>fl_bind := Some Bind_text\<rparr>)
      else Stop (Error ''unknown bind type'') a)"

definition flatten :: "(flat, unit) bert_fold" where
  "flatten = \<lparr>f_tuple = \<lambda>_ _. ret None, f_list = \<lambda>_ _. ret None, f_binary = flat_binary,
     f_atom = flat_atom, f_string = \<lambda>_. ret None, f_integer = \<lambda>_. ret None, f_nil = None\<rparr>"

definition flat_empty :: flat where
  "flat_empty = \<lparr>fl_slices = [], fl_bind = Some Bind_text\<rparr>"

definition slice_data :: "u8 list \<Rightarrow> slice \<Rightarrow> u8 list" where
  "slice_data buf sl = take (unat (sl_len sl)) (drop (sl_off sl) buf)"

definition flat_view :: "sq_reader \<Rightarrow> flat" where
  "flat_view r = \<lparr>fl_slices = map (\<lambda>sl. (sl_bind sl, slice_data (q_buf r) sl))
       (take (unat (q_nb_slices r)) (q_arg r)), fl_bind = q_bind r\<rparr>"

definition sq_rest :: "sq_reader \<Rightarrow> u8 list" where
  "sq_rest r = drop (unat (q_offset r)) (q_buf r)"

text \<open>The reader's invariant, and the slices stored so far lie inside the message.\<close>

definition sq_inv :: "sq_reader \<Rightarrow> bool" where
  "sq_inv r \<longleftrightarrow> unat (q_length r) = length (q_buf r) \<and> unat (q_offset r) \<le> length (q_buf r) \<and>
     length (q_arg r) = MAX_NB_SLICES \<and> unat (q_nb_slices r) \<le> MAX_NB_SLICES"

definition slices_inside :: "sq_reader \<Rightarrow> bool" where
  "slices_inside r \<longleftrightarrow> (\<forall>sl \<in> set (take (unat (q_nb_slices r)) (q_arg r)).
     sl_off sl + unat (sl_len sl) \<le> length (q_buf r))"

definition sq_good :: "u8 list \<Rightarrow> sq_reader \<Rightarrow> bool" where
  "sq_good msg r \<longleftrightarrow> sq_inv r \<and> slices_inside r \<and> q_buf r = msg"

section \<open>The callbacks keep the invariant\<close>

lemma sq_wind_inside:
  assumes "sq_inv r" and "unat (q_offset r) + unat n \<le> length (q_buf r)"
  shows "sq_wind n r = Ok () (r\<lparr>q_offset := q_offset r + n\<rparr>)"
    and "unat (q_offset r + n) = unat (q_offset r) + unat n"
proof -
  have "unat (q_offset r) + unat n < 2 ^ 32"
    using assms unat_u32_less [of "q_length r"] by (simp add: sq_inv_def)
  then show n: "unat (q_offset r + n) = unat (q_offset r) + unat n"
    by (simp add: unat_word_ariths)
  with assms show "sq_wind n r = Ok () (r\<lparr>q_offset := q_offset r + n\<rparr>)"
    by (simp add: sq_wind_def Let_def sq_inv_def word_less_nat_alt)
qed

lemma sq_wind_Ok_inv: "sq_inv r \<Longrightarrow> sq_wind n r = Ok () r' \<Longrightarrow> sq_inv r'"
  by (auto simp: sq_wind_def sq_inv_def Let_def word_less_nat_alt split: if_splits)

lemma sq_pop_inside:
  assumes "sq_inv r" and "sq_rest r = b # bs"
  shows "sq_pop r = Ok b (r\<lparr>q_offset := q_offset r + 1\<rparr>)"
    and "unat (q_offset r + 1) = Suc (unat (q_offset r))"
proof -
  from assms have lt: "unat (q_offset r) < length (q_buf r)"
    by (metis drop_all leI list.distinct(1) sq_rest_def)
  with assms have "q_buf r ! unat (q_offset r) = b"
    by (metis hd_drop_conv_nth list.sel(1) sq_rest_def)
  moreover have "unat (q_offset r) + unat (1 :: u32) \<le> length (q_buf r)" using lt by simp
  note sq_wind_inside [OF assms(1) this]
  ultimately show "sq_pop r = Ok b (r\<lparr>q_offset := q_offset r + 1\<rparr>)"
    "unat (q_offset r + 1) = Suc (unat (q_offset r))"
    using lt by (simp_all add: sq_pop_def)
qed

lemma strncmp_eq_inside:
  "length cs = n \<Longrightarrow> n \<le> length mem \<Longrightarrow> strncmp_eq cs mem n = Some (take n mem = cs)"
  by (induction cs mem n rule: strncmp_eq.induct) auto

lemma blobtype_inside:
  assumes "sq_rest r = d @ q" and "unat n = length d"
  shows "blobtype n cs r = Ok (d = cs) r"
  using assms strncmp_eq_inside [of cs "length d" "d @ q"]
  by (auto simp: blobtype_def sq_rest_def)

lemma sq_atom_inside:
  assumes "sq_rest r = d @ q" and "unat n = length d"
  shows "sq_atom n r =
     (if d = bytes_of ''blob'' then Ok None (r\<lparr>q_bind := Some Bind_blob\<rparr>)
      else if d = bytes_of ''text'' then Ok None (r\<lparr>q_bind := Some Bind_text\<rparr>)
      else Stop (Error ''unknown bind type'') r)"
  using blobtype_inside [OF assms] by (simp add: sq_atom_def io_simps)

lemma sq_binary_Ok:
  assumes "sq_inv r" and "sq_binary n r = Ok v r'"
  shows "sq_inv r' \<and> v = None \<and> unat (q_nb_slices r) < MAX_NB_SLICES \<and>
     unat (q_nb_slices r') = Suc (unat (q_nb_slices r)) \<and> q_buf r' = q_buf r \<and>
     q_offset r' = q_offset r \<and> q_length r' = q_length r \<and> q_bind r' = Some Bind_text \<and>
     take (unat (q_nb_slices r')) (q_arg r') = take (unat (q_nb_slices r)) (q_arg r) @
       [\<lparr>sl_bind = q_bind r, sl_off = unat (q_offset r), sl_len = n\<rparr>]"
proof -
  from assms have lt: "unat (q_nb_slices r) < MAX_NB_SLICES"
    by (auto simp: sq_binary_def split: if_splits)
  then have "unat (q_nb_slices r + 1) = Suc (unat (q_nb_slices r))"
    by (simp add: unat_word_ariths MAX_NB_SLICES_def)
  with assms lt show ?thesis
    by (auto simp: sq_binary_def sq_inv_def take_Suc_conv_app_nth)
qed

section \<open>The reader is a byte stream\<close>

abbreviation (input) sq_full :: "(sq_reader, unit) bert_reader" where
  "sq_full \<equiv> default_callbacks sq_callbacks"

lemma sq_full_simps [simp]:
  "r_pop sq_full = sq_pop" "r_wind sq_full = sq_wind"
  "r_tuple_cb sq_full = Some (\<lambda>_ _. ret None)" "r_list_cb sq_full = Some (\<lambda>_ _. ret None)"
  "r_binary_cb sq_full = Some sq_binary" "r_atom_cb sq_full = Some sq_atom"
  "r_string_cb sq_full = Some (\<lambda>_. ret None)" "r_integer_cb sq_full = Some (\<lambda>_. ret None)"
  "r_nil sq_full = None" "r_error sq_full = parse_error"
  by (simp_all add: default_callbacks_def sq_callbacks_def or_null_def)

lemma sq_room:
  assumes "sq_inv r" and "sq_rest r = d @ q"
  shows "unat (q_offset r) + length d \<le> length (q_buf r)"
proof -
  have "length (q_buf r) - unat (q_offset r) = length d + length q"
    using arg_cong [OF assms(2), of length] by (simp add: sq_rest_def)
  moreover have "unat (q_offset r) \<le> length (q_buf r)" using assms(1) by (simp add: sq_inv_def)
  ultimately show ?thesis by linarith
qed

lemma wind_tracks:
  assumes "sq_good B r" and "sq_rest r = d @ q" and "length d < 2 ^ 32"
  shows "tracks flat_view sq_rest (sq_good B) q
     (andthen (sq_wind (word_of_nat (length d))) (\<lambda>_. ret v) r) (Ok v (flat_view r))"
proof -
  have n: "unat (word_of_nat (length d) :: u32) = length d" by (rule unat_u32_of_nat) fact
  have inv: "sq_inv r" "slices_inside r" "q_buf r = B" using assms(1) by (simp_all add: sq_good_def)
  have "unat (q_offset r) + length d \<le> length (q_buf r)"
    by (rule sq_room [OF inv(1) assms(2)])
  with sq_wind_inside [OF inv(1)] n have
    w: "sq_wind (word_of_nat (length d)) r = Ok () (r\<lparr>q_offset := q_offset r + word_of_nat (length d)\<rparr>)"
    and o: "unat (q_offset r + word_of_nat (length d)) = unat (q_offset r) + length d"
    by auto
  have "sq_good B (r\<lparr>q_offset := q_offset r + word_of_nat (length d)\<rparr>)"
    using sq_wind_Ok_inv [OF inv(1) w] inv(2,3) by (simp add: sq_good_def slices_inside_def)
  moreover have "drop (unat (q_offset r) + length d) (q_buf r) = q"
    using assms(2) by (metis add.commute append_eq_conv_conj drop_drop sq_rest_def)
  ultimately show ?thesis
    by (simp add: tracks_def w o sq_rest_def flat_view_def)
qed

lemma binary_tracks:
  assumes "sq_good B r" and "sq_rest r = d @ q" and "length d < 2 ^ 32"
  shows "tracks flat_view sq_rest (sq_good B) q (slice_op sq_full sq_binary (word_of_nat (length d)) r)
     (flat_binary d (flat_view r))"
proof (cases "sq_binary (word_of_nat (length d)) r")
  case (Ok v r')
  have n: "unat (word_of_nat (length d) :: u32) = length d" by (rule unat_u32_of_nat) fact
  have inv: "sq_inv r" "slices_inside r" "q_buf r = B" using assms(1) by (simp_all add: sq_good_def)
  note b = sq_binary_Ok [OF inv(1) Ok]
  have "unat (q_offset r) + length d \<le> length (q_buf r)"
    by (rule sq_room [OF inv(1) assms(2)])
  with b inv n have good: "sq_good B r'"
    by (auto simp: sq_good_def slices_inside_def)
  from assms(2) have "slice_data (q_buf r) \<lparr>sl_bind = q_bind r, sl_off = unat (q_offset r),
      sl_len = word_of_nat (length d)\<rparr> = d"
    by (simp add: slice_data_def n sq_rest_def)
  with b inv(1) have "flat_binary d (flat_view r) = Ok v (flat_view r')"
    by (auto simp: flat_binary_def flat_view_def sq_inv_def)
  moreover from b assms(2) have "sq_rest r' = d @ q" by (simp add: sq_rest_def)
  then have "tracks flat_view sq_rest (sq_good B) q
      (andthen (sq_wind (word_of_nat (length d))) (\<lambda>_. ret v) r') (Ok v (flat_view r'))"
    using good assms(3) by (intro wind_tracks) auto
  ultimately show ?thesis by (simp add: slice_op_def Ok)
next
  case (Stop h r')
  then have "h = Error ''MAX_NB_SLICES''" "r' = r" "unat (q_nb_slices r) \<ge> MAX_NB_SLICES"
    by (auto simp: sq_binary_def split: if_splits)
  with Stop assms(1) show ?thesis
    by (simp add: slice_op_def tracks_def flat_binary_def flat_view_def sq_inv_def sq_good_def)
qed

lemma atom_tracks:
  assumes "sq_good B r" and "sq_rest r = d @ q" and "length d < 2 ^ 16"
  shows "tracks flat_view sq_rest (sq_good B) q (slice_op sq_full sq_atom (word_of_nat (length d)) r)
     (flat_atom d (flat_view r))"
proof -
  have n: "unat (word_of_nat (length d) :: u32) = length d"
    using assms(3) by (intro unat_u32_of_nat) simp
  have wind: "tracks flat_view sq_rest (sq_good B) q
      (andthen (sq_wind (word_of_nat (length d))) (\<lambda>_. ret v) (r\<lparr>q_bind := b\<rparr>))
      (Ok v (flat_view (r\<lparr>q_bind := b\<rparr>)))" for v :: "unit option" and b
    using assms
    by (intro wind_tracks) (auto simp: sq_good_def sq_inv_def slices_inside_def sq_rest_def)
  have view: "flat_view (r\<lparr>q_bind := b\<rparr>) = (flat_view r)\<lparr>fl_bind := b\<rparr>" for b
    by (simp add: flat_view_def)
  have atom: "sq_atom (word_of_nat (length d)) r =
      (if d = bytes_of ''blob'' then Ok None (r\<lparr>q_bind := Some Bind_blob\<rparr>)
       else if d = bytes_of ''text'' then Ok None (r\<lparr>q_bind := Some Bind_text\<rparr>)
       else Stop (Error ''unknown bind type'') r)"
    by (rule sq_atom_inside [OF assms(2) n])
  consider (is_blob) "d = bytes_of ''blob''" | (is_text) "d \<noteq> bytes_of ''blob''" "d = bytes_of ''text''"
    | (neither) "d \<noteq> bytes_of ''blob''" "d \<noteq> bytes_of ''text''" by blast
  then show ?thesis
  proof cases
    case is_blob
    have a: "sq_atom (word_of_nat (length d)) r = Ok None (r\<lparr>q_bind := Some Bind_blob\<rparr>)"
      "flat_atom d (flat_view r) = Ok None (flat_view (r\<lparr>q_bind := Some Bind_blob\<rparr>))"
      unfolding atom flat_atom_def if_P [OF is_blob] view by (rule refl)+
    show ?thesis
      using wind [where b = "Some Bind_blob" and v = None] by (simp add: slice_op_def a)
  next
    case is_text
    have a: "sq_atom (word_of_nat (length d)) r = Ok None (r\<lparr>q_bind := Some Bind_text\<rparr>)"
      "flat_atom d (flat_view r) = Ok None (flat_view (r\<lparr>q_bind := Some Bind_text\<rparr>))"
      unfolding atom flat_atom_def if_not_P [OF is_text(1)] if_P [OF is_text(2)] view
      by (rule refl)+
    show ?thesis
      using wind [where b = "Some Bind_text" and v = None] by (simp add: slice_op_def a)
  next
    case neither
    have a: "sq_atom (word_of_nat (length d)) r = Stop (Error ''unknown bind type'') r"
      "flat_atom d (flat_view r) = Stop (Error ''unknown bind type'') (flat_view r)"
      unfolding atom flat_atom_def if_not_P [OF neither(1)] if_not_P [OF neither(2)]
      by (rule refl)+
    show ?thesis by (simp add: slice_op_def a tracks_def)
  qed
qed

lemma flatten_simps [simp]:
  "f_tuple flatten = (\<lambda>_ _. ret None)" "f_list flatten = (\<lambda>_ _. ret None)"
  "f_binary flatten = flat_binary" "f_atom flatten = flat_atom"
  "f_string flatten = (\<lambda>_. ret None)" "f_integer flatten = (\<lambda>_. ret None)"
  "f_nil flatten = None"
  by (simp_all add: flatten_def)

lemma ret_tracks: "sq_good B r \<Longrightarrow> tracks flat_view sq_rest (sq_good B) (sq_rest r) (Ok v r) (Ok v (flat_view r))"
  by (simp add: tracks_def)

interpretation sq_stream: bert_stream sq_full flatten flat_view sq_rest "sq_good B"
  "\<lambda>_ _. ret None" "\<lambda>_ _. ret None" sq_binary sq_atom "\<lambda>_. ret None" "\<lambda>_. ret None"
  for B
proof unfold_locales
  fix r b bs
  assume "sq_good B r" and rest: "sq_rest r = b # bs"
  then have inv: "sq_inv r" "slices_inside r" "q_buf r = B" by (simp_all add: sq_good_def)
  note r = inv(1) rest
  have "sq_inv (r\<lparr>q_offset := q_offset r + 1\<rparr>)"
    using r sq_pop_inside [OF r] by (auto simp: sq_inv_def sq_rest_def Suc_le_eq intro: leI)
      (metis drop_all leI list.distinct(1))
  moreover have "drop (Suc (unat (q_offset r))) (q_buf r) = bs"
    using r(2) by (metis drop_Suc list.sel(3) sq_rest_def tl_drop)
  ultimately show "\<exists>s'. r_pop sq_full r = Ok b s' \<and> sq_rest s' = bs \<and>
      flat_view s' = flat_view r \<and> sq_good B s'"
    using sq_pop_inside [OF r] inv(2,3)
    by (simp add: sq_rest_def flat_view_def sq_good_def slices_inside_def)
next
  fix r d q
  assume "sq_good B r" "sq_rest r = d @ q" "length d < 2 ^ 16"
  then show "tracks flat_view sq_rest (sq_good B) q
      (slice_op sq_full (\<lambda>_. ret None) (word_of_nat (length d)) r) (f_string flatten d (flat_view r))"
    using wind_tracks [of B r d q None] by (simp add: slice_op_def)
qed (simp_all add: binary_tracks atom_tracks ret_tracks)

section \<open>Every message is decoded in bounded time\<close>

text \<open>Winding can move the offset back where its addition wraps, but only behind a binary, and a
  binary uses up a slot of the argument list.\<close>

definition sq_small :: "sq_reader \<Rightarrow> bool" where
  "sq_small r \<longleftrightarrow> sq_inv r \<and> length (q_buf r) \<le> 2 ^ 32 - 2 ^ 16"

definition sq_mu :: "sq_reader \<Rightarrow> nat" where
  "sq_mu r = (MAX_NB_SLICES - unat (q_nb_slices r)) * Suc (length (q_buf r)) +
     (length (q_buf r) - unat (q_offset r))"

definition sq_halt :: "halt \<Rightarrow> bool" where
  "sq_halt h \<longleftrightarrow> h = Undef Out_Of_Bounds \<or> (\<exists>msg. h = Error msg)"

lemma sq_wind_cases:
  assumes "sq_wind n r = Ok () r'"
  shows "r' = r\<lparr>q_offset := q_offset r + n\<rparr> \<and> unat (q_offset r + n) \<le> unat (q_length r)"
  using assms by (auto simp: sq_wind_def Let_def word_less_nat_alt split: if_splits)

lemma sq_wind_calm:
  assumes "sq_small r" and "unat n < 2 ^ 16"
  shows "calm sq_halt sq_small sq_mu (sq_mu r) (andthen (sq_wind n) (\<lambda>_. ret v) r)"
proof (cases "sq_wind n r")
  case (Ok u r')
  have u: "u = ()" by simp
  note w = sq_wind_cases [OF Ok [unfolded u]]
  from assms have "unat (q_offset r) + unat n < 2 ^ 32" by (auto simp: sq_small_def sq_inv_def)
  then have "unat (q_offset r + n) = unat (q_offset r) + unat n" by (simp add: unat_word_ariths)
  with w assms Ok show ?thesis
    by (auto simp: sq_small_def sq_inv_def sq_mu_def)
next
  case (Stop h r')
  then show ?thesis
    by (auto simp: sq_wind_def Let_def sq_halt_def split: if_splits)
qed

lemma sq_binary_calm:
  assumes "sq_small r"
  shows "calm sq_halt sq_small sq_mu (sq_mu r) (slice_op sq_full sq_binary n r)"
proof (cases "sq_binary n r")
  case (Ok v r1)
  note b = sq_binary_Ok [OF _ Ok]
  show ?thesis
  proof (cases "sq_wind n r1")
    case w: (Ok u r2)
    have u: "u = ()" by simp
    note w' = sq_wind_cases [OF w [unfolded u]]
    have inv: "sq_inv r" using assms by (simp add: sq_small_def)
    obtain k where k: "MAX_NB_SLICES - unat (q_nb_slices r) = Suc k"
      using b [OF inv] by (metis Suc_diff_Suc)
    then have "MAX_NB_SLICES - unat (q_nb_slices r1) = k" using b [OF inv] by simp
    with k b [OF inv] w' have "sq_mu r2 \<le> sq_mu r" by (simp add: sq_mu_def)
    moreover have "sq_small r2"
      using b [OF inv] w' assms by (simp add: sq_small_def sq_inv_def)
    ultimately show ?thesis by (simp add: slice_op_def Ok w)
  next
    case (Stop h r2)
    then have "sq_halt h" by (auto simp: sq_wind_def Let_def sq_halt_def split: if_splits)
    then show ?thesis by (simp add: slice_op_def Ok Stop)
  qed
next
  case (Stop h r1)
  then have "sq_halt h" by (auto simp: sq_binary_def sq_halt_def split: if_splits)
  then show ?thesis by (simp add: slice_op_def Stop)
qed

lemma blobtype_cases:
  obtains b where "blobtype n cs r = Ok b r" | "blobtype n cs r = Stop (Undef Out_Of_Bounds) r"
  by (cases "length cs = unat n";
      cases "strncmp_eq cs (drop (unat (q_offset r)) (q_buf r)) (unat n)")
    (auto simp: blobtype_def)

lemma sq_atom_cases:
  obtains b where "sq_atom n r = Ok None (r\<lparr>q_bind := b\<rparr>)"
  | h where "sq_atom n r = Stop h r" "sq_halt h"
proof -
  note u = sq_atom_def andthen_apply
  from blobtype_cases [of n "bytes_of ''blob''" r] show thesis
  proof cases
    case blob: (1 b)
    show thesis
    proof (cases b)
      case True
      with blob that(1) [of "Some Bind_blob"] show thesis by (simp add: u)
    next
      case False
      from blobtype_cases [of n "bytes_of ''text''" r] show thesis
      proof cases
        case second: (1 c)
        with blob False that(1) [of "Some Bind_text"] that(2) [of "Error ''unknown bind type''"]
        show thesis by (cases c) (simp_all add: u sq_halt_def)
      next
        case 2
        with blob False that(2) [of "Undef Out_Of_Bounds"] show thesis by (simp add: u sq_halt_def)
      qed
    qed
  next
    case 2
    with that(2) [of "Undef Out_Of_Bounds"] show thesis by (simp add: u sq_halt_def)
  qed
qed

lemma sq_atom_calm:
  assumes "sq_small r" and "unat n < 2 ^ 16"
  shows "calm sq_halt sq_small sq_mu (sq_mu r) (slice_op sq_full sq_atom n r)"
proof (cases rule: sq_atom_cases [of n r])
  case (1 b)
  have "sq_small (r\<lparr>q_bind := b\<rparr>)" "sq_mu (r\<lparr>q_bind := b\<rparr>) = sq_mu r"
    using assms(1) by (simp_all add: sq_small_def sq_inv_def sq_mu_def)
  with sq_wind_calm [of "r\<lparr>q_bind := b\<rparr>" n None] assms(2) show ?thesis
    by (simp add: slice_op_def 1)
next
  case (2 h)
  then show ?thesis by (simp add: slice_op_def)
qed

lemma sq_pop_calm:
  assumes "sq_small r"
  shows "calm sq_halt sq_small sq_mu (sq_mu r - 1) (sq_pop r)"
    and "sq_pop r = Ok b r' \<Longrightarrow> 0 < sq_mu r"
proof -
  have inv: "sq_inv r" using assms by (simp add: sq_small_def)
  show "calm sq_halt sq_small sq_mu (sq_mu r - 1) (sq_pop r)"
  proof (cases "unat (q_offset r) < length (q_buf r)")
    case True
    then have "unat (q_offset r) + unat (1 :: u32) \<le> length (q_buf r)" by simp
    from sq_wind_inside [OF inv this] sq_wind_Ok_inv [OF inv sq_wind_inside(1) [OF inv this]] True
    show ?thesis
      using assms by (auto simp: sq_pop_def sq_small_def sq_mu_def)
  next
    case False
    then show ?thesis by (simp add: sq_pop_def sq_halt_def)
  qed
  show "sq_pop r = Ok b r' \<Longrightarrow> 0 < sq_mu r"
    by (auto simp: sq_pop_def sq_mu_def split: if_splits)
qed

interpretation sq_bounded: bert_bounded sq_full sq_halt sq_small sq_mu
  "\<lambda>_ _. ret None" "\<lambda>_ _. ret None" sq_binary sq_atom "\<lambda>_. ret None" "\<lambda>_. ret None"
proof unfold_locales
  fix r :: sq_reader and n :: u32
  assume "sq_small r" "unat n < 2 ^ 16"
  then show "calm sq_halt sq_small sq_mu (sq_mu r) (slice_op sq_full (\<lambda>_. ret None) n r)"
    using sq_wind_calm [of r n None] by (simp add: slice_op_def)
qed (auto simp: sq_pop_calm sq_pop_calm(1) [simplified] sq_binary_calm sq_atom_calm parse_error_def sq_halt_def)

section \<open>Decoding a whole message\<close>

lemma sq_init_good:
  "length buf < 2 ^ 32 \<Longrightarrow> sq_good buf (sq_reader_init buf (word_of_nat (length buf)))"
  by (simp add: sq_good_def sq_inv_def slices_inside_def sq_reader_init_def unat_u32_of_nat
      MAX_NB_SLICES_def)

lemma sq_init_view:
  "sq_rest (sq_reader_init buf n) = buf" "flat_view (sq_reader_init buf n) = flat_empty"
  by (simp_all add: sq_rest_def flat_view_def sq_reader_init_def flat_empty_def)

lemma sq_decode_tracks:
  assumes "fits t" and "length (BERT_START # encode t @ q) < 2 ^ 32" and "depth t \<le> fuel"
  shows "tracks flat_view sq_rest (sq_good (BERT_START # encode t @ q)) q (sq_decode fuel (BERT_START # encode t @ q))
    (fold_term flatten t flat_empty)"
proof -
  let ?m = "BERT_START # encode t @ q"
  let ?r = "sq_reader_init ?m (word_of_nat (length ?m))"
  have good: "sq_good ?m ?r" using assms(2) by (rule sq_init_good)
  obtain r1 where r1: "sq_pop ?r = Ok BERT_START r1" "sq_rest r1 = encode t @ q"
    "flat_view r1 = flat_empty" "sq_good ?m r1"
    using sq_stream.pop_stream [OF good, of BERT_START "encode t @ q"] sq_init_view by auto
  have "tracks flat_view sq_rest (sq_good ?m) q (r_object fuel sq_full r1) (fold_term flatten t flat_empty)"
    using sq_stream.object_stream [OF r1(4,2) assms(1,3)] r1(3) by simp
  with r1 show ?thesis by (simp add: sq_decode_def bert_decode_def Let_def)
qed

text \<open>The terms that sqlite3.erl sends: the SQL text and its arguments. An argument is a pair of a
  bind type and a binary, or a binary alone (None), which the reader takes for text. An atom is
  encoded with a one or a two byte length.\<close>

type_synonym sql_arg = "bind_t option \<times> u8 list"

definition bind_name :: "bind_t \<Rightarrow> u8 list" where
  "bind_name b = (case b of Bind_text \<Rightarrow> bytes_of ''text'' | Bind_blob \<Rightarrow> bytes_of ''blob'')"

definition arg_term :: "bool \<Rightarrow> sql_arg \<Rightarrow> bterm" where
  "arg_term small = (\<lambda>(b, d). case b of
       None \<Rightarrow> T_binary d
     | Some b \<Rightarrow> T_small_tuple
         [(if small then T_small_atom (bind_name b) else T_atom (bind_name b)), T_binary d])"

definition arg_bind :: "bind_t option \<Rightarrow> bind_t" where
  "arg_bind b = (case b of None \<Rightarrow> Bind_text | Some b \<Rightarrow> b)"

lemma arg_bind_simps [simp]: "arg_bind None = Bind_text" "arg_bind (Some b) = b"
  by (simp_all add: arg_bind_def)

definition query_term :: "bool \<Rightarrow> u8 list \<Rightarrow> sql_arg list \<Rightarrow> bterm" where
  "query_term small sql args = T_small_tuple [T_binary sql,
     (if args = [] then T_nil else T_list (map (arg_term small) args) T_nil)]"

lemma flatten_arg:
  assumes "fl_bind a = Some Bind_text"
  shows "fold_term flatten (arg_term small (b, d)) a = flat_binary d (a\<lparr>fl_bind := Some (arg_bind b)\<rparr>)"
proof (cases b)
  case None
  with assms show ?thesis by (simp add: arg_term_def flat_binary_def)
next
  case (Some t)
  have "fold_term flatten (if small then T_small_atom (bind_name t) else T_atom (bind_name t)) a =
      Ok None (a\<lparr>fl_bind := Some t\<rparr>)"
    by (cases t) (simp_all add: flat_atom_def bind_name_def bytes_of_def)
  then show ?thesis
    by (simp add: arg_term_def Some flat_binary_def io_simps)
qed

lemma flatten_args:
  assumes "length (fl_slices a) \<le> MAX_NB_SLICES" and "fl_bind a = Some Bind_text"
  shows "if length (fl_slices a) + length args \<le> MAX_NB_SLICES
    then \<exists>vs. fold_terms flatten (map (arg_term small) args) a =
      Ok vs \<lparr>fl_slices = fl_slices a @ map (\<lambda>(b, d). (Some (arg_bind b), d)) args, fl_bind = Some Bind_text\<rparr>
    else \<exists>a'. fold_terms flatten (map (arg_term small) args) a = Stop (Error ''MAX_NB_SLICES'') a'"
  using assms
proof (induction args arbitrary: a)
  case (Cons x args)
  obtain b d where x: "x = (b, d)" by fastforce
  show ?case
  proof (cases "length (fl_slices a) < MAX_NB_SLICES")
    case True
    let ?a = "\<lparr>fl_slices = fl_slices a @ [(Some (arg_bind b), d)], fl_bind = Some Bind_text\<rparr> :: flat"
    have "fold_term flatten (arg_term small x) a = Ok None ?a"
      using True Cons.prems(2) by (simp add: x flatten_arg flat_binary_def)
    with Cons.IH [of ?a] True show ?thesis by (auto simp: x io_simps)
  next
    case False
    with Cons.prems(2) show ?thesis
      by (auto simp: x flatten_arg flat_binary_def io_simps)
  qed
qed auto

lemma flatten_query:
  "if length args < MAX_NB_SLICES
   then fold_term flatten (query_term small sql args) flat_empty =
     Ok None \<lparr>fl_slices = (Some Bind_text, sql) # map (\<lambda>(b, d). (Some (arg_bind b), d)) args,
       fl_bind = Some Bind_text\<rparr>
   else \<exists>a. fold_term flatten (query_term small sql args) flat_empty =
     Stop (Error ''MAX_NB_SLICES'') a"
proof -
  let ?a = "\<lparr>fl_slices = [(Some Bind_text, sql)], fl_bind = Some Bind_text\<rparr> :: flat"
  have sql: "flat_binary sql flat_empty = Ok None ?a"
    by (simp add: flat_binary_def flat_empty_def MAX_NB_SLICES_def)
  from flatten_args [of ?a args small] show ?thesis
    by (auto simp: query_term_def sql io_simps MAX_NB_SLICES_def split: if_splits)
qed

lemma query_term_depth: "depth (query_term small sql args) \<le> 4"
proof -
  have "max_depth (map (arg_term small) args) \<le> 2"
    by (induction args) (auto simp: arg_term_def split: option.splits)
  then show ?thesis by (auto simp: query_term_def)
qed

lemma query_term_fits:
  assumes "length sql < 2 ^ 32" and "length args < 2 ^ 32"
    and "\<forall>(b, d) \<in> set args. length d < 2 ^ 32"
  shows "fits (query_term small sql args)"
proof -
  have "length (bind_name b) = 4" for b by (cases b) (simp_all add: bind_name_def)
  with assms(3) have "all_fit (map (arg_term small) args)"
    by (induction args) (auto simp: arg_term_def split: option.splits)
  with assms(1,2) show ?thesis by (auto simp: query_term_def)
qed

section \<open>The decoder ends\<close>

lemma sq_decode_ends:
  assumes "length buf \<le> 2 ^ 32 - 2 ^ 16" and "11 * Suc (length buf) \<le> fuel"
  shows "case sq_decode fuel buf of
       Ok v r \<Rightarrow> sq_inv r
     | Stop h r \<Rightarrow> h = Undef Out_Of_Bounds \<or> (\<exists>msg. h = Error msg)"
proof -
  let ?r = "sq_reader_init buf (word_of_nat (length buf))"
  have "length buf < 2 ^ 32" using assms(1) by simp
  with sq_init_good have small: "sq_small ?r"
    using assms(1) by (simp add: sq_small_def sq_good_def)
  have mu: "sq_mu ?r = 11 * length buf + 10"
    by (simp add: sq_mu_def sq_reader_init_def MAX_NB_SLICES_def)
  show ?thesis
  proof (cases "sq_pop ?r")
    case (Ok b r1)
    with sq_pop_calm(1) [OF small] have r1: "sq_small r1" "sq_mu r1 < fuel"
      using mu assms(2) by auto
    then have "calm sq_halt sq_small sq_mu (sq_mu r1 - 1) (r_object fuel sq_full r1)"
      by (rule sq_bounded.object_calm)
    with Ok show ?thesis
      by (auto simp: sq_decode_def bert_decode_def Let_def calm_def sq_halt_def sq_small_def
          fail_with_def parse_error_def split: res.splits)
  next
    case (Stop h r1)
    with sq_pop_calm(1) [OF small] show ?thesis
      by (auto simp: sq_decode_def bert_decode_def Let_def sq_halt_def)
  qed
qed

section \<open>Properties\<close>

text \<open>C6: The reader of sqlite3.c comes to an end on every message of up to 2^32 - 2^16 bytes, with
  a recursion depth of at most 11 times one more than the message length: it returns with the reader's invariant
  (at most ten slices), reports an error, or reads outside the message. No NULL pointer is called
  and no winding back by a wrapped size makes it loop.\<close>

theorem sq_decode_stops:
  assumes "length buf \<le> 2 ^ 32 - 2 ^ 16" and "11 * Suc (length buf) \<le> fuel"
  shows "case sq_decode fuel buf of
       Ok v r \<Rightarrow> sq_inv r
     | Stop h r \<Rightarrow> h = Undef Out_Of_Bounds \<or> (\<exists>msg. h = Error msg)"
  by (rule sq_decode_ends [OF assms])

theorem sq_decode_stops_witness:
  "case sq_decode 66 [131, 109, 255, 255, 255] of
       Ok v r \<Rightarrow> sq_inv r
     | Stop h r \<Rightarrow> h = Undef Out_Of_Bounds \<or> (\<exists>msg. h = Error msg)"
  using sq_decode_stops [of "[131, 109, 255, 255, 255]" 66] by simp

text \<open>C2: On the encoding of any term, whatever follows it, the reader computes the flattening
  of the term: the same slices with the same bind types, all of them inside the message, or the
  same error. The decoder refines the fold over the term.\<close>

theorem sq_decode_flattens:
  assumes "fits t" and "length (BERT_START # encode t @ junk) < 2 ^ 32" and "depth t \<le> fuel"
  shows "case fold_term flatten t flat_empty of
       Ok v a \<Rightarrow> \<exists>r. sq_decode fuel (BERT_START # encode t @ junk) = Ok v r \<and> flat_view r = a \<and>
         slices_inside r
     | Stop h a \<Rightarrow> \<exists>r. sq_decode fuel (BERT_START # encode t @ junk) = Stop h r \<and> flat_view r = a"
  using sq_decode_tracks [OF assms]
  by (cases "sq_decode fuel (BERT_START # encode t @ junk)") (auto simp: tracks_def sq_good_def)

theorem sq_decode_flattens_witness:
  "\<exists>r. sq_decode 2 [131, 104, 2, 100, 0, 4, 98, 108, 111, 98, 109, 0, 0, 0, 1, 7] = Ok None r \<and>
     fl_slices (flat_view r) = [(Some Bind_blob, [7])]"
proof -
  let ?t = "T_small_tuple [T_atom (bytes_of ''blob''), T_binary [7]]"
  have e: "BERT_START # encode ?t @ [] =
      [131, 104, 2, 100, 0, 4, 98, 108, 111, 98, 109, 0, 0, 0, 1, 7]"
    by (simp add: bert_tags bytes_of_def be_bytes_4 numeral_2_eq_2)
  have f: "fold_term flatten ?t flat_empty =
      Ok None \<lparr>fl_slices = [(Some Bind_blob, [7])], fl_bind = Some Bind_text\<rparr>"
    by (simp add: flat_atom_def flat_binary_def flat_empty_def MAX_NB_SLICES_def io_simps)
  have "fits ?t" "depth ?t \<le> 2" by simp_all
  moreover have "length (BERT_START # encode ?t @ []) < 2 ^ 32" unfolding e by simp
  ultimately show ?thesis using sq_decode_flattens [of ?t "[]" 2] unfolding e f by auto
qed

text \<open>For the query terms of sqlite3.erl: the SQL text and up to nine arguments arrive as
  the argument list in their order, each with its own bind type or as text where it has none; with more arguments the
  program ends with the error MAX_NB_SLICES.\<close>

lemma sq_decode_query:
  assumes "length (BERT_START # encode (query_term small sql args)) < 2 ^ 32"
    and "fits (query_term small sql args)"
  shows "if length args < MAX_NB_SLICES
     then \<exists>r. sq_decode 4 (BERT_START # encode (query_term small sql args)) = Ok None r \<and>
       slices_inside r \<and> fl_slices (flat_view r) =
         (Some Bind_text, sql) # map (\<lambda>(b, d). (Some (arg_bind b), d)) args
     else \<exists>r. sq_decode 4 (BERT_START # encode (query_term small sql args)) =
       Stop (Error ''MAX_NB_SLICES'') r"
  using sq_decode_tracks [OF assms(2), of "[]" 4] query_term_depth [of small sql args] assms(1)
    flatten_query [of args small sql]
  by (auto simp: tracks_def sq_good_def split: res.splits if_splits
      dest: arg_cong [where f = fl_slices])

lemma sq_decode_query_witness:
  "\<exists>r. sq_decode 4 (BERT_START # encode (query_term False [63] [(Some Bind_blob, [1]), (None, [])]))
     = Ok None r \<and> fl_slices (flat_view r) =
       [(Some Bind_text, [63]), (Some Bind_blob, [1]), (Some Bind_text, [])]"
  using sq_decode_query [of False "[63]" "[(Some Bind_blob, [1]), (None, [])]"]
    query_term_fits [of "[63]" "[(Some Bind_blob, [1]), (None, [])]" False]
  by (auto simp: MAX_NB_SLICES_def query_term_def arg_term_def bind_name_def)

text \<open>\<open>pop\<close> reads before it checks: with the offset at the end of the message it reads one
  byte behind it, so that no message is reported as truncated by \<open>pop\<close>.\<close>

lemma sq_pop_reads_past_end:
  assumes "sq_inv r" and "unat (q_offset r) = length (q_buf r)"
  shows "sq_pop r = Stop (Undef Out_Of_Bounds) r"
  using assms by (simp add: sq_pop_def)

text \<open>C39: \<open>wind\<close> adds in uint32_t: a size that wraps the offset passes the truncation check and
  moves the offset back, and the slice that \<open>binary\<close> stored for it reaches far outside the
  message.\<close>

theorem sq_binary_wraps:
  assumes "sq_inv r" and "unat (q_nb_slices r) < MAX_NB_SLICES"
    and "2 ^ 32 \<le> unat (q_offset r) + unat n"
  shows "\<exists>r'. slice_op sq_callbacks sq_binary n r = Ok None r' \<and> \<not> slices_inside r' \<and>
     unat (q_offset r') < unat (q_offset r)"
proof -
  obtain r1 where r1: "sq_binary n r = Ok None r1"
    using assms(2) by (auto simp: sq_binary_def)
  note b = sq_binary_Ok [OF assms(1) r1]
  have "unat (q_offset r + n) = (unat (q_offset r) + unat n) mod 2 ^ 32"
    by (simp add: unat_word_ariths)
  also have "\<dots> = unat (q_offset r) + unat n - 2 ^ 32"
    using assms(3) unat_u32_less [of n] unat_u32_less [of "q_offset r"] by (simp add: mod_if)
  finally have less: "unat (q_offset r + n) < unat (q_offset r)"
    using assms(3) unat_u32_less [of n] by simp
  let ?r = "r1\<lparr>q_offset := q_offset r + n\<rparr>"
  have "sq_wind n r1 = Ok () ?r"
    using less b assms(1) by (simp add: sq_wind_def Let_def word_less_nat_alt sq_inv_def)
  moreover have "\<not> slices_inside ?r"
    using b assms(1,3) unat_u32_less [of "q_length r"]
    by (auto simp: slices_inside_def sq_inv_def)
  ultimately show ?thesis
    using r1 less by (auto simp: slice_op_def sq_callbacks_def io_simps)
qed

theorem sq_binary_wraps_witness:
  "\<exists>r'. slice_op sq_callbacks sq_binary 4294967290
       ((sq_reader_init [131, 109, 255, 255, 255, 250] 6)\<lparr>q_offset := 6\<rparr>) = Ok None r' \<and>
     \<not> slices_inside r' \<and> unat (q_offset r') < 6"
  using sq_binary_wraps
    [of "(sq_reader_init [131, 109, 255, 255, 255, 250] 6)\<lparr>q_offset := 6\<rparr>" 4294967290]
  by (simp add: sq_inv_def sq_reader_init_def MAX_NB_SLICES_def)

end
