(* ===== verification/Bert_Writer.thy ===== *)
theory Bert_Writer
  imports Bert_Fold
begin

text \<open>
  The BERT writer of c_src/bert.c and include/bert.h. The operations of the writer's API push
  bytes through a function pointer; they are modelled over any push function and any writer
  state. \<open>w_push\<close> is the default push over \<open>struct bert_writer\<close>, whose buffer has bytes that may
  not be initialised yet (None). A term is a function from the API to a writer action, as in
  \<open>bert_write_seq_t\<close>. A pointer to input data is the memory behind it.
\<close>

section \<open>The writer state and the default push\<close>

record bert_writer =
  w_buf :: "u8 option list option"
  w_size :: u32

definition w_push :: "u8 \<Rightarrow> (bert_writer, unit) cm" where
  "w_push byte w =
     (case w_buf w of
        None \<Rightarrow> Ok () (w\<lparr>w_size := w_size w + 1\<rparr>)
      | Some b \<Rightarrow>
          if unat (w_size w) < length b
          then Ok () (w\<lparr>w_buf := Some (b[unat (w_size w) := Some byte]), w_size := w_size w + 1\<rparr>)
          else Stop (Undef Out_Of_Bounds) w)"

section \<open>Operations over a push function\<close>

type_synonym 'w push = "u8 \<Rightarrow> ('w, unit) cm"

fun w_uint :: "'w push \<Rightarrow> nat \<Rightarrow> u32 \<Rightarrow> ('w, unit) cm" where
  "w_uint push 0 val = skip"
| "w_uint push (Suc n) val =
     (if 32 \<le> 8 * n then stop (Undef Shift_Range)
      else andthen (push (ucast (drop_bit (8 * n) val))) (\<lambda>_. w_uint push n val))"

definition w_tagged_size :: "'w push \<Rightarrow> u8 \<Rightarrow> nat \<Rightarrow> u32 \<Rightarrow> ('w, unit) cm" where
  "w_tagged_size push tag size_size sz =
     andthen (push tag) (\<lambda>_. w_uint push size_size sz)"

text \<open>strlen: the index of the first NUL, None when the memory ends before it.\<close>

definition c_strlen :: "u8 list \<Rightarrow> nat option" where
  "c_strlen mem = (if 0 \<in> set mem then Some (length (takeWhile (\<lambda>b. b \<noteq> 0) mem)) else None)"

definition push_at :: "'w push \<Rightarrow> u8 list \<Rightarrow> nat \<Rightarrow> ('w, unit) cm" where
  "push_at push mem i = (if i < length mem then push (mem ! i) else stop (Undef Out_Of_Bounds))"

definition w_tagged_bytes ::
    "'w push \<Rightarrow> u8 \<Rightarrow> nat \<Rightarrow> u8 list \<Rightarrow> u32 \<Rightarrow> ('w, unit) cm" where
  "w_tagged_bytes push tag size_size mem nb_bytes0 =
     andthen (if sint nb_bytes0 < 0
              then (case c_strlen mem of None \<Rightarrow> stop (Undef Out_Of_Bounds)
                    | Some n \<Rightarrow> ret (word_of_nat n))
              else ret nb_bytes0) (\<lambda>nb_bytes.
     andthen (w_tagged_size push tag size_size nb_bytes) (\<lambda>_.
     for_each (push_at push mem) [0..<unat nb_bytes]))"

definition w_small_tuple :: "'w push \<Rightarrow> u32 \<Rightarrow> ('w, unit) cm" where
  "w_small_tuple push nb_el = w_tagged_size push BERT_SMALL_TUPLE 1 nb_el"

definition w_large_tuple :: "'w push \<Rightarrow> u32 \<Rightarrow> ('w, unit) cm" where
  "w_large_tuple push nb_el = w_tagged_size push BERT_LARGE_TUPLE 4 nb_el"

definition w_small_atom :: "'w push \<Rightarrow> u8 list \<Rightarrow> u32 \<Rightarrow> ('w, unit) cm" where
  "w_small_atom push buf nb_bytes = w_tagged_bytes push BERT_SMALL_ATOM 1 buf nb_bytes"

definition w_atom :: "'w push \<Rightarrow> u8 list \<Rightarrow> u32 \<Rightarrow> ('w, unit) cm" where
  "w_atom push buf nb_bytes = w_tagged_bytes push BERT_ATOM 2 buf nb_bytes"

definition w_binary :: "'w push \<Rightarrow> u8 list \<Rightarrow> u32 \<Rightarrow> ('w, unit) cm" where
  "w_binary push buf nb_bytes = w_tagged_bytes push BERT_BINARY 4 buf nb_bytes"

definition w_list :: "'w push \<Rightarrow> u32 \<Rightarrow> ('w, unit) cm" where
  "w_list push nb_el = w_tagged_size push BERT_LIST 4 nb_el"

definition w_nil :: "'w push \<Rightarrow> ('w, unit) cm" where
  "w_nil push = push BERT_NIL"

section \<open>The API table\<close>

text \<open>The function pointers of the struct. Their parameters are positional: the one called uint
  is declared with (val, size) and set to \<open>w_uint\<close>, whose parameters are (val_size, val).\<close>

record 'w writer_api =
  api_uint :: "u32 \<Rightarrow> u32 \<Rightarrow> ('w, unit) cm"
  api_small_tuple :: "u32 \<Rightarrow> ('w, unit) cm"
  api_large_tuple :: "u32 \<Rightarrow> ('w, unit) cm"
  api_small_atom :: "u8 list \<Rightarrow> u32 \<Rightarrow> ('w, unit) cm"
  api_atom :: "u8 list \<Rightarrow> u32 \<Rightarrow> ('w, unit) cm"
  api_binary :: "u8 list \<Rightarrow> u32 \<Rightarrow> ('w, unit) cm"
  api_list :: "u32 \<Rightarrow> ('w, unit) cm"
  api_nil :: "('w, unit) cm"

definition set_push :: "bert_writer push option \<Rightarrow> bert_writer push" where
  "set_push p = (case p of None \<Rightarrow> w_push | Some f \<Rightarrow> f)"

definition w_set_api :: "'w push \<Rightarrow> 'w writer_api" where
  "w_set_api push = \<lparr>
     api_uint = (\<lambda>a b. w_uint push (unat a) b),
     api_small_tuple = w_small_tuple push,
     api_large_tuple = w_large_tuple push,
     api_small_atom = w_small_atom push,
     api_atom = w_atom push,
     api_binary = w_binary push,
     api_list = w_list push,
     api_nil = w_nil push\<rparr>"

type_synonym write_seq = "bert_writer writer_api \<Rightarrow> (bert_writer, unit) cm"

definition bert_write_sub :: "bert_writer push option \<Rightarrow> write_seq \<Rightarrow> (bert_writer, u32) cm" where
  "bert_write_sub p seq = andthen (seq (w_set_api (set_push p))) (\<lambda>_. gets w_size)"

text \<open>The two passes of \<open>bert_write_packet\<close> over a writer of its own, and the callback on the
  buffer in the caller's state.\<close>

definition bert_write_packet ::
    "bert_writer push option \<Rightarrow> u32 \<Rightarrow> write_seq \<Rightarrow> (u8 option list \<Rightarrow> u32 \<Rightarrow> ('s, unit) cm) \<Rightarrow>
     ('s, unit) cm" where
  "bert_write_packet p packet_size_size seq done_cb s =
     (case bert_write_sub p seq \<lparr>w_buf = None, w_size = 0\<rparr> of
        Stop h w \<Rightarrow> Stop h s
      | Ok sub_size w \<Rightarrow>
          let term_size = 1 + sub_size;
              buf = replicate (unat (packet_size_size + term_size)) None;
              push = set_push p in
          (case andthen (w_uint push (unat packet_size_size) term_size) (\<lambda>_.
                andthen (push BERT_START) (\<lambda>_.
                bert_write_sub p seq)) \<lparr>w_buf = Some buf, w_size = 0\<rparr> of
             Stop h w \<Rightarrow> Stop h s
           | Ok _ w \<Rightarrow>
               done_cb (case w_buf w of Some b \<Rightarrow> b | None \<Rightarrow> buf) (w_size w) s))"

section \<open>The interface of a byte sink\<close>

text \<open>An action emits bytes when, wherever they fit, it ends normally and has put them.\<close>

definition emits ::
    "('w \<Rightarrow> nat \<Rightarrow> bool) \<Rightarrow> ('w \<Rightarrow> u8 list \<Rightarrow> 'w) \<Rightarrow> ('w, unit) cm \<Rightarrow> u8 list \<Rightarrow> bool" where
  "emits fit put m bs \<longleftrightarrow> (\<forall>w. fit w (length bs) \<longrightarrow> m w = Ok () (put w bs))"

locale byte_sink =
  fixes push :: "'w push"
    and fit :: "'w \<Rightarrow> nat \<Rightarrow> bool"
    and put :: "'w \<Rightarrow> u8 list \<Rightarrow> 'w"
  assumes fit_mono: "fit w n \<Longrightarrow> m \<le> n \<Longrightarrow> fit w m"
    and push_put: "fit w 1 \<Longrightarrow> push b w = Ok () (put w [b])"
    and fit_put: "fit w (length xs + n) \<Longrightarrow> fit (put w xs) n"
    and put_put: "fit w (length xs + length ys) \<Longrightarrow> put (put w xs) ys = put w (xs @ ys)"
    and put_nil: "put w [] = w"
begin

lemma emits_skip: "emits fit put skip []"
  unfolding emits_def by (simp add: put_nil)

lemma emits_push: "emits fit put (push b) [b]"
  by (simp add: emits_def push_put)

lemma emits_andthen:
  assumes "emits fit put m xs" and "emits fit put k ys"
  shows "emits fit put (andthen m (\<lambda>_. k)) (xs @ ys)"
  unfolding emits_def
proof (intro allI impI)
  fix w
  assume w: "fit w (length (xs @ ys))"
  then have "m w = Ok () (put w xs)" "k (put w xs) = Ok () (put (put w xs) ys)"
    using assms fit_mono [of w "length xs + length ys" "length xs"] fit_put [of w xs "length ys"]
    by (auto simp: emits_def)
  then show "andthen m (\<lambda>_. k) w = Ok () (put w (xs @ ys))"
    using w put_put [of w xs ys] by simp
qed

lemma emits_for_each:
  assumes "\<And>x. x \<in> set xs \<Longrightarrow> emits fit put (f x) (g x)"
  shows "emits fit put (for_each f xs) (concat (map g xs))"
  using assms by (induction xs) (auto intro: emits_skip emits_andthen)

lemma emits_uint: "n \<le> 4 \<Longrightarrow> emits fit put (w_uint push n v) (be_bytes n (unat v))"
proof (induction n)
  case 0
  then show ?case by (simp only: w_uint.simps be_bytes.simps emits_skip)
next
  case (Suc n)
  then have "emits fit put (andthen (push (ucast (drop_bit (8 * n) v))) (\<lambda>_. w_uint push n v))
      ([word_of_nat (unat v div 256 ^ n)] @ be_bytes n (unat v))"
    unfolding ucast_drop_byte by (intro emits_andthen emits_push) simp
  with Suc.prems show ?case by simp
qed

lemma emits_tagged_size:
  assumes "n \<le> 4"
  shows "emits fit put (w_tagged_size push tag n v) (tag # be_bytes n (unat v))"
  using emits_andthen [OF emits_push [of tag] emits_uint [OF assms, of v]]
  by (simp add: w_tagged_size_def)

lemma emits_memory:
  assumes "n \<le> length mem"
  shows "emits fit put (for_each (push_at push mem) [0..<n]) (take n mem)"
proof -
  have "emits fit put (for_each (push_at push mem) [0..<n]) (concat (map (\<lambda>i. [mem ! i]) [0..<n]))"
    using assms by (intro emits_for_each) (auto simp: push_at_def intro: emits_push)
  also have "concat (map (\<lambda>i. [mem ! i]) [0..<n]) = take n mem"
    using assms by (simp add: concat_map_singleton list_eq_iff_nth_eq)
  finally show ?thesis .
qed

text \<open>Data with an explicit length, and C strings (a negative length).\<close>

lemma emits_tagged_bytes:
  assumes "n \<le> 4" and "length bs < 2 ^ 31"
  shows "emits fit put (w_tagged_bytes push tag n (bs @ aft) (word_of_nat (length bs)))
    (tag # be_bytes n (length bs) @ bs)"
proof -
  have u: "unat (word_of_nat (length bs) :: u32) = length bs"
    using assms(2) by (intro unat_u32_of_nat) simp
  have "emits fit put (for_each (push_at push (bs @ aft)) [0..<length bs]) bs"
    using emits_memory [of "length bs" "bs @ aft"] by simp
  from emits_andthen [OF emits_tagged_size [OF assms(1), of tag "word_of_nat (length bs)"] this]
  show ?thesis using assms(2) by (simp add: w_tagged_bytes_def u sint_u32_neg_iff)
qed

lemma emits_tagged_cstring:
  assumes "n \<le> 4" and "length bs < 2 ^ 31" and "0 \<notin> set bs"
  shows "emits fit put (w_tagged_bytes push tag n (bs @ 0 # aft) (- 1))
    (tag # be_bytes n (length bs) @ bs)"
proof -
  have u: "unat (word_of_nat (length bs) :: u32) = length bs"
    using assms(2) by (intro unat_u32_of_nat) simp
  have "takeWhile (\<lambda>b. b \<noteq> 0) (bs @ 0 # aft) = bs"
    using assms(3) by (subst takeWhile_append2) auto
  then have len: "c_strlen (bs @ 0 # aft) = Some (length bs)" by (simp add: c_strlen_def)
  have "emits fit put (for_each (push_at push (bs @ 0 # aft)) [0..<length bs]) bs"
    using emits_memory [of "length bs" "bs @ 0 # aft"] by simp
  from emits_andthen [OF emits_tagged_size [OF assms(1), of tag "word_of_nat (length bs)"] this]
  show ?thesis by (simp add: w_tagged_bytes_def u len)
qed

end

section \<open>\<open>struct bert_writer\<close> is a byte sink\<close>

definition store :: "u8 option list \<Rightarrow> nat \<Rightarrow> u8 list \<Rightarrow> u8 option list" where
  "store b i bs = take i b @ map Some bs @ drop (i + length bs) b"

definition w_fit :: "bert_writer \<Rightarrow> nat \<Rightarrow> bool" where
  "w_fit w n \<longleftrightarrow> (case w_buf w of None \<Rightarrow> True
     | Some b \<Rightarrow> unat (w_size w) + n \<le> length b \<and> length b < 2 ^ 32)"

definition w_put :: "bert_writer \<Rightarrow> u8 list \<Rightarrow> bert_writer" where
  "w_put w bs = w\<lparr>w_buf := map_option (\<lambda>b. store b (unat (w_size w)) bs) (w_buf w),
     w_size := w_size w + word_of_nat (length bs)\<rparr>"

lemma length_store: "i + length bs \<le> length b \<Longrightarrow> length (store b i bs) = length b"
  by (simp add: store_def)

lemma store_store:
  "i + length xs + length ys \<le> length b \<Longrightarrow>
   store (store b i xs) (i + length xs) ys = store b i (xs @ ys)"
  by (simp add: store_def add.assoc add.commute [of "length ys"])

lemma store_Nil: "i \<le> length b \<Longrightarrow> store b i [] = b"
  by (simp add: store_def)

lemma store_one: "i < length b \<Longrightarrow> store b i [v] = b[i := Some v]"
  by (simp add: store_def upd_conv_take_nth_drop)

lemma w_fit_size:
  assumes "w_fit w n" and "w_buf w = Some b" and "k \<le> n"
  shows "unat (w_size w + word_of_nat k) = unat (w_size w) + k"
proof -
  have "unat (w_size w) + k < 2 ^ 32" using assms by (simp add: w_fit_def)
  then show ?thesis by (simp add: unat_word_ariths unat_of_nat)
qed

interpretation writer_sink: byte_sink w_push w_fit w_put
proof unfold_locales
  fix w :: bert_writer and n m
  assume "w_fit w n" "m \<le> n"
  then show "w_fit w m" by (auto simp: w_fit_def split: option.splits)
next
  fix w :: bert_writer and b
  assume fit: "w_fit w 1"
  show "w_push b w = Ok () (w_put w [b])"
  proof (cases "w_buf w")
    case None
    then show ?thesis by (simp add: w_push_def w_put_def)
  next
    case (Some buf)
    with fit have "unat (w_size w) < length buf" by (simp add: w_fit_def)
    with Some show ?thesis by (simp add: w_push_def w_put_def store_one)
  qed
next
  fix w :: bert_writer and xs :: "u8 list" and n
  assume fit: "w_fit w (length xs + n)"
  show "w_fit (w_put w xs) n"
  proof (cases "w_buf w")
    case (Some b)
    with fit w_fit_size [OF fit Some, of "length xs"] show ?thesis
      by (simp add: w_fit_def w_put_def length_store)
  qed (simp add: w_fit_def w_put_def)
next
  fix w :: bert_writer and xs ys :: "u8 list"
  assume fit: "w_fit w (length xs + length ys)"
  show "w_put (w_put w xs) ys = w_put w (xs @ ys)"
  proof (cases "w_buf w")
    case (Some b)
    with fit w_fit_size [OF fit Some, of "length xs"] show ?thesis
      by (simp add: w_fit_def w_put_def store_store add.assoc)
  qed (simp add: w_put_def add.assoc)
next
  fix w :: bert_writer
  show "w_put w [] = w"
  proof (cases "w_buf w")
    case (Some b)
    show ?thesis
    proof (cases "unat (w_size w) \<le> length b")
      case True
      with Some show ?thesis by (simp add: w_put_def store_Nil)
    next
      case False
      with Some show ?thesis by (simp add: w_put_def store_def)
    qed
  qed (simp add: w_put_def)
qed

section \<open>The two pass packet writer\<close>

text \<open>A term action that emits the same bytes whether it counts or stores.\<close>

abbreviation seq_emits :: "write_seq \<Rightarrow> u8 list \<Rightarrow> bool" where
  "seq_emits seq bs \<equiv> emits w_fit w_put (seq (w_set_api w_push)) bs"

lemma write_sub_counts:
  "seq_emits seq bs \<Longrightarrow> bert_write_sub None seq \<lparr>w_buf = None, w_size = n\<rparr> =
     Ok (n + word_of_nat (length bs)) \<lparr>w_buf = None, w_size = n + word_of_nat (length bs)\<rparr>"
  by (simp add: bert_write_sub_def set_push_def emits_def w_fit_def w_put_def io_simps)

lemma write_packet_ok:
  assumes "seq_emits seq bs" and "pss \<le> 4" and "pss + 1 + length bs < 2 ^ 32"
  shows "bert_write_packet None (word_of_nat pss) seq done_cb s =
    done_cb (map Some (be_bytes pss (1 + length bs) @ BERT_START # bs))
      (word_of_nat (pss + 1 + length bs)) s"
proof -
  let ?tsize = "1 + word_of_nat (length bs) :: u32"
  let ?msg = "be_bytes pss (1 + length bs) @ [BERT_START] @ bs"
  let ?n = "pss + 1 + length bs"
  let ?w = "\<lparr>w_buf = Some (replicate ?n None), w_size = 0\<rparr>"
  have pss: "unat (word_of_nat pss :: u32) = pss" using assms(2) by (intro unat_u32_of_nat) simp
  have term_size: "unat ?tsize = 1 + length bs"
    using assms(3) by (simp add: unat_word_ariths unat_of_nat)
  have "word_of_nat pss + ?tsize = (word_of_nat ?n :: u32)" by simp
  then have total: "unat (word_of_nat pss + ?tsize) = ?n"
    using assms(3) by (metis unat_u32_of_nat)
  have "emits w_fit w_put (andthen (w_uint w_push pss ?tsize) (\<lambda>_.
      andthen (w_push BERT_START) (\<lambda>_. seq (w_set_api w_push)))) ?msg"
    unfolding term_size [symmetric]
    by (intro writer_sink.emits_andthen writer_sink.emits_uint writer_sink.emits_push assms)
  moreover have "w_fit ?w (length ?msg)" using assms(3) by (simp add: w_fit_def)
  ultimately have run: "andthen (w_uint w_push pss ?tsize) (\<lambda>_.
      andthen (w_push BERT_START) (\<lambda>_. seq (w_set_api w_push))) ?w = Ok () (w_put ?w ?msg)"
    by (simp add: emits_def)
  have "andthen (w_uint w_push pss ?tsize) (\<lambda>_. andthen (w_push BERT_START) (\<lambda>_.
      bert_write_sub None seq)) ?w = Ok (word_of_nat ?n) (w_put ?w ?msg)"
    using run unfolding bert_write_sub_def set_push_def
    by (auto simp: andthen_def w_put_def split: res.splits)
  moreover have "w_put ?w ?msg = \<lparr>w_buf = Some (map Some ?msg), w_size = word_of_nat ?n\<rparr>"
    by (simp add: w_put_def store_def)
  ultimately show ?thesis
    using write_sub_counts [where n = 0 and seq = seq and bs = bs] assms(1) total
    by (simp add: bert_write_packet_def pss set_push_def Let_def)
qed

section \<open>Terms written through the API\<close>

text \<open>The API calls that write a term: the inverse of the parser.\<close>

fun write_term :: "'w writer_api \<Rightarrow> bterm \<Rightarrow> ('w, unit) cm"
  and write_terms :: "'w writer_api \<Rightarrow> bterm list \<Rightarrow> ('w, unit) cm" where
  "write_term a T_nil = api_nil a"
| "write_term a (T_small_atom bs) = api_small_atom a bs (word_of_nat (length bs))"
| "write_term a (T_atom bs) = api_atom a bs (word_of_nat (length bs))"
| "write_term a (T_binary bs) = api_binary a bs (word_of_nat (length bs))"
| "write_term a (T_small_tuple ts) =
     andthen (api_small_tuple a (word_of_nat (length ts))) (\<lambda>_. write_terms a ts)"
| "write_term a (T_large_tuple ts) =
     andthen (api_large_tuple a (word_of_nat (length ts))) (\<lambda>_. write_terms a ts)"
| "write_term a (T_list ts t) =
     andthen (api_list a (word_of_nat (length ts))) (\<lambda>_.
     andthen (write_terms a ts) (\<lambda>_. write_term a t))"
| "write_term a t = stop Out_Of_Fuel"
| "write_terms a [] = skip"
| "write_terms a (t # ts) = andthen (write_term a t) (\<lambda>_. write_terms a ts)"

text \<open>The terms the writer has operations for (no integers, no strings).\<close>

fun writable_term :: "bterm \<Rightarrow> bool"
  and writable_terms :: "bterm list \<Rightarrow> bool" where
  "writable_term (T_small_int v) = False"
| "writable_term (T_int v) = False"
| "writable_term (T_string bs) = False"
| "writable_term (T_binary bs) = (length bs < 2 ^ 31)"
| "writable_term (T_small_tuple ts) = writable_terms ts"
| "writable_term (T_large_tuple ts) = writable_terms ts"
| "writable_term (T_list ts t) = (writable_terms ts \<and> writable_term t)"
| "writable_term t = True"
| "writable_terms [] = True"
| "writable_terms (t # ts) = (writable_term t \<and> writable_terms ts)"

lemmas api_defs = w_set_api_def w_small_tuple_def w_large_tuple_def w_small_atom_def w_atom_def
  w_binary_def w_list_def w_nil_def

lemma write_term_emits:
  "fits t \<Longrightarrow> writable_term t \<Longrightarrow> emits w_fit w_put (write_term (w_set_api w_push) t) (encode t)"
  "all_fit ts \<Longrightarrow> writable_terms ts \<Longrightarrow>
     emits w_fit w_put (write_terms (w_set_api w_push) ts) (encode_all ts)"
proof (induction t and ts rule: encode_encode_all.induct)
  case 1
  show ?case by (simp add: api_defs writer_sink.emits_push)
next
  case (4 bs)
  then show ?case using writer_sink.emits_tagged_bytes [of 1 bs BERT_SMALL_ATOM "[]"]
    by (simp add: api_defs)
next
  case (5 bs)
  then show ?case using writer_sink.emits_tagged_bytes [of 2 bs BERT_ATOM "[]"]
    by (simp add: api_defs)
next
  case (6 bs)
  then show ?case using writer_sink.emits_tagged_bytes [of 4 bs BERT_BINARY "[]"]
    by (simp add: api_defs)
next
  case (8 ts)
  then show ?case
    using writer_sink.emits_andthen [OF writer_sink.emits_tagged_size [of 1 BERT_SMALL_TUPLE
          "word_of_nat (length ts)"]]
    by (fastforce simp: api_defs unat_u32_of_nat)
next
  case (9 ts)
  then show ?case
    using writer_sink.emits_andthen [OF writer_sink.emits_tagged_size [of 4 BERT_LARGE_TUPLE
          "word_of_nat (length ts)"]]
    by (fastforce simp: api_defs unat_u32_of_nat)
next
  case (10 ts t)
  then have "emits w_fit w_put (andthen (write_terms (w_set_api w_push) ts)
      (\<lambda>_. write_term (w_set_api w_push) t)) (encode_all ts @ encode t)"
    by (intro writer_sink.emits_andthen) auto
  with 10 show ?case
    using writer_sink.emits_andthen [OF writer_sink.emits_tagged_size [of 4 BERT_LIST
          "word_of_nat (length ts)"]]
    by (fastforce simp: api_defs unat_u32_of_nat)
next
  case 11
  show ?case by (simp only: write_terms.simps encode_all.simps writer_sink.emits_skip)
next
  case (12 t ts)
  then show ?case by (auto intro: writer_sink.emits_andthen)
qed auto

section \<open>Properties\<close>

text \<open>C5: \<open>bert_write_packet\<close> runs the term twice and gives its callback one complete packet:
  the size of the rest big endian in the size field, BERT_START, the bytes of the term. The local
  array, sized by the first pass, is filled exactly: no store is outside it and no byte of it is
  left indeterminate.\<close>

theorem write_packet_complete:
  assumes "emits w_fit w_put (seq (w_set_api w_push)) bs" and "pss \<le> 4"
    and "pss + 1 + length bs < 2 ^ 32"
  shows "bert_write_packet None (word_of_nat pss) seq done_cb s =
    done_cb (map Some (be_bytes pss (1 + length bs) @ BERT_START # bs))
      (word_of_nat (pss + 1 + length bs)) s"
  using assms by (rule write_packet_ok)

definition nil_seq :: write_seq where
  "nil_seq a = api_nil a"

theorem write_packet_complete_witness:
  "bert_write_packet None 4 nil_seq (\<lambda>b n. modify (\<lambda>_. b)) [] =
     Ok () [Some 0, Some 0, Some 0, Some 2, Some 131, Some 106]"
proof -
  have "emits w_fit w_put (nil_seq (w_set_api w_push)) [BERT_NIL]"
    using writer_sink.emits_push [of BERT_NIL] by (simp add: nil_seq_def api_defs)
  from this write_packet_complete [where seq = nil_seq and bs = "[BERT_NIL]" and pss = 4
      and done_cb = "\<lambda>b n. modify (\<lambda>_. b)" and s = "[]"]
  show ?thesis by (simp add: be_bytes_4 bert_tags)
qed

text \<open>The operations of the API write the external term format: for every term built of nil,
  atoms, binaries, tuples and lists whose lengths fit their fields, the calls emit exactly the
  encoding of the term.\<close>

lemma write_term_encodes:
  assumes "fits t" and "writable_term t"
  shows "emits w_fit w_put (write_term (w_set_api w_push) t) (encode t)"
  using write_term_emits(1) [OF assms] .

lemma write_term_encodes_witness:
  "emits w_fit w_put (write_term (w_set_api w_push) (T_list [T_binary [1], T_atom [97]] T_nil))
     [108, 0, 0, 0, 2, 109, 0, 0, 0, 1, 1, 100, 0, 1, 97, 106]"
  using write_term_encodes [of "T_list [T_binary [1], T_atom [97]] T_nil"]
  by (simp add: be_bytes_4 be_bytes_2 bert_tags)

text \<open>The header declares uint(writer, val, size); the pointer is set to \<open>w_uint\<close>, which takes
  the size first. A call as declared, with a value of 5 or more, shifts by at least the width
  of uint32_t before it pushes anything.\<close>

lemma api_uint_swapped:
  assumes "5 \<le> unat val"
  shows "api_uint (w_set_api push) val sz w = Stop (Undef Shift_Range) w"
proof -
  obtain n where "unat val = Suc n" "32 \<le> 8 * n"
    using assms by (cases "unat val") auto
  then show ?thesis by (simp add: w_set_api_def)
qed

lemma api_uint_swapped_witness:
  "api_uint (w_set_api w_push) 1000 2 \<lparr>w_buf = None, w_size = 0\<rparr> =
     Stop (Undef Shift_Range) \<lparr>w_buf = None, w_size = 0\<rparr>"
  using api_uint_swapped [of 1000 w_push 2 "\<lparr>w_buf = None, w_size = 0\<rparr>"] by simp

text \<open>A binary of 2^31 bytes or more has a negative length in the API, and is written as if it
  were a C string: up to its first zero byte, or beyond its end when it has none.\<close>

lemma binary_huge_is_cstring:
  assumes "2 ^ 31 \<le> unat n" and "bs = takeWhile (\<lambda>b. b \<noteq> 0) mem" and "length bs < 2 ^ 31"
  shows "if 0 \<in> set mem
     then emits w_fit w_put (api_binary (w_set_api w_push) mem n)
       (BERT_BINARY # be_bytes 4 (length bs) @ bs)
     else api_binary (w_set_api w_push) mem n w = Stop (Undef Out_Of_Bounds) w"
proof -
  have same: "api_binary (w_set_api w_push) mem n = w_tagged_bytes w_push BERT_BINARY 4 mem (- 1)"
    using assms(1) by (simp add: api_defs w_tagged_bytes_def sint_u32_neg_iff)
  show ?thesis
  proof (cases "0 \<in> set mem")
    case True
    then have "mem = bs @ 0 # tl (dropWhile (\<lambda>b. b \<noteq> 0) mem)"
      using assms(2) takeWhile_dropWhile_id [of "\<lambda>b. b \<noteq> 0" mem]
        hd_dropWhile [of "\<lambda>b. b \<noteq> 0" mem]
      by (metis (mono_tags, lifting) dropWhile_eq_Nil_conv list.exhaust_sel)
    moreover have "0 \<notin> set bs" using assms(2) by (auto dest: set_takeWhileD)
    ultimately show ?thesis
      using True writer_sink.emits_tagged_cstring [of 4 bs BERT_BINARY] assms(3)
      unfolding same by (metis order_refl)
  next
    case False
    then show ?thesis by (simp add: same w_tagged_bytes_def c_strlen_def)
  qed
qed

lemma binary_huge_is_cstring_witness:
  "emits w_fit w_put (api_binary (w_set_api w_push) [7, 0, 8] 3000000000) [109, 0, 0, 0, 1, 7]"
  using binary_huge_is_cstring [of 3000000000 "[7]" "[7, 0, 8]"]
  by (simp add: be_bytes_4 bert_tags)

end
