(* ===== verification/Sqlite_Port.thy ===== *)
theory Sqlite_Port
  imports Port Sqlite_Reader Bert_Writer
begin

text \<open>
  The SQLite port program, c_src/sqlite3.c: a request is a BERT term in a {packet,4} frame, the
  response is one frame per row (a list of binaries) or an error tuple, and an empty frame. The
  SQLite library is a parameter, a record of the functions the program calls over a database
  state; \<open>lib_ok\<close> states what the program relies on in its documentation. The globals db and
  stmt are state, setjmp and longjmp are the Longjmp halt and its handler in the message loop.
\<close>

section \<open>The SQLite interface\<close>

datatype step_rc = SQLITE_ROW | SQLITE_DONE | SQLITE_failed

text \<open>Memory returned through a pointer is a byte list (empty for NULL), a statement handle an
  option (None for NULL), the result of prepare whether it was SQLITE_OK.\<close>

record ('d, 'st) sqlite_lib =
  lib_open :: "'d \<Rightarrow> bool \<times> 'd"
  lib_prepare :: "u8 list \<Rightarrow> 'd \<Rightarrow> bool \<times> 'st option \<times> 'd"
  lib_bind :: "bind_t \<Rightarrow> 'st option \<Rightarrow> nat \<Rightarrow> u8 list \<Rightarrow> 'd \<Rightarrow> 'd"
  lib_step :: "'st option \<Rightarrow> 'd \<Rightarrow> step_rc \<times> 'd"
  lib_column_count :: "'st option \<Rightarrow> 'd \<Rightarrow> nat"
  lib_column_blob :: "'st option \<Rightarrow> nat \<Rightarrow> 'd \<Rightarrow> u8 list"
  lib_column_bytes :: "'st option \<Rightarrow> nat \<Rightarrow> 'd \<Rightarrow> u32"
  lib_errmsg :: "'d \<Rightarrow> u8 list"
  lib_finalize :: "'st option \<Rightarrow> 'd \<Rightarrow> 'd"
  lib_enable_load_extension :: "'d \<Rightarrow> 'd"
  lib_close :: "'d \<Rightarrow> 'd"

record ('d, 'st) sq_port = posix +
  db :: 'd
  stmt :: "'st option"

type_synonym ('d, 'st, 'a) sq_cm = "(('d, 'st) sq_port, 'a) cm"

section \<open>Sending\<close>

definition init_bytes :: "u8 option list \<Rightarrow> nat \<Rightarrow> u8 list option" where
  "init_bytes b n =
     (if n \<le> length b \<and> None \<notin> set (take n b) then Some (map the (take n b)) else None)"

definition msg_send :: "u8 option list \<Rightarrow> u32 \<Rightarrow> ('z posix_scheme, unit) cm" where
  "msg_send buf len =
     (case init_bytes buf (unat len) of
        None \<Rightarrow> stop (Undef Uninitialised)
      | Some bs \<Rightarrow> andthen (assert_write 1 bs len) (\<lambda>_. skip))"

definition sentinel :: "('z posix_scheme, unit) cm" where
  "sentinel = andthen (assert_write 1 [0, 0, 0, 0] 4) (\<lambda>_. skip)"

definition sql_error_seq :: "u8 list \<Rightarrow> write_seq" where
  "sql_error_seq msg w = statements
     [api_small_tuple w 2,
      api_atom w (bytes_of ''sqlite3_errmsg'' @ [0]) (- 1),
      api_binary w msg (- 1)]"

definition sql_error :: "('d, 'st) sqlite_lib \<Rightarrow> ('d, 'st, 'a) sq_cm" where
  "sql_error lib =
     andthen (gets (\<lambda>s. lib_errmsg lib (db s))) (\<lambda>msg.
     andthen (bert_write_packet None 4 (sql_error_seq msg) msg_send) (\<lambda>_.
     andthen sentinel (\<lambda>_. stop (Longjmp 1))))"

text \<open>A row: the memory and the length of each column.\<close>

definition sql_row_seq :: "(u8 list \<times> u32) list \<Rightarrow> write_seq" where
  "sql_row_seq cols w = statements
     [api_list w (word_of_nat (length cols)),
      for_each (\<lambda>(mem, len). api_binary w mem len) cols,
      api_nil w]"

section \<open>\<open>query\<close>\<close>

text \<open>The memory SQLite is given for an argument slice. Lengths are int there: a negative one
  makes it a C string; what one does to a blob the library does not say, here it is the same.\<close>

definition slice_memory :: "u8 list \<Rightarrow> slice \<Rightarrow> u8 list option" where
  "slice_memory buf sl =
     (if unat (sl_len sl) < 2 ^ 31
      then (if sl_off sl + unat (sl_len sl) \<le> length buf then Some (slice_data buf sl) else None)
      else map_option (\<lambda>n. take n (drop (sl_off sl) buf)) (c_strlen (drop (sl_off sl) buf)))"

definition bind_arg ::
    "('d, 'st) sqlite_lib \<Rightarrow> u8 list \<Rightarrow> slice list \<Rightarrow> nat \<Rightarrow> ('d, 'st, unit) sq_cm" where
  "bind_arg lib buf arg i =
     call_ptr (sl_bind (arg ! i)) (\<lambda>b.
       case slice_memory buf (arg ! i) of
         None \<Rightarrow> stop (Undef Out_Of_Bounds)
       | Some bs \<Rightarrow> modify (\<lambda>s. s\<lparr>db := lib_bind lib b (stmt s) i bs (db s)\<rparr>))"

primrec row_loop :: "nat \<Rightarrow> ('d, 'st) sqlite_lib \<Rightarrow> ('d, 'st, unit) sq_cm" where
  "row_loop 0 lib = stop Out_Of_Fuel"
| "row_loop (Suc n) lib = (\<lambda>s0.
     case lib_step lib (stmt s0) (db s0) of (rv, d) \<Rightarrow>
       (let s = s0\<lparr>db := d\<rparr> in
        case rv of
          SQLITE_ROW \<Rightarrow>
            (let nb_cols = lib_column_count lib (stmt s) d in
             if nb_cols = 0 then Ok () s
             else
               let col = map (\<lambda>c. (lib_column_blob lib (stmt s) c d,
                                   lib_column_bytes lib (stmt s) c d)) [0..<nb_cols] in
               andthen (bert_write_packet None 4 (sql_row_seq col) msg_send)
                 (\<lambda>_. row_loop n lib) s)
        | SQLITE_DONE \<Rightarrow> Ok () s
        | SQLITE_failed \<Rightarrow> sql_error lib s))"

definition finalize_stmt :: "('d, 'st) sqlite_lib \<Rightarrow> ('d, 'st, unit) sq_cm" where
  "finalize_stmt lib = modify (\<lambda>s. s\<lparr>db := lib_finalize lib (stmt s) (db s), stmt := None\<rparr>)"

definition prepare_stmt ::
    "('d, 'st) sqlite_lib \<Rightarrow> u8 list \<Rightarrow> ('d, 'st, unit) sq_cm" where
  "prepare_stmt lib sql = (\<lambda>s.
     case lib_prepare lib sql (db s) of (ok, st, d) \<Rightarrow>
       (if ok then skip else sql_error lib) (s\<lparr>db := d, stmt := st\<rparr>))"

text \<open>The decoder's recursion bound is the one proved sufficient in \<open>sq_decode_ends\<close>.\<close>

definition query ::
    "nat \<Rightarrow> ('d, 'st) sqlite_lib \<Rightarrow> u8 list \<Rightarrow> ('d, 'st, unit) sq_cm" where
  "query fuel lib buf = (\<lambda>s.
     case sq_decode (11 * Suc (length buf)) buf of
       Stop h r \<Rightarrow> Stop h s
     | Ok _ r \<Rightarrow>
         (if q_nb_slices r = 0 then Stop (Error ''empty statement'') s
          else
            (case slice_memory buf (q_arg r ! 0) of
               None \<Rightarrow> Stop (Undef Out_Of_Bounds) s
             | Some sql \<Rightarrow>
                 statements
                   [prepare_stmt lib sql,
                    for_each (bind_arg lib buf (q_arg r)) [1..<unat (q_nb_slices r)],
                    row_loop fuel lib,
                    finalize_stmt lib,
                    sentinel] s)))"

section \<open>The message loop\<close>

text \<open>setjmp: a longjmp out of query finalizes the statement and goes on.\<close>

definition try_query ::
    "nat \<Rightarrow> ('d, 'st) sqlite_lib \<Rightarrow> u8 list \<Rightarrow> ('d, 'st, unit) sq_cm" where
  "try_query fuel lib buf = (\<lambda>s.
     case query fuel lib buf s of
       Ok _ s' \<Rightarrow> Ok () s'
     | Stop h s' \<Rightarrow> (case h of Longjmp _ \<Rightarrow> finalize_stmt lib s' | _ \<Rightarrow> Stop h s'))"

text \<open>One iteration for a message of the given size.\<close>

definition serve_message ::
    "nat \<Rightarrow> ('d, 'st) sqlite_lib \<Rightarrow> u32 \<Rightarrow> ('d, 'st, unit) sq_cm" where
  "serve_message fuel lib msg_len =
     andthen (malloc (unat msg_len)) (\<lambda>p.
     case p of
       None \<Rightarrow> stop (Error ''malloc(0x%08x) failed'')
     | Some cap \<Rightarrow>
         andthen (assert_read_fixed 0 cap (unat msg_len)) (\<lambda>msg.
         andthen (try_query fuel lib msg) (\<lambda>_.
         free_block p)))"

primrec message_loop ::
    "nat \<Rightarrow> nat \<Rightarrow> ('d, 'st) sqlite_lib \<Rightarrow> ('d, 'st, int) sq_cm" where
  "message_loop 0 fuel lib = stop Out_Of_Fuel"
| "message_loop (Suc n) fuel lib =
     andthen (assert_read_u32 0) (\<lambda>msg_len.
     if msg_len = 0 then andthen (modify (\<lambda>s. s\<lparr>db := lib_close lib (db s)\<rparr>)) (\<lambda>_. ret 0)
     else andthen (serve_message fuel lib msg_len) (\<lambda>_. message_loop n fuel lib))"

definition sqlite_main ::
    "nat \<Rightarrow> nat \<Rightarrow> ('d, 'st) sqlite_lib \<Rightarrow> nat \<Rightarrow> ('d, 'st, int) sq_cm" where
  "sqlite_main n fuel lib argc = (\<lambda>s.
     if argc < 2 then Stop (Exit 1) s
     else
       (case lib_open lib (db s) of (rc_ok, d) \<Rightarrow>
          if \<not> rc_ok then Stop (Exit 1) (s\<lparr>db := lib_close lib d\<rparr>)
          else message_loop n fuel lib (s\<lparr>db := lib_enable_load_extension lib d\<rparr>)))"

section \<open>What the program relies on\<close>

definition lib_ok :: "('d, 'st) sqlite_lib \<Rightarrow> bool" where
  "lib_ok lib \<longleftrightarrow>
     (\<forall>st d. lib_column_count lib st d < 2 ^ 31) \<and>
     (\<forall>st c d. length (lib_column_blob lib st c d) = unat (lib_column_bytes lib st c d) \<and>
        unat (lib_column_bytes lib st c d) < 2 ^ 31) \<and>
     (\<forall>d. \<exists>cs. lib_errmsg lib d = cs @ [0] \<and> 0 \<notin> set cs \<and> length cs < 2 ^ 30)"

section \<open>The responses promised for a request\<close>

definition row_payload :: "('d, 'st) sqlite_lib \<Rightarrow> 'st option \<Rightarrow> 'd \<Rightarrow> u8 list" where
  "row_payload lib st d = BERT_START # encode (T_list
     (map (\<lambda>c. T_binary (lib_column_blob lib st c d)) [0..<lib_column_count lib st d]) T_nil)"

definition error_payload :: "('d, 'st) sqlite_lib \<Rightarrow> 'd \<Rightarrow> u8 list" where
  "error_payload lib d = BERT_START # encode (T_small_tuple
     [T_atom (bytes_of ''sqlite3_errmsg''),
      T_binary (takeWhile (\<lambda>b. b \<noteq> 0) (lib_errmsg lib d))])"

text \<open>The payloads that stepping a statement yields, whether it ended without an error, and the
  database state it leaves.\<close>

inductive steps_to ::
    "('d, 'st) sqlite_lib \<Rightarrow> 'st option \<Rightarrow> 'd \<Rightarrow> u8 list list \<Rightarrow> bool \<Rightarrow> 'd \<Rightarrow> bool"
  for lib st where
  finished: "lib_step lib st d = (SQLITE_DONE, d') \<Longrightarrow> steps_to lib st d [] True d'"
| no_columns: "lib_step lib st d = (SQLITE_ROW, d') \<Longrightarrow> lib_column_count lib st d' = 0 \<Longrightarrow>
    steps_to lib st d [] True d'"
| a_row: "lib_step lib st d = (SQLITE_ROW, d1) \<Longrightarrow> lib_column_count lib st d1 \<noteq> 0 \<Longrightarrow>
    steps_to lib st d1 fs ok d' \<Longrightarrow> steps_to lib st d (row_payload lib st d1 # fs) ok d'"
| failed: "lib_step lib st d = (SQLITE_failed, d') \<Longrightarrow>
    steps_to lib st d [error_payload lib d'] False d'"

text \<open>Binding the arguments, counted from 1, and a whole request.\<close>

fun bind_all ::
    "('d, 'st) sqlite_lib \<Rightarrow> 'st option \<Rightarrow> nat \<Rightarrow> sql_arg list \<Rightarrow> 'd \<Rightarrow> 'd" where
  "bind_all lib st i [] d = d"
| "bind_all lib st i ((b, bs) # args) d =
     bind_all lib st (Suc i) args (lib_bind lib (arg_bind b) st i bs d)"

inductive serves ::
    "('d, 'st) sqlite_lib \<Rightarrow> 'd \<Rightarrow> u8 list \<times> sql_arg list \<Rightarrow> u8 list list \<Rightarrow> 'd \<Rightarrow> bool"
  for lib where
  rejected: "lib_prepare lib sql d = (False, st, d1) \<Longrightarrow>
    serves lib d (sql, args) [error_payload lib d1] (lib_finalize lib st d1)"
| executed: "lib_prepare lib sql d = (True, st, d1) \<Longrightarrow>
    steps_to lib st (bind_all lib st 1 args d1) fs ok d2 \<Longrightarrow>
    serves lib d (sql, args) fs (lib_finalize lib st d2)"

inductive_cases serves_cases: "serves lib d (sql, args) fs d'"

section \<open>Sending refines framing\<close>

text \<open>What a part of the program does to the port state: bytes sent, database and statement.\<close>

definition sent ::
    "('d, 'st) sq_port \<Rightarrow> u8 list \<Rightarrow> 'd \<Rightarrow> 'st option \<Rightarrow> ('d, 'st) sq_port \<Rightarrow> bool" where
  "sent s bs d st s' \<longleftrightarrow> writable 1 s' \<and> out s' 1 = out s 1 @ bs \<and> rd s' = rd s \<and>
     malloc_max s' = malloc_max s \<and> live_blocks s' = live_blocks s \<and> db s' = d \<and> stmt s' = st"

lemma wrote_sq: "wrote fd bs s t \<Longrightarrow> db t = db s \<and> stmt t = stmt s"
  by (auto simp: wrote_def)

lemma wrote_sent: "wrote 1 bs s t \<Longrightarrow> writable 1 t \<Longrightarrow> sent s bs (db s) (stmt s) t"
  by (simp add: sent_def wrote_sq frame_simps)

lemma sent_trans: "sent s xs d st t \<Longrightarrow> sent t ys d' st' u \<Longrightarrow> sent s (xs @ ys) d' st' u"
  by (simp add: sent_def)

lemma init_bytes_Some: "init_bytes (map Some bs) (length bs) = Some bs"
  by (auto simp: init_bytes_def)

lemma send_ok:
  assumes "writable 1 s" and "seq_emits seq bs" and "length bs < 2 ^ 31 - 5"
  obtains s' where "bert_write_packet None 4 seq msg_send s = Ok () s'"
    "sent s (frame (BERT_START # bs)) (db s) (stmt s) s'"
proof -
  let ?f = "be_bytes 4 (1 + length bs) @ BERT_START # bs"
  have len: "length ?f = 4 + 1 + length bs" by simp
  have u: "unat (word_of_nat (length ?f) :: u32) = length ?f"
    using assms(3) by (intro unat_u32_of_nat) simp
  have "bert_write_packet None (word_of_nat 4) seq msg_send s =
      msg_send (map Some ?f) (word_of_nat (4 + 1 + length bs)) s"
    using assms by (intro write_packet_ok) auto
  also have "\<dots> = msg_send (map Some ?f) (word_of_nat (length ?f)) s" by (simp only: len)
  also have "\<dots> = write_bytes 1 ?f s"
    unfolding msg_send_def u init_bytes_Some write_bytes_def by simp
  finally have run: "bert_write_packet None 4 seq msg_send s = write_bytes 1 ?f s" by simp
  obtain s' where "write_bytes 1 ?f s = Ok () s'" "writable 1 s'" "wrote 1 ?f s s'"
    using port_writer.put_ready [OF assms(1), of ?f] assms(3) by auto
  with run that [of s'] wrote_sent [of ?f s s'] show thesis by (simp add: frame_def)
qed

lemma sentinel_ok:
  assumes "writable 1 s"
  obtains s' where "sentinel s = Ok () s'" "sent s (frame []) (db s) (stmt s) s'"
proof -
  obtain s' where "assert_write 1 [0, 0, 0, 0] 4 s = Ok 4 s'" "writable 1 s'"
    "wrote 1 [0, 0, 0, 0] s s'"
    using assert_write_ok [OF assms, of "[0, 0, 0, 0]"] by auto
  with that [of s'] wrote_sent [of "[0, 0, 0, 0]" s s'] show thesis
    by (simp add: sentinel_def frame_def be_bytes_4 io_simps)
qed

lemma row_seq_emits:
  assumes "\<forall>(mem, len) \<in> set cols. length mem = unat len \<and> unat len < 2 ^ 31"
    and "length cols < 2 ^ 31"
  shows "seq_emits (sql_row_seq cols)
    (encode (T_list (map (\<lambda>(mem, len). T_binary mem) cols) T_nil))"
proof -
  let ?api = "w_set_api w_push"
  have cell: "emits w_fit w_put (api_binary ?api mem len) (encode (T_binary mem))"
    if "(mem, len) \<in> set cols" for mem len
    using that assms(1) writer_sink.emits_tagged_bytes [of 4 mem BERT_BINARY "[]"]
    by (auto simp: api_defs)
  then have "emits w_fit w_put (for_each (\<lambda>(mem, len). api_binary ?api mem len) cols)
      (concat (map (\<lambda>(mem, len). encode (T_binary mem)) cols))"
    by (intro writer_sink.emits_for_each) auto
  moreover have "concat (map (\<lambda>(mem, len). encode (T_binary mem)) cols) =
      encode_all (map (\<lambda>(mem, len). T_binary mem) cols)"
    by (induction cols) auto
  ultimately have rows: "emits w_fit w_put (for_each (\<lambda>(mem, len). api_binary ?api mem len) cols)
      (encode_all (map (\<lambda>(mem, len). T_binary mem) cols))" by simp
  have n: "unat (word_of_nat (length cols) :: u32) = length cols"
    using assms(2) by (intro unat_u32_of_nat) simp
  have "emits w_fit w_put (api_list ?api (word_of_nat (length cols)))
      (BERT_LIST # be_bytes 4 (length cols))"
    using writer_sink.emits_tagged_size [of 4 BERT_LIST "word_of_nat (length cols)"] n
    by (simp add: api_defs)
  from writer_sink.emits_andthen [OF this writer_sink.emits_andthen [OF rows
        writer_sink.emits_andthen [OF writer_sink.emits_push [of BERT_NIL] writer_sink.emits_skip]]]
  show ?thesis by (simp add: sql_row_seq_def api_defs skip_def ret_def)
qed

lemma error_seq_emits:
  assumes "msg = cs @ [0]" and "0 \<notin> set cs" and "length cs < 2 ^ 31"
  shows "seq_emits (sql_error_seq msg)
    (encode (T_small_tuple [T_atom (bytes_of ''sqlite3_errmsg''), T_binary cs]))"
proof -
  let ?name = "bytes_of ''sqlite3_errmsg''"
  have name: "0 \<notin> set ?name" by (simp add: bytes_of_def)
  have tup: "emits w_fit w_put (w_tagged_size w_push BERT_SMALL_TUPLE 1 2) (BERT_SMALL_TUPLE # [2])"
    using writer_sink.emits_tagged_size [of 1 BERT_SMALL_TUPLE 2] by simp
  have atom: "emits w_fit w_put (w_tagged_bytes w_push BERT_ATOM 2 (?name @ [0]) (- 1))
      (BERT_ATOM # be_bytes 2 (length ?name) @ ?name)"
    using name by (intro writer_sink.emits_tagged_cstring) auto
  have bin: "emits w_fit w_put (w_tagged_bytes w_push BERT_BINARY 4 msg (- 1))
      (BERT_BINARY # be_bytes 4 (length cs) @ cs)"
    unfolding assms(1) using assms(2,3) by (intro writer_sink.emits_tagged_cstring) auto
  from writer_sink.emits_andthen [OF tup writer_sink.emits_andthen [OF atom
        writer_sink.emits_andthen [OF bin writer_sink.emits_skip]]]
  show ?thesis by (simp add: sql_error_seq_def api_defs skip_def ret_def)
qed

lemma row_columns:
  assumes "lib_ok lib"
  shows "seq_emits (sql_row_seq (map (\<lambda>c. (lib_column_blob lib st c d, lib_column_bytes lib st c d))
      [0..<lib_column_count lib st d]))
    (encode (T_list (map (\<lambda>c. T_binary (lib_column_blob lib st c d))
      [0..<lib_column_count lib st d]) T_nil))"
  using row_seq_emits [of "map (\<lambda>c. (lib_column_blob lib st c d, lib_column_bytes lib st c d))
      [0..<lib_column_count lib st d]"] assms
  by (auto simp: lib_ok_def comp_def)

lemma sql_error_ok:
  assumes "lib_ok lib" and "writable 1 s"
  obtains s' where "sql_error lib s = Stop (Longjmp 1) s'"
    "sent s (frame (error_payload lib (db s)) @ frame []) (db s) (stmt s) s'"
proof -
  obtain cs where cs: "lib_errmsg lib (db s) = cs @ [0]" "0 \<notin> set cs" "length cs < 2 ^ 30"
    using assms(1) unfolding lib_ok_def by blast
  then have pre: "takeWhile (\<lambda>b. b \<noteq> 0) (cs @ [0]) = cs" by (subst takeWhile_append2) auto
  let ?e = "encode (T_small_tuple [T_atom (bytes_of ''sqlite3_errmsg''), T_binary cs])"
  obtain t where t: "bert_write_packet None 4 (sql_error_seq (cs @ [0])) msg_send s = Ok () t"
    "sent s (frame (BERT_START # ?e)) (db s) (stmt s) t"
    using send_ok [where seq = "sql_error_seq (cs @ [0])" and bs = ?e and s = s]
      error_seq_emits [of "cs @ [0]" cs] cs assms(2) by auto
  then obtain u where "sentinel t = Ok () u" "sent t (frame []) (db t) (stmt t) u"
    using sentinel_ok [of t] by (auto simp: sent_def)
  with t that [of u] sent_trans [of s _ _ _ t "frame []" "db t" "stmt t" u] show thesis
    by (auto simp: sql_error_def io_simps cs(1) error_payload_def pre) (auto simp: sent_def)
qed

lemma row_loop_refines:
  assumes "steps_to lib st d fs ok d'" and "lib_ok lib" and "\<forall>f \<in> set fs. length f < 2 ^ 31 - 4"
    and "writable 1 s" and "stmt s = st" and "db s = d" and "length fs < n"
  shows "\<exists>s'. row_loop n lib s = (if ok then Ok () s' else Stop (Longjmp 1) s') \<and>
    sent s (concat (map frame fs) @ (if ok then [] else frame [])) d' st s'"
  using assms
proof (induction arbitrary: s n rule: steps_to.induct)
  case (finished d d')
  then show ?case by (cases n) (auto simp: sent_def writable_def)
next
  case (no_columns d d')
  then show ?case by (cases n) (auto simp: sent_def writable_def)
next
  case (a_row d d1 fs ok d')
  then obtain m where n: "n = Suc m" by (cases n) auto
  let ?s = "s\<lparr>db := d1\<rparr>"
  let ?cols = "map (\<lambda>c. (lib_column_blob lib st c d1, lib_column_bytes lib st c d1))
      [0..<lib_column_count lib st d1]"
  let ?e = "encode (T_list (map (\<lambda>c. T_binary (lib_column_blob lib st c d1))
      [0..<lib_column_count lib st d1]) T_nil)"
  have "seq_emits (sql_row_seq ?cols) ?e" by (rule row_columns [OF a_row.prems(1)])
  moreover have "length ?e < 2 ^ 31 - 5" "writable 1 ?s"
    using a_row.prems(2,3) by (auto simp: row_payload_def writable_def)
  ultimately obtain t where t: "bert_write_packet None 4 (sql_row_seq ?cols) msg_send ?s = Ok () t"
    "sent ?s (frame (row_payload lib st d1)) d1 st t"
    using send_ok [where seq = "sql_row_seq ?cols" and bs = ?e and s = ?s] a_row.prems(4)
    by (auto simp: row_payload_def)
  with a_row.IH [of t m] a_row.prems n obtain u where
    "row_loop m lib t = (if ok then Ok () u else Stop (Longjmp 1) u)"
    "sent t (concat (map frame fs) @ (if ok then [] else frame [])) d' st u"
    by (auto simp: sent_def)
  with t a_row n show ?case
    by (auto simp: Let_def sent_def split: if_splits)
next
  case (failed d d')
  then obtain m where n: "n = Suc m" by (cases n) auto
  have e: "row_loop n lib s = sql_error lib (s\<lparr>db := d'\<rparr>)" using failed n by simp
  obtain t where "row_loop n lib s = Stop (Longjmp 1) t"
    "sent (s\<lparr>db := d'\<rparr>) (frame (error_payload lib d') @ frame []) d' (stmt s) t"
    using sql_error_ok [OF failed.prems(1), of "s\<lparr>db := d'\<rparr>"] failed.prems
    unfolding e by (auto simp: writable_def)
  with failed show ?case by (auto simp: sent_def)
qed

section \<open>A request refines its response\<close>

lemma bind_loop:
  assumes "\<forall>j < length args. sl_bind (arg ! (i + j)) = Some (arg_bind (fst (args ! j))) \<and>
      slice_memory buf (arg ! (i + j)) = Some (snd (args ! j))"
  shows "for_each (bind_arg lib buf arg) [i..<i + length args] s =
    Ok () (s\<lparr>db := bind_all lib (stmt s) i args (db s)\<rparr>)"
  using assms
proof (induction args arbitrary: i s)
  case (Cons a args)
  obtain b bs where a: "a = (b, bs)" by fastforce
  from Cons.prems have "bind_arg lib buf arg i s = Ok () (s\<lparr>db := lib_bind lib (arg_bind b) (stmt s) i bs (db s)\<rparr>)"
    by (auto simp: bind_arg_def a)
  moreover have "\<forall>j < length args. sl_bind (arg ! (Suc i + j)) = Some (arg_bind (fst (args ! j))) \<and>
      slice_memory buf (arg ! (Suc i + j)) = Some (snd (args ! j))"
    using Cons.prems by (metis add_Suc_right add_Suc_shift length_Cons not_less_eq nth_Cons_Suc)
  ultimately show ?case
    using Cons.IH [of "Suc i" "s\<lparr>db := lib_bind lib (arg_bind b) (stmt s) i bs (db s)\<rparr>"]
    by (simp add: a upt_conv_Cons del: upt_Suc)
qed simp

definition request :: "bool \<Rightarrow> u8 list \<times> sql_arg list \<Rightarrow> u8 list" where
  "request small q = BERT_START # encode (query_term small (fst q) (snd q))"

definition request_ok :: "bool \<Rightarrow> u8 list \<times> sql_arg list \<Rightarrow> bool" where
  "request_ok small q \<longleftrightarrow> length (snd q) < MAX_NB_SLICES \<and> length (request small q) < 2 ^ 31 \<and>
     fits (query_term small (fst q) (snd q))"

text \<open>The reader delivers a request's arguments where query looks for them.\<close>

lemma slice_memory_inside:
  assumes "sq_inv r" and "slices_inside r" and "j < unat (q_nb_slices r)"
    and "length (q_buf r) < 2 ^ 31"
  shows "slice_memory (q_buf r) (q_arg r ! j) = Some (slice_data (q_buf r) (q_arg r ! j))"
proof -
  have "q_arg r ! j \<in> set (take (unat (q_nb_slices r)) (q_arg r))"
    using assms(1,3) by (auto simp: sq_inv_def in_set_conv_nth intro!: exI [of _ j])
  with assms(2) have "sl_off (q_arg r ! j) + unat (sl_len (q_arg r ! j)) \<le> length (q_buf r)"
    by (simp add: slices_inside_def)
  then show ?thesis using assms(4) by (simp add: slice_memory_def)
qed

lemma request_decoded:
  assumes "request_ok small (sql, args)"
  obtains r where "sq_decode (11 * Suc (length (request small (sql, args)))) (request small (sql, args))
      = Ok None r"
    "unat (q_nb_slices r) = Suc (length args)"
    "slice_memory (request small (sql, args)) (q_arg r ! 0) = Some sql"
    "\<forall>j < length args. sl_bind (q_arg r ! Suc j) = Some (arg_bind (fst (args ! j))) \<and>
      slice_memory (request small (sql, args)) (q_arg r ! Suc j) = Some (snd (args ! j))"
proof -
  let ?m = "request small (sql, args)"
  let ?a = "(Some Bind_text, sql) # map (\<lambda>(b, d). (Some (arg_bind b), d)) args"
  have d: "depth (query_term small sql args) \<le> 11 * Suc (length ?m)"
    using query_term_depth [of small sql args] by simp
  have "tracks flat_view sq_rest (sq_good ?m) [] (sq_decode (11 * Suc (length ?m)) ?m)
      (fold_term flatten (query_term small sql args) flat_empty)"
    using sq_decode_tracks [OF _ _ d, of "[]"] assms by (simp add: request_ok_def request_def)
  with flatten_query [of args small sql] assms obtain r where
    r: "sq_decode (11 * Suc (length ?m)) ?m = Ok None r"
    "\<lparr>fl_slices = ?a, fl_bind = Some Bind_text\<rparr> = flat_view r" "sq_good ?m r"
    by (auto simp: tracks_def request_ok_def split: res.splits)
  then have good: "sq_inv r" "slices_inside r" "q_buf r = ?m" by (simp_all add: sq_good_def)
  have view: "?a = map (\<lambda>sl. (sl_bind sl, slice_data ?m sl)) (take (unat (q_nb_slices r)) (q_arg r))"
    using arg_cong [OF r(2), of fl_slices] by (simp add: flat_view_def good(3))
  have n: "unat (q_nb_slices r) = Suc (length args)"
    using arg_cong [OF view, of length] good(1) by (simp add: sq_inv_def)
  have at: "sl_bind (q_arg r ! j) = fst (?a ! j) \<and> slice_memory ?m (q_arg r ! j) = Some (snd (?a ! j))"
    if "j < Suc (length args)" for j
  proof -
    have "?a ! j = (sl_bind (q_arg r ! j), slice_data ?m (q_arg r ! j))"
      using that good(1) n unfolding view by (simp add: sq_inv_def)
    moreover have "slice_memory (q_buf r) (q_arg r ! j) = Some (slice_data (q_buf r) (q_arg r ! j))"
      using slice_memory_inside [OF good(1,2), of j] that n good(3) assms
      by (simp add: request_ok_def)
    ultimately show ?thesis by (simp add: good(3))
  qed
  have "\<forall>j < length args. sl_bind (q_arg r ! Suc j) = Some (arg_bind (fst (args ! j))) \<and>
      slice_memory ?m (q_arg r ! Suc j) = Some (snd (args ! j))"
    using at [of "Suc _"] by (auto simp: case_prod_beta)
  with that [OF r(1) n] at [of 0] show thesis by simp
qed

text \<open>So query on a request prepares its text, binds its arguments and steps.\<close>

lemma query_on_request:
  assumes "request_ok small (sql, args)"
  shows "query fuel lib (request small (sql, args)) s = statements
    [prepare_stmt lib sql,
     modify (\<lambda>s. s\<lparr>db := bind_all lib (stmt s) 1 args (db s)\<rparr>),
     row_loop fuel lib, finalize_stmt lib, sentinel] s"
proof -
  let ?m = "request small (sql, args)"
  obtain r where r: "sq_decode (11 * Suc (length ?m)) ?m = Ok None r"
    "unat (q_nb_slices r) = Suc (length args)" "slice_memory ?m (q_arg r ! 0) = Some sql"
    "\<forall>j < length args. sl_bind (q_arg r ! Suc j) = Some (arg_bind (fst (args ! j))) \<and>
      slice_memory ?m (q_arg r ! Suc j) = Some (snd (args ! j))"
    using request_decoded [OF assms] .
  have "for_each (bind_arg lib ?m (q_arg r)) [1..<unat (q_nb_slices r)] =
      modify (\<lambda>s. s\<lparr>db := bind_all lib (stmt s) 1 args (db s)\<rparr>)"
    using bind_loop [of args "q_arg r" 1 ?m lib] r(2,4) by (intro ext) simp
  moreover have "q_nb_slices r \<noteq> 0" using r(2) by auto
  ultimately show ?thesis by (simp only: query_def r res.case option.case if_False)
qed

definition responses :: "u8 list list \<Rightarrow> u8 list" where
  "responses fs = concat (map frame fs) @ frame []"

lemma try_query_refines:
  fixes lib :: "('a, 'b) sqlite_lib"
  assumes "serves lib (db s) (sql, args) fs d'" and "lib_ok lib" and "request_ok small (sql, args)"
    and "\<forall>f \<in> set fs. length f < 2 ^ 31 - 4" and "writable 1 s" and "length fs < fuel"
  shows "\<exists>s'. try_query fuel lib (request small (sql, args)) s = Ok () s' \<and>
    sent s (responses fs) d' None s'"
proof -
  consider
    (rejected) st d1 where "lib_prepare lib sql (db s) = (False, st, d1)"
      "fs = [error_payload lib d1]" "d' = lib_finalize lib st d1"
  | (executed) st d1 ok d2 where "lib_prepare lib sql (db s) = (True, st, d1)"
      "steps_to lib st (bind_all lib st 1 args d1) fs ok d2" "d' = lib_finalize lib st d2"
    using assms(1) unfolding One_nat_def by (rule serves_cases) blast+
  then show ?thesis
  proof cases
    case rejected
    have "writable 1 (s\<lparr>db := d1, stmt := st\<rparr>)" using assms(5) by (simp add: writable_def)
    from sql_error_ok [OF assms(2) this] obtain t where
      "(sql_error lib :: ('a, 'b, unit) sq_cm) (s\<lparr>db := d1, stmt := st\<rparr>) = Stop (Longjmp 1) t"
      "sent (s\<lparr>db := d1, stmt := st\<rparr>) (frame (error_payload lib d1) @ frame []) d1 st t"
      by auto
    with rejected show ?thesis
      by (auto simp: try_query_def query_on_request [OF assms(3)] prepare_stmt_def finalize_stmt_def
          responses_def sent_def writable_def io_simps)
  next
    case executed
    let ?s = "s\<lparr>stmt := st, db := bind_all lib st 1 args d1\<rparr>"
    have "writable 1 ?s" using assms(5) by (simp add: writable_def)
    with row_loop_refines [OF executed(2) assms(2,4), of ?s fuel] assms(6) obtain t where
      t: "row_loop fuel lib ?s = (if ok then Ok () t else Stop (Longjmp 1) t)"
      "sent ?s (concat (map frame fs) @ (if ok then [] else frame [])) d2 st t"
      by auto
    let ?t = "t\<lparr>db := d', stmt := None\<rparr>"
    show ?thesis
    proof (cases ok)
      case True
      have "writable 1 ?t" using t by (simp add: sent_def writable_def)
      then obtain u where "sentinel ?t = Ok () u" "sent ?t (frame []) d' None u"
        using sentinel_ok [of ?t] by auto
      with True t executed show ?thesis
        by (auto simp: try_query_def query_on_request [OF assms(3)] prepare_stmt_def
            finalize_stmt_def responses_def sent_def io_simps)
    next
      case False
      with t executed show ?thesis
        by (auto simp: try_query_def query_on_request [OF assms(3)] prepare_stmt_def
            finalize_stmt_def responses_def sent_def writable_def io_simps)
    qed
  qed
qed

section \<open>A session refines a sequence of requests\<close>

inductive session ::
    "('d, 'st) sqlite_lib \<Rightarrow> 'd \<Rightarrow> (u8 list \<times> sql_arg list) list \<Rightarrow> u8 list list list \<Rightarrow>
      'd \<Rightarrow> bool"
  for lib where
  idle_session: "session lib d [] [] d"
| next_request: "serves lib d q fs d1 \<Longrightarrow> session lib d1 qs fss d2 \<Longrightarrow>
    session lib d (q # qs) (fs # fss) d2"

inductive_cases session_Cons: "session lib d (q # qs) fss d'"
inductive_cases session_Nil: "session lib d [] fss d'"

definition progressed ::
    "('d, 'st) sq_port \<Rightarrow> u8 list \<Rightarrow> u8 list \<Rightarrow> 'd \<Rightarrow> ('d, 'st) sq_port \<Rightarrow> bool" where
  "progressed s rest bs d t \<longleftrightarrow> readable 0 t \<and> pending 0 t = rest \<and> writable 1 t \<and>
     out t 1 = out s 1 @ bs \<and> malloc_max t = malloc_max s \<and> live_blocks t = live_blocks s \<and>
     db t = d"

lemma progressed_trans:
  "progressed s r1 xs d1 t \<Longrightarrow> progressed t r2 ys d2 u \<Longrightarrow> progressed s r2 (xs @ ys) d2 u"
  by (simp add: progressed_def)

definition sendable :: "nat \<Rightarrow> u8 list list \<Rightarrow> bool" where
  "sendable fuel fs \<longleftrightarrow> length fs < fuel \<and> (\<forall>f \<in> set fs. length f < 2 ^ 31 - 4)"

lemma same_but_rd_sq: "same_but_rd fd s t \<Longrightarrow> db t = db s \<and> stmt t = stmt s"
  by (auto simp: same_but_rd_def)

lemma serve_message_refines:
  assumes "serves lib (db s) q fs d'" and "lib_ok lib" and "request_ok small q"
    and "length (request small q) \<le> malloc_max s" and "sendable fuel fs"
    and "readable 0 s" "writable 1 s" "pending 0 s = request small q @ rest"
  obtains t where "serve_message fuel lib (word_of_nat (length (request small q))) s = Ok () t"
    "progressed s rest (responses fs) d' t"
proof -
  let ?m = "request small q"
  let ?s = "s\<lparr>live_blocks := Suc (live_blocks s)\<rparr>"
  have n: "unat (word_of_nat (length ?m) :: u32) = length ?m"
    using assms(3) by (intro unat_u32_of_nat) (simp add: request_ok_def)
  obtain s1 where s1: "assert_read_fixed 0 (length ?m) (length ?m) ?s = Ok ?m s1"
    "pending 0 s1 = rest" "readable 0 s1" "same_but_rd 0 ?s s1"
    using fixed_reader.fetch_prefix [of 0 ?s ?m rest] assms(6,8) by auto
  have d: "db s1 = db s" using same_but_rd_sq [OF s1(4)] by simp
  have w: "writable 1 s1" using s1(4) assms(7) by (simp add: frame_simps)
  obtain sql args where q: "q = (sql, args)" by fastforce
  have "\<exists>s2. try_query fuel lib ?m s1 = Ok () s2 \<and> sent s1 (responses fs) d' None s2"
    using try_query_refines [of lib s1 sql args fs d' small fuel] assms(1,2,3,5) w
    by (simp add: d q sendable_def)
  then obtain s2 where s2: "try_query fuel lib ?m s1 = Ok () s2" "sent s1 (responses fs) d' None s2"
    by blast
  let ?t = "s2\<lparr>live_blocks := live_blocks s2 - 1\<rparr>"
  have "serve_message fuel lib (word_of_nat (length ?m)) s = Ok () ?t"
    using s1(1) s2(1) assms(4) by (simp add: serve_message_def n malloc_ok io_simps free_block_def)
  moreover have "progressed s rest (responses fs) d' ?t"
    using s1 s2(2) by (auto simp: progressed_def sent_def frame_simps pending_def readable_def)
  ultimately show thesis by (rule that)
qed

text \<open>Each request of a session is one turn of the message loop.\<close>

lemma requests_served:
  assumes "session lib (db s) qs fss d'" and "lib_ok lib"
    and "\<forall>q \<in> set qs. request_ok small q \<and> length (request small q) \<le> malloc_max s"
    and "\<forall>fs \<in> set fss. sendable fuel fs"
    and "readable 0 s" "writable 1 s"
    and "pending 0 s = concat (map (\<lambda>q. frame (request small q)) qs) @ rest"
  shows "\<exists>t. message_loop (length qs + n) fuel lib s = message_loop n fuel lib t \<and>
    progressed s rest (concat (map responses fss)) d' t"
  using assms
proof (induction qs arbitrary: s fss)
  case Nil
  from Nil.prems(1) have "fss = []" "d' = db s" by (auto elim: session_Nil)
  with Nil.prems show ?case by (auto simp: progressed_def)
next
  case (Cons q qs)
  from Cons.prems(1) obtain fs gss d1 where
    fs: "serves lib (db s) q fs d1" "session lib d1 qs gss d'" "fss = fs # gss"
    by (rule session_Cons)
  let ?m = "request small q"
  let ?rest = "concat (map (\<lambda>q. frame (request small q)) qs) @ rest"
  have m: "length ?m < 2 ^ 31" "?m \<noteq> []"
    using Cons.prems(3) by (simp_all add: request_ok_def request_def)
  have stream: "pending 0 s = be_bytes 4 (length ?m) @ ?m @ ?rest"
    using Cons.prems(7) by (simp add: frame_def)
  obtain s1 where s1: "assert_read_u32 0 s = Ok (word_of_nat (length ?m)) s1"
    "pending 0 s1 = ?m @ ?rest" "readable 0 s1" "same_but_rd 0 s s1"
    using read_u32_data [OF Cons.prems(5) stream] m(1) by auto
  have keep: "db s1 = db s" "malloc_max s1 = malloc_max s" "live_blocks s1 = live_blocks s"
    "out s1 = out s" "writable 1 s1"
    using same_but_rd_sq [OF s1(4)] s1(4) Cons.prems(6) by (simp_all add: frame_simps)
  obtain t where t: "serve_message fuel lib (word_of_nat (length ?m)) s1 = Ok () t"
    "progressed s1 ?rest (responses fs) d1 t"
    using serve_message_refines [of lib s1 q fs d1 small fuel ?rest] Cons.prems(2,3,4) fs(1,3)
      s1(2,3) keep by auto
  have "unat (word_of_nat (length ?m) :: u32) = length ?m"
    using m(1) by (intro unat_u32_of_nat) simp
  with m(2) have "(word_of_nat (length ?m) :: u32) \<noteq> 0" by (metis length_0_conv unat_0)
  then have turn: "message_loop (length (q # qs) + n) fuel lib s = message_loop (length qs + n) fuel lib t"
    using s1(1) t(1) by (simp add: io_simps)
  have "progressed s ?rest (responses fs) d1 t"
    using t(2) keep by (simp add: progressed_def)
  moreover from this have "\<exists>u. message_loop (length qs + n) fuel lib t = message_loop n fuel lib u \<and>
      progressed t rest (concat (map responses gss)) d' u"
    using Cons.prems(2,3,4) fs(2,3) by (intro Cons.IH) (auto simp: progressed_def)
  ultimately show ?case
    unfolding turn fs(3) using progressed_trans by fastforce
qed

interpretation sq_loop: packet_loop 0 "message_loop (Suc n) fuel lib" for n fuel lib
  unfolding message_loop.simps by (rule packet_loop_read)

lemma sq_more: "posix.more s = posix.more t \<Longrightarrow> db s = db t \<and> stmt s = stmt t"
  by (cases s, cases t) simp

section \<open>Properties\<close>

text \<open>A small library for the witnesses: a database is the number of rows a step still yields
  (one at most) and the number of open statements, a row has one column, the empty query is an
  error.\<close>

definition toy_lib :: "(nat \<times> int, u8 list) sqlite_lib" where
  "toy_lib = \<lparr>
     lib_open = (\<lambda>d. (True, d)),
     lib_prepare = (\<lambda>sql (rows, opens).
       if sql = [] then (False, None, (rows, opens)) else (True, Some sql, (1, opens + 1))),
     lib_bind = (\<lambda>b st i bs d. d),
     lib_step = (\<lambda>st (rows, opens).
       if rows = 1 then (SQLITE_ROW, (0, opens)) else (SQLITE_DONE, (0, opens))),
     lib_column_count = (\<lambda>st d. 1),
     lib_column_blob = (\<lambda>st c d. [42]),
     lib_column_bytes = (\<lambda>st c d. 1),
     lib_errmsg = (\<lambda>d. [66, 0]),
     lib_finalize = (\<lambda>st (rows, opens). (0, if st = None then opens else opens - 1)),
     lib_enable_load_extension = (\<lambda>d. d),
     lib_close = (\<lambda>d. d)\<rparr>"

lemma toy_lib_fields [simp]:
  "lib_open toy_lib d = (True, d)"
  "lib_prepare toy_lib sql (rows, opens) =
     (if sql = [] then (False, None, (rows, opens)) else (True, Some sql, (1, opens + 1)))"
  "lib_bind toy_lib b st i bs d = d"
  "lib_step toy_lib st (rows, opens) =
     (if rows = 1 then (SQLITE_ROW, (0, opens)) else (SQLITE_DONE, (0, opens)))"
  "lib_column_count toy_lib st d = 1" "lib_column_blob toy_lib st c d = [42]"
  "lib_column_bytes toy_lib st c d = 1" "lib_errmsg toy_lib d = [66, 0]"
  "lib_finalize toy_lib st (rows, opens) = (0, if st = None then opens else opens - 1)"
  "lib_enable_load_extension toy_lib d = d" "lib_close toy_lib d = d"
  by (simp_all add: toy_lib_def)

lemma toy_lib_ok: "lib_ok toy_lib"
  by (auto simp: lib_ok_def toy_lib_def intro!: exI [of _ "[66]"])

definition toy_state :: "rd_event list \<Rightarrow> (nat \<times> int, u8 list) sq_port" where
  "toy_state q = \<lparr>rd = (\<lambda>_. [])(0 := q), wr = (\<lambda>_. []), out = (\<lambda>_. []), malloc_max = 1000,
     live_blocks = 0, db = (0, 0), stmt = None\<rparr>"

lemma toy_state_simps [simp]:
  "readable 0 (toy_state q) = script_ok q" "writable 1 (toy_state q)"
  "pending 0 (toy_state q) = script_bytes q" "out (toy_state q) fd = []"
  "malloc_max (toy_state q) = 1000" "live_blocks (toy_state q) = 0"
  "db (toy_state q) = (0, 0)" "stmt (toy_state q) = None"
  by (simp_all add: toy_state_def readable_def writable_def pending_def)

text \<open>C1: The program is a faithful server: fed any sequence of requests as sqlite3.erl sends
  them, each in its frame, cut into segments anyhow, and the empty frame that ends the session,
  it executes them in order and answers each with one frame per row of the result (or the error
  message) and one empty frame, closes the database, has freed every message, returns 0 and has
  not read on.\<close>

theorem sqlite_session_refines:
  assumes "2 \<le> argc" and "lib_open lib (db s) = (True, d0)"
    and "session lib (lib_enable_load_extension lib d0) qs fss d'" and "lib_ok lib"
    and "\<forall>q \<in> set qs. request_ok small q \<and> length (request small q) \<le> malloc_max s"
    and "\<forall>fs \<in> set fss. sendable fuel fs" and "length qs < n"
    and "readable 0 s" "writable 1 s"
    and "pending 0 s = concat (map (\<lambda>q. frame (request small q)) qs) @ frame [] @ rest"
  shows "\<exists>t. sqlite_main n fuel lib argc s = Ok 0 t \<and>
    out t 1 = out s 1 @ concat (map responses fss) \<and> db t = lib_close lib d' \<and>
    live_blocks t = live_blocks s \<and> pending 0 t = rest"
proof -
  let ?s = "s\<lparr>db := lib_enable_load_extension lib d0\<rparr>"
  obtain m where m: "n = length qs + Suc m"
    using assms(7) by (metis add_Suc_right less_iff_Suc_add)
  have "\<exists>t. message_loop (length qs + Suc m) fuel lib ?s = message_loop (Suc m) fuel lib t \<and>
      progressed ?s (frame [] @ rest) (concat (map responses fss)) d' t"
    using assms by (intro requests_served) (auto simp: readable_def writable_def pending_def)
  then obtain t where t: "message_loop n fuel lib ?s = message_loop (Suc m) fuel lib t"
    "progressed ?s (frame [] @ rest) (concat (map responses fss)) d' t"
    using m by auto
  then have "pending 0 t = be_bytes 4 0 @ rest" "readable 0 t"
    by (simp_all add: progressed_def frame_def)
  then obtain u where u: "assert_read_u32 0 t = Ok 0 u" "pending 0 u = rest" "same_but_rd 0 t u"
    using read_u32_data [of 0 t 0 rest] by auto
  then have "sqlite_main n fuel lib argc s = Ok 0 (u\<lparr>db := lib_close lib (db u)\<rparr>)"
    using assms(1,2) t(1) by (simp add: sqlite_main_def io_simps)
  then show ?thesis
    using u t(2) same_but_rd_sq [OF u(3)] by (auto simp: progressed_def frame_simps pending_def)
qed

definition toy_requests :: "(u8 list \<times> sql_arg list) list" where
  "toy_requests = [([113], [(Some Bind_blob, [1])]), ([], [])]"

definition toy_responses :: "u8 list list list" where
  "toy_responses = [[[131, 108, 0, 0, 0, 1, 109, 0, 0, 0, 1, 42, 106]],
     [[131, 104, 2, 100, 0, 14] @ bytes_of ''sqlite3_errmsg'' @ [109, 0, 0, 0, 1, 66]]]"

lemma toy_step:
  "steps_to toy_lib (Some [113]) (1, 1) [row_payload toy_lib (Some [113]) (0, 1)] True (0, 1)"
proof -
  have "steps_to toy_lib (Some [113]) (0, 1) [] True (0, 1)"
    by (rule steps_to.finished) simp
  then show ?thesis by (rule steps_to.a_row [rotated 2]) simp_all
qed

lemma toy_query:
  "serves toy_lib (0, 0) ([113], [(Some Bind_blob, [1])]) [[131, 108, 0, 0, 0, 1, 109, 0, 0, 0, 1, 42, 106]] (0, 0)"
proof -
  have "serves toy_lib (0, 0) ([113], [(Some Bind_blob, [1])]) [row_payload toy_lib (Some [113]) (0, 1)]
      (lib_finalize toy_lib (Some [113]) (0, 1))"
    by (rule serves.executed [where ?d1.0 = "(1, 1)" and ok = True]) (use toy_step in simp_all)
  then show ?thesis by (simp add: row_payload_def be_bytes_4 bert_tags)
qed

lemma toy_error:
  "serves toy_lib (0, 0) ([], []) [[131, 104, 2, 100, 0, 14] @ bytes_of ''sqlite3_errmsg'' @
     [109, 0, 0, 0, 1, 66]] (0, 0)"
  using serves.rejected [of toy_lib "[]" "(0, 0)" None "(0, 0)" "[]"]
  by (simp add: error_payload_def be_bytes_4 be_bytes_2 bytes_of_def bert_tags)

lemma toy_session: "session toy_lib (0, 0) toy_requests toy_responses (0, 0)"
  unfolding toy_requests_def toy_responses_def
  by (rule session.next_request [OF toy_query session.next_request [OF toy_error session.idle_session]])

lemma toy_requests_ok: "\<forall>q \<in> set toy_requests. request_ok False q \<and> length (request False q) \<le> 1000"
  by (auto simp: toy_requests_def request_ok_def request_def query_term_def arg_term_def bind_name_def
      MAX_NB_SLICES_def bytes_of_def)

lemma toy_responses_ok: "\<forall>fs \<in> set toy_responses. sendable 5 fs"
  by (auto simp: toy_responses_def sendable_def bytes_of_def)

definition toy_stream :: "u8 list" where
  "toy_stream = concat (map (\<lambda>q. frame (request False q)) toy_requests)"

lemma toy_stream_simps [simp]: "toy_stream \<noteq> []" "frame [] \<noteq> []" "length toy_requests = 2"
  by (simp_all add: toy_stream_def toy_requests_def frame_def be_bytes_4)

theorem sqlite_session_refines_witness:
  "\<exists>t. sqlite_main 3 5 toy_lib 2 (toy_state [Rd_data toy_stream, Rd_err EINTR, Rd_data (frame [])]) = Ok 0 t \<and>
     out t 1 = concat (map responses toy_responses) \<and> live_blocks t = 0"
  using sqlite_session_refines [of 2 toy_lib
      "toy_state [Rd_data toy_stream, Rd_err EINTR, Rd_data (frame [])]" "(0, 0)" toy_requests
      toy_responses "(0, 0)" False 5 3 "[]"]
    toy_session toy_lib_ok toy_requests_ok toy_responses_ok
  by (auto simp: toy_stream_def [symmetric])

text \<open>When the other side closes the pipe instead, the program ends with status 0 after
  having answered every complete request.\<close>

lemma sqlite_session_eof:
  assumes "session lib (db s) qs fss d'" and "lib_ok lib"
    and "\<forall>q \<in> set qs. request_ok small q \<and> length (request small q) \<le> malloc_max s"
    and "\<forall>fs \<in> set fss. sendable fuel fs" and "length qs < n"
    and "readable 0 s" "writable 1 s" and "length cut_off < 4"
    and "pending 0 s = concat (map (\<lambda>q. frame (request small q)) qs) @ cut_off"
  shows "\<exists>t. message_loop n fuel lib s = Stop (Exit 0) t \<and>
    out t 1 = out s 1 @ concat (map responses fss) \<and> db t = d'"
proof -
  obtain m where m: "n = length qs + Suc m"
    using assms(5) by (metis add_Suc_right less_iff_Suc_add)
  obtain t where t: "message_loop n fuel lib s = message_loop (Suc m) fuel lib t"
    "progressed s cut_off (concat (map responses fss)) d' t"
    using requests_served [OF assms(1-4,6,7,9), of "Suc m"] m by auto
  then have "readable 0 t" "length (pending 0 t) < 4" using assms(8) by (simp_all add: progressed_def)
  then obtain u where u: "message_loop (Suc m) fuel lib t = Stop (Exit 0) u" "same_but_rd 0 t u"
    by (rule sq_loop.ends_with_port)
  then show ?thesis
    using t same_but_rd_sq [OF u(2)] by (auto simp: progressed_def frame_simps io_simps)
qed

lemma sqlite_session_eof_witness:
  "\<exists>t. message_loop 3 5 toy_lib (toy_state [Rd_data (toy_stream @ [0, 0])]) = Stop (Exit 0) t \<and>
     out t 1 = concat (map responses toy_responses)"
  using sqlite_session_eof [of toy_lib "toy_state [Rd_data (toy_stream @ [0, 0])]" toy_requests
      toy_responses "(0, 0)" False 5 3 "[0, 0]"]
    toy_session toy_lib_ok toy_requests_ok toy_responses_ok
  by (auto simp: toy_stream_def [symmetric])

end
