(* ===== verification/Sqlite_Robust.thy ===== *)
theory Sqlite_Robust
  imports Sqlite_Port
begin

text \<open>
  What c_src/sqlite3.c keeps up for every input, well-formed or not: prepared statements are
  finalized, the output consists of whole frames, and the program comes to an end.
\<close>

section \<open>Statements are finalized\<close>

text \<open>A count of open statements that the library keeps, and the part of it that stmt does not
  account for.\<close>

definition counts_statements :: "('d, 'st) sqlite_lib \<Rightarrow> ('d \<Rightarrow> int) \<Rightarrow> bool" where
  "counts_statements lib opens \<longleftrightarrow>
     (\<forall>sql d. case lib_prepare lib sql d of (ok, st, d') \<Rightarrow> opens d' = opens d + of_bool (st \<noteq> None)) \<and>
     (\<forall>st d. opens (lib_finalize lib st d) = opens d - of_bool (st \<noteq> None)) \<and>
     (\<forall>b st i bs d. opens (lib_bind lib b st i bs d) = opens d) \<and>
     (\<forall>st d. opens (snd (lib_step lib st d)) = opens d)"

definition unclaimed :: "('d \<Rightarrow> int) \<Rightarrow> ('d, 'st) sq_port \<Rightarrow> int" where
  "unclaimed opens s = opens (db s) - of_bool (stmt s \<noteq> None)"

lemma keeps_more: "keeps posix.more m \<Longrightarrow> keeps (\<lambda>s. (db s, stmt s)) m"
  by (auto simp: keeps_def dest: sq_more)

lemma keeps_unclaimed: "keeps posix.more m \<Longrightarrow> keeps (unclaimed opens) m"
  using keeps_more [of m] by (auto simp: keeps_def unclaimed_def)

lemma msg_send_more [keep_intros]: "keeps posix.more (msg_send buf len)"
  unfolding msg_send_def by (cases "init_bytes buf (unat len)") (auto intro!: keep_intros)

lemma packet_more [keep_intros]: "keeps posix.more (bert_write_packet p n seq msg_send)"
  using msg_send_more unfolding keeps_def bert_write_packet_def Let_def
  by (auto split: res.splits)

lemma sentinel_more [keep_intros]: "keeps posix.more sentinel"
  unfolding sentinel_def by (auto intro!: keep_intros)

lemma sql_error_more [keep_intros]: "keeps posix.more (sql_error lib)"
  unfolding sql_error_def by (auto intro!: keep_intros)

lemma row_loop_unclaimed:
  fixes lib :: "('a, 'b) sqlite_lib"
  assumes "counts_statements lib opens"
  shows "keeps (unclaimed opens) (row_loop n lib)"
proof (induction n)
  case (Suc n)
  have "unclaimed opens (res_state (row_loop (Suc n) lib s)) = unclaimed opens s" for s
  proof -
    obtain rv d where step: "lib_step lib (stmt s) (db s) = (rv, d)" by fastforce
    have "opens (snd (lib_step lib (stmt s) (db s))) = opens (db s)"
      using assms by (simp add: counts_statements_def)
    then have "unclaimed opens (s\<lparr>db := d\<rparr>) = unclaimed opens s"
      by (simp add: step unclaimed_def)
    moreover have "keeps (unclaimed opens)
        (andthen (bert_write_packet None 4 seq msg_send) (\<lambda>_. row_loop n lib))" for seq
      by (intro keep_intros keeps_unclaimed Suc.IH)
    moreover have "keeps (unclaimed opens) (sql_error lib :: ('a, 'b, unit) sq_cm)"
      by (intro keep_intros keeps_unclaimed)
    ultimately show ?thesis
      by (cases rv) (simp_all add: step Let_def keeps_def)
  qed
  then show ?case by (simp add: keeps_def)
qed (simp add: keeps_def)

text \<open>Hence the whole query, entered without an open statement.\<close>

lemma keeps_stmt_run:
  assumes "keeps posix.more m" and "m s = Ok a t"
  shows "db t = db s \<and> stmt t = stmt s"
  using keeps_Ok [OF keeps_more [OF assms(1)] assms(2)] by simp

lemma bind_arg_unclaimed:
  assumes "counts_statements lib opens"
  shows "keeps (unclaimed opens) (bind_arg lib buf arg i)"
  using assms unfolding bind_arg_def call_ptr_def counts_statements_def
  by (auto intro!: keep_intros simp: unclaimed_def split: option.splits)

lemma prepare_stmt_unclaimed:
  assumes "counts_statements lib opens" and "stmt s = None"
  shows "unclaimed opens (res_state (prepare_stmt lib sql s)) = opens (db s)"
proof -
  obtain ok st d where p: "lib_prepare lib sql (db s) = (ok, st, d)" by (cases "lib_prepare lib sql (db s)")
  have "opens d = opens (db s) + of_bool (st \<noteq> None)"
    using assms(1) p unfolding counts_statements_def by (metis (mono_tags, lifting) case_prod_conv)
  then have "unclaimed opens (s\<lparr>db := d, stmt := st\<rparr>) = opens (db s)"
    by (simp add: unclaimed_def)
  moreover have "keeps (unclaimed opens) (if ok then skip else sql_error lib)"
    by (auto intro!: keep_intros keeps_unclaimed)
  ultimately show ?thesis by (simp add: prepare_stmt_def p keeps_def)
qed

lemma finalize_stmt_unclaimed:
  assumes "counts_statements lib opens"
  shows "keeps (unclaimed opens) (finalize_stmt lib)"
  using assms unfolding finalize_stmt_def counts_statements_def
  by (auto intro!: keep_intros simp: unclaimed_def)

lemma query_unclaimed:
  assumes "counts_statements lib opens" and "stmt s = None"
  shows "unclaimed opens (res_state (query fuel lib buf s)) = opens (db s)"
proof -
  have "unclaimed opens s = opens (db s)" using assms(2) by (simp add: unclaimed_def)
  moreover have "keeps (unclaimed opens) (statements
      [for_each (bind_arg lib buf arg) js, row_loop fuel lib, finalize_stmt lib, sentinel])" for arg js
    unfolding statements.simps
    by (intro keep_intros bind_arg_unclaimed row_loop_unclaimed finalize_stmt_unclaimed
        keeps_unclaimed assms(1))
  then have "unclaimed opens (res_state (statements (prepare_stmt lib sql #
      [for_each (bind_arg lib buf arg) js, row_loop fuel lib, finalize_stmt lib, sentinel]) s)) =
      opens (db s)" for arg js sql
    unfolding statements.simps(2) [of "prepare_stmt lib sql"]
    by (simp only: keeps_after prepare_stmt_unclaimed [OF assms])
  ultimately show ?thesis
    by (auto simp: query_def simp del: statements.simps split: res.splits option.splits)
qed

lemma query_Ok_stmt:
  assumes "query fuel lib buf s = Ok () t"
  shows "stmt t = None"
proof -
  from assms obtain s1 s2 where "finalize_stmt lib s1 = Ok () s2" "andthen sentinel (\<lambda>_. skip) s2 = Ok () t"
    by (auto simp: query_def andthen_eq_Ok_iff split: res.splits option.splits if_splits)
  moreover have "keeps posix.more (andthen sentinel (\<lambda>_. skip))" by (intro keep_intros)
  ultimately show ?thesis
    using keeps_stmt_run by (fastforce simp: finalize_stmt_def)
qed

section \<open>The output is framed\<close>

text \<open>What has been written since is a sequence of frames, each a BERT term or the empty one. No
  input comes back, and the room for messages stays what it is.\<close>

definition framed :: "u8 list \<Rightarrow> nat \<Rightarrow> nat \<Rightarrow> ('d, 'st) sq_port \<Rightarrow> bool" where
  "framed base room k s \<longleftrightarrow> writable 1 s \<and> malloc_max s = room \<and> length (pending 0 s) \<le> k \<and>
     (\<exists>ps. (\<forall>p \<in> set ps. p = [] \<or> hd p = BERT_START) \<and> out s 1 = base @ concat (map frame ps))"

definition rows_fit :: "('d, 'st) sqlite_lib \<Rightarrow> bool" where
  "rows_fit lib \<longleftrightarrow> (\<forall>st d. length (row_payload lib st d) < 2 ^ 31 - 4)"

lemma framed_sent:
  assumes "framed base room k s" and "sent s (concat (map frame ps)) d st t"
    and "\<forall>p \<in> set ps. p = [] \<or> hd p = BERT_START"
  shows "framed base room k t"
proof -
  obtain qs where "\<forall>p \<in> set qs. p = [] \<or> hd p = BERT_START" "out s 1 = base @ concat (map frame qs)"
    using assms(1) unfolding framed_def by blast
  with assms show ?thesis
    unfolding framed_def sent_def by (intro conjI exI [of _ "qs @ ps"]) (auto simp: pending_def)
qed

lemma framed_read:
  "all_but_rd s = all_but_rd t \<Longrightarrow> length (pending 0 t) + n \<le> length (pending 0 s) \<Longrightarrow>
    framed base room k s \<Longrightarrow> framed base room (k - n) t"
  by (auto simp: framed_def writable_def dest!: all_but_rd_eq)

lemma framed_update [simp]:
  "framed base room k (s\<lparr>db := d\<rparr>) = framed base room k s" "framed base room k (s\<lparr>stmt := st\<rparr>) = framed base room k s"
  "framed base room k (s\<lparr>live_blocks := n\<rparr>) = framed base room k s"
  by (simp_all add: framed_def writable_def pending_def)

lemma framed_modify [pres_intros]:
  "preserves (framed base room k) (modify (\<lambda>s. s\<lparr>db := f s\<rparr>))"
  "preserves (framed base room k) (modify (\<lambda>s. s\<lparr>db := f s, stmt := g s\<rparr>))"
  "preserves (framed base room k) (malloc n)" "preserves (framed base room k) (free_block p)"
  by (auto simp: preserves_def malloc_def free_block_def split: option.splits)

lemma framed_reading:
  assumes "keeps all_but_rd m" and "\<And>s. length (pending 0 (res_state (m s))) \<le> length (pending 0 s)"
  shows "preserves (framed base room k) m"
  using framed_read [where n = 0, OF keepsD [OF assms(1), symmetric]] assms(2)
  by (simp add: preserves_def)

lemmas framed_reads [pres_intros] =
  framed_reading [OF assert_read_u32_rest reads_shrink(2)]
  framed_reading [OF assert_read_fixed_rest reads_shrink(1)]

lemma framedI:
  "(\<And>s. framed base room k s \<Longrightarrow> writable 1 s \<Longrightarrow> framed base room k (res_state (m s))) \<Longrightarrow>
    preserves (framed base room k) m"
  by (simp add: preserves_def framed_def)

lemma framed_send:
  assumes "seq_emits seq bs" and "length bs < 2 ^ 31 - 5"
  shows "preserves (framed base room k) (bert_write_packet None 4 seq msg_send)"
proof (rule framedI)
  fix s :: "('a, 'b) sq_port"
  assume f: "framed base room k s" and w: "writable 1 s"
  obtain t where "bert_write_packet None 4 seq msg_send s = Ok () t"
    "sent s (frame (BERT_START # bs)) (db s) (stmt s) t"
    using send_ok [where seq = seq and bs = bs and s = s] w assms by blast
  then show "framed base room k (res_state (bert_write_packet None 4 seq msg_send s))"
    using framed_sent [OF f, of "[BERT_START # bs]"] by simp
qed

lemma framed_sentinel [pres_intros]: "preserves (framed base room k) sentinel"
proof (rule framedI)
  fix s :: "('a, 'b) sq_port"
  assume f: "framed base room k s" and "writable 1 s"
  from sentinel_ok [OF this(2)] obtain t where "sentinel s = Ok () t"
    "sent s (frame []) (db s) (stmt s) t" .
  then show "framed base room k (res_state (sentinel s))"
    using framed_sent [OF f, of "[[]]"] by simp
qed

lemma hd_error_payload: "hd (error_payload lib d) = BERT_START"
  by (simp add: error_payload_def)

lemma framed_sql_error:
  fixes lib :: "('a, 'b) sqlite_lib"
  assumes "lib_ok lib"
  shows "preserves (framed base room k) (sql_error lib :: ('a, 'b, 'c) sq_cm)"
proof (rule framedI)
  fix s :: "('a, 'b) sq_port"
  assume f: "framed base room k s" and w: "writable 1 s"
  let ?p = "error_payload lib (db s)"
  have "\<exists>t. (sql_error lib :: ('a, 'b, 'c) sq_cm) s = Stop (Longjmp 1) t \<and>
      sent s (concat (map frame [?p, []])) (db s) (stmt s) t"
    by (rule sql_error_ok [OF assms w]) auto
  then obtain t where t: "(sql_error lib :: ('a, 'b, 'c) sq_cm) s = Stop (Longjmp 1) t"
    "sent s (concat (map frame [?p, []])) (db s) (stmt s) t" by blast
  have "framed base room k t" by (rule framed_sent [OF f t(2)]) (simp add: hd_error_payload)
  with t(1) show "framed base room k (res_state ((sql_error lib :: ('a, 'b, 'c) sq_cm) s))" by simp
qed

lemma framed_row_loop:
  fixes lib :: "('a, 'b) sqlite_lib"
  assumes "lib_ok lib" and "rows_fit lib"
  shows "preserves (framed base room k) (row_loop n lib)"
proof (induction n)
  case (Suc n)
  have "framed base room k (res_state (row_loop (Suc n) lib s))" if f: "framed base room k s" for s
  proof -
    obtain rv d where step: "lib_step lib (stmt s) (db s) = (rv, d)" by fastforce
    let ?s = "s\<lparr>db := d\<rparr>"
    let ?seq = "sql_row_seq (map (\<lambda>c. (lib_column_blob lib (stmt s) c d,
      lib_column_bytes lib (stmt s) c d)) [0..<lib_column_count lib (stmt s) d])"
    have f': "framed base room k ?s" using f by simp
    have "length (row_payload lib (stmt s) d) < 2 ^ 31 - 4"
      using assms(2) by (simp add: rows_fit_def)
    then have "preserves (framed base room k) (bert_write_packet None 4 ?seq msg_send)"
      using framed_send [where seq = ?seq, OF row_columns [where lib = lib and st = "stmt s" and d = d, OF assms(1)]]
      by (simp add: row_payload_def)
    then have "preserves (framed base room k) (andthen (bert_write_packet None 4 ?seq msg_send) (\<lambda>_. row_loop n lib))"
      by (intro pres_intros Suc.IH)
    moreover have "framed base room k (res_state ((sql_error lib :: ('a, 'b, unit) sq_cm) ?s))"
      by (rule preservesD [OF framed_sql_error [OF assms(1)] f'])
    ultimately show ?thesis
      using f' by (cases rv) (simp_all add: step Let_def preserves_def)
  qed
  then show ?case by (simp add: preserves_def)
qed (simp add: preserves_def)

lemma framed_prepare:
  fixes lib :: "('a, 'b) sqlite_lib"
  assumes "lib_ok lib"
  shows "preserves (framed base room k) (prepare_stmt lib sql)"
proof -
  have "preserves (framed base room k) (if ok then skip else (sql_error lib :: ('a, 'b, unit) sq_cm))" for ok
    using framed_sql_error [OF assms] by (auto intro: pres_intros)
  then show ?thesis
    by (auto simp: prepare_stmt_def preserves_def simp del: if_split split: prod.splits)
qed

lemma framed_bind: "preserves (framed base room k) (bind_arg lib buf arg i)"
  unfolding bind_arg_def call_ptr_def by (auto intro!: pres_intros split: option.splits)

lemma framed_query:
  assumes "lib_ok lib" and "rows_fit lib"
  shows "preserves (framed base room k) (query fuel lib buf)"
proof -
  have "preserves (framed base room k) (statements [prepare_stmt lib sql,
      for_each (bind_arg lib buf arg) js, row_loop fuel lib, finalize_stmt lib, sentinel])" for sql arg js
    unfolding statements.simps finalize_stmt_def
    by (intro pres_intros framed_prepare framed_bind framed_row_loop assms)
  then show ?thesis
    unfolding query_def preserves_def
    by (auto simp del: statements.simps split: res.splits option.splits)
qed

lemma framed_try_query:
  assumes "lib_ok lib" and "rows_fit lib"
  shows "preserves (framed base room k) (try_query fuel lib buf)"
proof -
  have "framed base room k (res_state (try_query fuel lib buf s))" if "framed base room k s" for s
    using preservesD [OF framed_query [OF assms] that, of fuel buf]
    by (auto simp: try_query_def finalize_stmt_def split: res.splits halt.splits)
  then show ?thesis by (simp add: preserves_def)
qed

lemma framed_serve_message:
  assumes "lib_ok lib" and "rows_fit lib"
  shows "preserves (framed base room k) (serve_message fuel lib len)"
  unfolding serve_message_def
  by (intro pres_intros, split option.split) (auto intro!: pres_intros framed_try_query assms)

lemma framed_message_loop:
  assumes "lib_ok lib" and "rows_fit lib"
  shows "preserves (framed base room k) (message_loop n fuel lib)"
  by (induction n) (auto intro!: pres_intros framed_serve_message assms)

section \<open>Every session ends\<close>

text \<open>Sending comes to an end; so does stepping a statement with fewer rows than the fuel.\<close>

definition results_end :: "nat \<Rightarrow> ('d, 'st) sqlite_lib \<Rightarrow> bool" where
  "results_end fuel lib \<longleftrightarrow> (\<forall>st d. \<exists>fs ok d'. steps_to lib st d fs ok d' \<and> length fs < fuel)"

lemma endsI:
  "(\<And>s. framed base room k s \<Longrightarrow> writable 1 s \<Longrightarrow> \<exists>t. m s = Ok () t \<or> m s = Stop (Longjmp 1) t) \<Longrightarrow>
    ends (framed base room k) m"
  unfolding ends_def framed_def by fastforce

lemma sentinel_ends [end_intros]: "ends (framed base room k) sentinel"
proof (rule endsI)
  fix s :: "('a, 'b) sq_port"
  assume "writable 1 s"
  then obtain t where "sentinel s = Ok () t" by (rule sentinel_ok)
  then show "\<exists>t. sentinel s = Ok () t \<or> sentinel s = Stop (Longjmp 1) t" by blast
qed

lemma sql_error_ends:
  fixes lib :: "('a, 'b) sqlite_lib"
  assumes "lib_ok lib"
  shows "ends (framed base room k) (sql_error lib :: ('a, 'b, unit) sq_cm)"
proof (rule endsI)
  fix s :: "('a, 'b) sq_port"
  assume "writable 1 s"
  then obtain t where "(sql_error lib :: ('a, 'b, unit) sq_cm) s = Stop (Longjmp 1) t"
    by (rule sql_error_ok [OF assms])
  then show "\<exists>t. (sql_error lib :: ('a, 'b, unit) sq_cm) s = Ok () t \<or>
      (sql_error lib :: ('a, 'b, unit) sq_cm) s = Stop (Longjmp 1) t" by blast
qed

lemma error_payload_fits:
  assumes "lib_ok lib"
  shows "length (error_payload lib d) < 2 ^ 31 - 4"
proof -
  obtain cs where cs: "lib_errmsg lib d = cs @ [0]" "0 \<notin> set cs" "length cs < 2 ^ 30"
    using assms unfolding lib_ok_def by blast
  then have "takeWhile (\<lambda>b. b \<noteq> 0) (cs @ [0]) = cs" by (subst takeWhile_append2) auto
  with cs show ?thesis by (simp add: error_payload_def bytes_of_def)
qed

lemma steps_to_fits:
  assumes "steps_to lib st d fs ok d'" and "lib_ok lib" and "rows_fit lib"
  shows "\<forall>f \<in> set fs. length f < 2 ^ 31 - 4"
  using assms error_payload_fits [OF assms(2)]
  by (induction rule: steps_to.induct) (auto simp: rows_fit_def)

lemma row_loop_ends:
  fixes lib :: "('a, 'b) sqlite_lib"
  assumes "lib_ok lib" and "rows_fit lib" and "results_end fuel lib"
  shows "ends (framed base room k) (row_loop fuel lib)"
proof (rule endsI)
  fix s :: "('a, 'b) sq_port"
  assume w: "writable 1 s"
  obtain fs ok d' where st: "steps_to lib (stmt s) (db s) fs ok d'" "length fs < fuel"
    using assms(3) unfolding results_end_def by blast
  show "\<exists>t. row_loop fuel lib s = Ok () t \<or> row_loop fuel lib s = Stop (Longjmp 1) t"
    using row_loop_refines [OF st(1) assms(1) steps_to_fits [OF st(1) assms(1,2)] w refl refl st(2)]
    by (auto split: if_splits)
qed

lemma prepare_ends:
  fixes lib :: "('a, 'b) sqlite_lib"
  assumes "lib_ok lib"
  shows "ends (framed base room k) (prepare_stmt lib sql)"
proof -
  have "ends (framed base room k) (if ok then skip else (sql_error lib :: ('a, 'b, unit) sq_cm))" for ok
    using sql_error_ends [OF assms] by (auto intro: end_intros)
  then show ?thesis
    by (auto simp: prepare_stmt_def ends_def split: prod.splits if_splits)
qed

lemma bind_ends: "ends (framed base room k) (bind_arg lib buf arg i)"
  unfolding bind_arg_def call_ptr_def by (auto intro!: end_intros split: option.splits)

lemma query_ends:
  assumes "lib_ok lib" and "rows_fit lib" and "results_end fuel lib" and "length buf \<le> 2 ^ 32 - 2 ^ 16"
  shows "ends (framed base room k) (query fuel lib buf)"
proof -
  have "ends (framed base room k) (statements [prepare_stmt lib sql,
      for_each (bind_arg lib buf arg) js, row_loop fuel lib, finalize_stmt lib, sentinel])" for sql arg js
    unfolding statements.simps finalize_stmt_def
    by (intro end_intros pres_intros prepare_ends bind_ends row_loop_ends framed_prepare framed_bind
        framed_row_loop assms)
  moreover have "h \<noteq> Out_Of_Fuel" if "sq_decode (11 * Suc (length buf)) buf = Stop h r" for h r
    using sq_decode_ends [OF assms(4) order.refl] that by auto
  ultimately show ?thesis
    unfolding query_def ends_def
    by (auto simp del: statements.simps split: res.splits option.splits)
qed

lemma try_query_ends:
  assumes "ends P (query fuel lib buf)"
  shows "ends P (try_query fuel lib buf)"
  using assms by (auto simp: ends_def try_query_def finalize_stmt_def split: res.splits halt.splits)

text \<open>A message read has the length announced, which malloc bounds.\<close>

lemma serve_message_ends:
  fixes lib :: "('a, 'b) sqlite_lib"
  assumes "lib_ok lib" and "rows_fit lib" and "results_end fuel lib" and "room \<le> 2 ^ 32 - 2 ^ 16"
  shows "ends (framed base room k) (serve_message fuel lib len)"
  unfolding ends_def
proof (intro allI impI)
  fix s t :: "('a, 'b) sq_port"
  assume f: "framed base room k s"
  let ?s = "s\<lparr>live_blocks := Suc (live_blocks s)\<rparr>" and ?n = "unat len"
  show "serve_message fuel lib len s \<noteq> Stop Out_Of_Fuel t"
  proof (cases "?n \<le> malloc_max s \<and> (\<exists>msg u. assert_read_fixed 0 ?n ?n ?s = Ok msg u)")
    case True
    then obtain msg u where u: "assert_read_fixed 0 ?n ?n ?s = Ok msg u" by blast
    with assert_read_fixed_consumes [where fd = 0 and cap = ?n and nb = ?n and s = ?s]
    have "length msg = ?n" by simp
    with True f assms(4) have "ends (framed base room k) (try_query fuel lib msg)"
      by (intro try_query_ends query_ends assms) (simp add: framed_def)
    moreover have "framed base room k u"
      using preservesD [OF framed_reads(2), of base room k ?s ?n ?n] f u by simp
    ultimately have "try_query fuel lib msg u \<noteq> Stop Out_Of_Fuel v" for v by (rule endsD)
    with True u show ?thesis
      by (auto simp: serve_message_def malloc_def free_block_def andthen_def split: res.splits)
  next
    case False
    with assert_read_fixed_consumes [where fd = 0 and cap = ?n and nb = ?n and s = ?s] show ?thesis
      by (auto simp: serve_message_def malloc_def andthen_def split: res.splits)
  qed
qed

text \<open>Every turn takes the four bytes of a length.\<close>

lemma message_loop_ends:
  assumes "lib_ok lib" and "rows_fit lib" and "results_end fuel lib" and "room \<le> 2 ^ 32 - 2 ^ 16"
  shows "k < 4 * n \<Longrightarrow> ends (framed base room k) (message_loop n fuel lib)"
proof (induction n arbitrary: k)
  case (Suc n)
  have "ends (framed base room k) (assert_read_u32 0)"
    unfolding ends_def using assert_read_u32_consumes [where fd = 0]
    by (metis (mono_tags, lifting) res.simps(6))
  moreover have "framed base room (k - 4) t \<and> 4 \<le> k" if "framed base room k s" "assert_read_u32 0 s = Ok len t" for s t len
  proof -
    have len: "length (pending 0 t) + 4 = length (pending 0 s)"
      using assert_read_u32_consumes [where fd = 0 and s = s] that(2) by simp
    with that have "framed base room (k - 4) t"
      using keepsD [OF assert_read_u32_rest [of 0], of s] by (intro framed_read [of s t 4]) simp_all
    with len that(1) show ?thesis by (auto simp: framed_def)
  qed
  moreover have "ends (\<lambda>t. framed base room (k - 4) t \<and> 4 \<le> k)
      (if len = 0 then andthen (modify (\<lambda>s. s\<lparr>db := lib_close lib (db s)\<rparr>)) (\<lambda>_. ret 0)
       else andthen (serve_message fuel lib len) (\<lambda>_. message_loop n fuel lib))" for len
  proof -
    have "ends (framed base room (k - 4))
      (if len = 0 then andthen (modify (\<lambda>s. s\<lparr>db := lib_close lib (db s)\<rparr>)) (\<lambda>_. ret 0)
       else andthen (serve_message fuel lib len) (\<lambda>_. message_loop n fuel lib))" if "4 \<le> k"
      using Suc.IH [of "k - 4"] Suc.prems that
      by (auto intro!: end_intros pres_intros serve_message_ends framed_serve_message assms)
    then show ?thesis by (auto simp: ends_def)
  qed
  ultimately show ?case unfolding message_loop.simps by (rule ends_then)
qed simp

section \<open>Properties\<close>

lemma toy_counts: "counts_statements toy_lib snd"
  by (auto simp: toy_lib_def counts_statements_def)

text \<open>C33: No prepared statement is left open: for any message and any library that keeps count
  of its open statements, whenever the message loop goes on after a query, be it done or aborted
  by longjmp from an error, stmt is NULL again and as many statements are open as before.\<close>

theorem statements_finalized:
  assumes "counts_statements lib opens" and "stmt s = None"
    and "try_query fuel lib buf s = Ok () s'"
  shows "stmt s' = None \<and> opens (db s') = opens (db s)"
proof -
  note q = query_unclaimed [OF assms(1,2), of fuel buf]
  have "stmt s' = None \<and> unclaimed opens s' = opens (db s)"
  proof (cases "query fuel lib buf s")
    case (Ok u t)
    with assms(3) q query_Ok_stmt [of fuel lib buf s t] show ?thesis by (simp add: try_query_def)
  next
    case (Stop h t)
    then have "finalize_stmt lib t = Ok () s'"
      using assms(3) by (cases h) (auto simp: try_query_def)
    moreover from this have "stmt s' = None" by (auto simp: finalize_stmt_def)
    ultimately show ?thesis
      using keeps_Ok [OF finalize_stmt_unclaimed [OF assms(1)], of t] q Stop by auto
  qed
  then show ?thesis by (auto simp: unclaimed_def)
qed

theorem statements_finalized_witness:
  "\<exists>s'. try_query 5 toy_lib (request False ([], [])) (toy_state []) = Ok () s' \<and> stmt s' = None \<and>
     snd (db s') = 0"
proof -
  have "serves toy_lib (0, 0) ([], []) [error_payload toy_lib (0, 0)]
      (lib_finalize toy_lib None (0, 0))"
    by (intro serves.rejected) simp
  then obtain s' where "try_query 5 toy_lib (request False ([], [])) (toy_state []) = Ok () s'"
    using try_query_refines [of toy_lib "toy_state []" "[]" "[]" "[error_payload toy_lib (0, 0)]" _ False 5]
      toy_lib_ok
    by (auto simp: request_ok_def request_def query_term_def MAX_NB_SLICES_def error_payload_def bytes_of_def)
  with statements_finalized [OF toy_counts, of "toy_state []" 5 "request False ([], [])" s']
  show ?thesis by simp
qed

text \<open>C14: Whatever comes in, the output stays in step: for every input stream (cut short,
  malformed, failing at any read), all that is ever written to stdout is whole frames, each one
  empty or with a BERT term in it, so the other side can always tell where a message ends.\<close>

theorem sqlite_output_framed:
  assumes "lib_ok lib" and "rows_fit lib" and "writable 1 s"
  shows "\<exists>ps. (\<forall>p \<in> set ps. p = [] \<or> hd p = BERT_START) \<and>
    out (res_state (message_loop n fuel lib s)) 1 = out s 1 @ concat (map frame ps)"
proof -
  have "framed (out s 1) (malloc_max s) (length (pending 0 s)) s"
    using assms(3) unfolding framed_def by (intro conjI exI [of _ "[]"]) auto
  from preservesD [OF framed_message_loop [OF assms(1,2)] this] show ?thesis
    by (simp add: framed_def)
qed

theorem sqlite_output_framed_witness:
  "\<exists>ps. out (res_state (message_loop 3 5 toy_lib (toy_state [Rd_data [0, 0, 0, 2, 131], Rd_err 5]))) 1 =
     concat (map frame ps)"
proof -
  have "rows_fit toy_lib" by (simp add: rows_fit_def row_payload_def)
  then show ?thesis
    using sqlite_output_framed [OF toy_lib_ok, of "toy_state [Rd_data [0, 0, 0, 2, 131], Rd_err 5]" 3 5]
    by auto
qed

text \<open>C15: The program comes to an end whatever it is sent: on every finite input, well-formed or
  not, cut short or failing at any call, it stops with a status, an error or undefined behaviour
  after at most a quarter as many messages as there are bytes, provided that no statement has
  infinitely many rows and malloc refuses blocks of nearly 4 GB, which the reader's length checks
  would wrap on.\<close>

theorem sqlite_server_ends:
  assumes "lib_ok lib" and "rows_fit lib" and "results_end fuel lib"
    and "writable 1 s" and "malloc_max s \<le> 2 ^ 32 - 2 ^ 16" and "length (pending 0 s) < 4 * n"
  shows "sqlite_main n fuel lib argc s \<noteq> Stop Out_Of_Fuel t"
proof -
  obtain ok d where o: "lib_open lib (db s) = (ok, d)" by fastforce
  let ?s = "s\<lparr>db := lib_enable_load_extension lib d\<rparr>"
  have "framed (out s 1) (malloc_max s) (length (pending 0 s)) s"
    using assms(4) unfolding framed_def by (intro conjI exI [of _ "[]"]) auto
  then have "framed (out s 1) (malloc_max s) (length (pending 0 s)) ?s" by simp
  with endsD [OF message_loop_ends [OF assms(1-3,5,6)]] have "message_loop n fuel lib ?s \<noteq> Stop Out_Of_Fuel t"
    by blast
  then show ?thesis by (simp add: sqlite_main_def o)
qed

theorem sqlite_server_ends_witness:
  "\<forall>t. sqlite_main 2 2 toy_lib 2 (toy_state [Rd_data [0, 0, 0, 2, 131], Rd_err EINTR, Rd_data [109]]) \<noteq>
     Stop Out_Of_Fuel t"
proof -
  have "rows_fit toy_lib" by (simp add: rows_fit_def row_payload_def)
  moreover have "results_end 2 toy_lib"
  proof -
    have none: "steps_to toy_lib st (0, opens) [] True (0, opens)" for st opens
      by (rule steps_to.finished) simp
    have one: "steps_to toy_lib st (1, opens) [row_payload toy_lib st (0, opens)] True (0, opens)" for st opens
      by (rule steps_to.a_row [OF _ _ none]) simp_all
    have "steps_to toy_lib st (rows, opens) [] True (0, opens)" if "rows \<noteq> 1" for st rows opens
      using that by (intro steps_to.finished) simp
    with one have "\<exists>fs ok d'. steps_to toy_lib st (rows, opens) fs ok d' \<and> length fs < 2" for st rows opens
      by (cases "rows = 1") fastforce+
    then show ?thesis unfolding results_end_def by auto
  qed
  ultimately show ?thesis
    using sqlite_server_ends [of toy_lib 2 "toy_state [Rd_data [0, 0, 0, 2, 131], Rd_err EINTR, Rd_data [109]]" 2 2]
      toy_lib_ok by simp
qed

end
