(* ===== verification/Axo_Usb.thy ===== *)
theory Axo_Usb
  imports Port
begin

text \<open>
  The USB bridge c_src/axo_connect.c: one thread forwards {packet,4} messages from stdin to a bulk
  endpoint in packets of 64 bytes, the other collects packets until a short one and writes the
  message to stdout. libusb is a parameter, a record of the functions the program calls over a
  bus state; the laws relied on are \<open>delivers\<close> and \<open>receives\<close>. The two threads share no
  descriptor, endpoint or buffer, so they are two kinds of step of one system, in any order.
\<close>

section \<open>The libusb interface\<close>

record ('u, 'v, 'h) usb_lib =
  lib_init :: "'u \<Rightarrow> int \<times> 'u"
  lib_device_list :: "'u \<Rightarrow> (int + 'v list) \<times> 'u"
  lib_descriptor :: "'v \<Rightarrow> 'u \<Rightarrow> int \<times> u16 \<times> u16"
  lib_usb_open :: "'v \<Rightarrow> 'u \<Rightarrow> int \<times> 'h \<times> 'u"
  lib_bulk_out :: "'h option \<Rightarrow> u8 \<Rightarrow> u8 list \<Rightarrow> int \<Rightarrow> 'u \<Rightarrow> int \<times> 'u"
  lib_bulk_in :: "'h option \<Rightarrow> u8 \<Rightarrow> int \<Rightarrow> 'u \<Rightarrow> int \<times> u8 list \<times> 'u"

record ('u, 'h) axo = posix +
  usb :: 'u
  handle :: "'h option"

type_synonym ('u, 'h, 'a) axo_cm = "(('u, 'h) axo, 'a) cm"

definition ep_in :: u8 where "ep_in = 0x82"

definition ep_out :: u8 where "ep_out = 0x02"

section \<open>Transfers\<close>

text \<open>\<open>transfer\<close> in its two directions. An OUT transfer is given the memory behind the pointer,
  an IN transfer gives the bytes it stored; a result code other than 0 is fatal.\<close>

definition transfer_out ::
    "('u, 'v, 'h) usb_lib \<Rightarrow> u8 \<Rightarrow> u8 list \<Rightarrow> int \<Rightarrow> ('u, 'h, unit) axo_cm" where
  "transfer_out lib ep mem len = (\<lambda>s.
     case lib_bulk_out lib (handle s) ep mem len (usb s) of (rv, u) \<Rightarrow>
       (if rv = 0 then Ok () (s\<lparr>usb := u\<rparr>) else Stop (Error ''transfer error'') (s\<lparr>usb := u\<rparr>)))"

definition transfer_in ::
    "('u, 'v, 'h) usb_lib \<Rightarrow> u8 \<Rightarrow> int \<Rightarrow> ('u, 'h, u8 list) axo_cm" where
  "transfer_in lib ep len = (\<lambda>s.
     case lib_bulk_in lib (handle s) ep len (usb s) of (rv, bs, u) \<Rightarrow>
       (if rv = 0 then Ok bs (s\<lparr>usb := u\<rparr>) else Stop (Error ''transfer error'') (s\<lparr>usb := u\<rparr>)))"

function to_axo :: "('u, 'v, 'h) usb_lib \<Rightarrow> u8 list \<Rightarrow> int \<Rightarrow> ('u, 'h, unit) axo_cm" where
  "to_axo lib mem len =
     (if 64 \<le> len
      then andthen (transfer_out lib ep_out mem 64) (\<lambda>_. to_axo lib (drop 64 mem) (len - 64))
      else transfer_out lib ep_out mem len)"
  by pat_completeness auto
termination
  by (relation "measure (\<lambda>(lib, mem, len). nat len)") auto

declare to_axo.simps [simp del]

text \<open>The reader thread: the bytes of the buffer that were stored, and the count so far. The
  buffer is \<open>cap\<close> bytes; the bound is checked in uint32_t.\<close>

record reading =
  rd_buf :: "u8 option list"
  rd_total :: u32

definition store_at :: "u8 option list \<Rightarrow> nat \<Rightarrow> u8 list \<Rightarrow> u8 option list" where
  "store_at b i bs = take i b @ map Some bs @ drop (i + length bs) b"

definition reader_step ::
    "('u, 'v, 'h) usb_lib \<Rightarrow> reading \<Rightarrow> ('u, 'h, reading) axo_cm" where
  "reader_step lib r =
     andthen (assert_that (unat (64 + rd_total r) \<le> length (rd_buf r)) ''64 + total <= sizeof(buf)'') (\<lambda>_.
     andthen (transfer_in lib ep_in 64) (\<lambda>bs.
     if length (rd_buf r) < unat (rd_total r) + length bs then stop (Undef Out_Of_Bounds)
     else
       let buf = store_at (rd_buf r) (unat (rd_total r)) bs;
           total = rd_total r + word_of_nat (length bs) in
       if length bs < 64 then
         (case those (take (unat total) buf) of
            None \<Rightarrow> stop (Undef Uninitialised)
          | Some msg \<Rightarrow>
              andthen (assert_write_port32 1 msg total) (\<lambda>_.
              ret \<lparr>rd_buf = buf, rd_total = 0\<rparr>))
       else ret \<lparr>rd_buf = buf, rd_total = total\<rparr>))"

primrec reader_loop ::
    "nat \<Rightarrow> ('u, 'v, 'h) usb_lib \<Rightarrow> reading \<Rightarrow> ('u, 'h, reading) axo_cm" where
  "reader_loop 0 lib r = ret r"
| "reader_loop (Suc n) lib r = andthen (reader_step lib r) (reader_loop n lib)"

text \<open>The thread starts with a buffer nobody has written to and a total nobody has set: the
  value found in it is an argument. n is the number of turns that are looked at.\<close>

definition reader_start :: "nat \<Rightarrow> u32 \<Rightarrow> reading" where
  "reader_start cap garbage = \<lparr>rd_buf = replicate cap None, rd_total = garbage\<rparr>"

definition reader_main ::
    "nat \<Rightarrow> ('u, 'v, 'h) usb_lib \<Rightarrow> u32 \<Rightarrow> ('u, 'h, reading) axo_cm" where
  "reader_main n lib garbage = reader_loop n lib (reader_start (1024 * 1024) garbage)"

section \<open>Finding the device\<close>

fun try_devices ::
    "('u, 'v, 'h) usb_lib \<Rightarrow> 'v list \<Rightarrow> ('u, 'h, unit) axo_cm" where
  "try_devices lib [] = stop (Error ''device not found'')"
| "try_devices lib (dev # devs) = (\<lambda>s.
     case lib_descriptor lib dev (usb s) of (rc, vendor, product) \<Rightarrow>
       if rc \<noteq> 0 then Stop (Error ''0 == libusb_get_device_descriptor'') s
       else if vendor = 0x16c0 \<and> product = 0x0442 then
         (case lib_usb_open lib dev (usb s) of (rv, h, u) \<Rightarrow>
            if rv = 0 then Ok () (s\<lparr>usb := u, handle := Some h\<rparr>)
            else Stop (Error '' error'') (s\<lparr>usb := u\<rparr>))
       else try_devices lib devs s)"

definition open_usb :: "('u, 'v, 'h) usb_lib \<Rightarrow> ('u, 'h, unit) axo_cm" where
  "open_usb lib = (\<lambda>s.
     case lib_init lib (usb s) of (err, u) \<Rightarrow>
       if err \<noteq> 0 then Stop (Error ''libusb_init error'') (s\<lparr>usb := u\<rparr>)
       else
         (case lib_device_list lib u of (devs, u') \<Rightarrow>
            (case devs of
               Inl cnt \<Rightarrow> Stop (Error ''cnt > 0'') (s\<lparr>usb := u'\<rparr>)
             | Inr ds \<Rightarrow>
                 if ds = [] then Stop (Error ''cnt > 0'') (s\<lparr>usb := u'\<rparr>)
                 else try_devices lib ds (s\<lparr>usb := u'\<rparr>))))"

section \<open>The main thread\<close>

definition main_step :: "('u, 'v, 'h) usb_lib \<Rightarrow> ('u, 'h, unit) axo_cm" where
  "main_step lib =
     andthen (assert_read_packet4_len 0) (\<lambda>(p, len).
     andthen (to_axo lib (case p of None \<Rightarrow> [] | Some mem \<Rightarrow> mem) (sint len)) (\<lambda>_.
     free_block p))"

primrec main_loop :: "nat \<Rightarrow> ('u, 'v, 'h) usb_lib \<Rightarrow> ('u, 'h, unit) axo_cm" where
  "main_loop 0 lib = ret ()"
| "main_loop (Suc n) lib = andthen (main_step lib) (\<lambda>_. main_loop n lib)"

definition axo_main :: "nat \<Rightarrow> ('u, 'v, 'h) usb_lib \<Rightarrow> ('u, 'h, unit) axo_cm" where
  "axo_main n lib = andthen (open_usb lib) (\<lambda>_. main_loop n lib)"

text \<open>Both threads, by whole loop bodies: a turn of one or the other. The turns between single calls
  are those of \<open>preempt\<close> in \<open>Axo_Threads\<close>.\<close>

inductive axo_step ::
    "('u, 'v, 'h) usb_lib \<Rightarrow> ('u, 'h) axo \<times> reading \<Rightarrow> ('u, 'h) axo \<times> reading \<Rightarrow> bool" for lib where
  main_turn: "main_step lib s = Ok () s' \<Longrightarrow> axo_step lib (s, r) (s', r)"
| reader_turn: "reader_step lib r s = Ok r' s' \<Longrightarrow> axo_step lib (s, r) (s', r')"

inductive_cases axo_step_cases: "axo_step lib (s, r) (s', r')"

section \<open>What is relied on\<close>

text \<open>For an observation of the packets a device has been sent and of those it will send: a bulk
  transfer of an OUT endpoint sends the bytes it is given as one packet, one of an IN endpoint
  receives the next packet, and fails when the device is gone.\<close>

definition delivers ::
    "('u, 'v, 'h) usb_lib \<Rightarrow> ('u \<Rightarrow> u8 list list) \<Rightarrow> ('u \<Rightarrow> u8 list list) \<Rightarrow> bool" where
  "delivers lib sent_by incoming \<longleftrightarrow>
     (\<forall>h mem len u. 0 \<le> len \<and> len \<le> int (length mem) \<longrightarrow>
       (case lib_bulk_out lib h ep_out mem len u of (rv, u') \<Rightarrow>
          rv = 0 \<and> sent_by u' = sent_by u @ [take (nat len) mem] \<and> incoming u' = incoming u))"

definition receives ::
    "('u, 'v, 'h) usb_lib \<Rightarrow> ('u \<Rightarrow> u8 list list) \<Rightarrow> ('u \<Rightarrow> u8 list list) \<Rightarrow> bool" where
  "receives lib sent_by incoming \<longleftrightarrow>
     (\<forall>h u. case lib_bulk_in lib h ep_in 64 u of (rv, bs, u') \<Rightarrow>
        (case incoming u of
           [] \<Rightarrow> rv \<noteq> 0
         | p # q \<Rightarrow> length p \<le> 64 \<longrightarrow> rv = 0 \<and> bs = p \<and> incoming u' = q \<and> sent_by u' = sent_by u))"

section \<open>Messages as packets\<close>

text \<open>A message is cut into full packets and ends with a short one, empty if need be; packets
  are joined up to a short one.\<close>

function packets :: "u8 list \<Rightarrow> u8 list list" where
  "packets bs = (if 64 \<le> length bs then take 64 bs # packets (drop 64 bs) else [bs])"
  by pat_completeness auto
termination by (relation "measure length") auto

declare packets.simps [simp del]

fun assemble :: "u8 list \<Rightarrow> u8 list list \<Rightarrow> u8 list list \<times> u8 list" where
  "assemble part [] = ([], part)"
| "assemble part (p # ps) =
     (if length p < 64 then (case assemble [] ps of (ms, l) \<Rightarrow> ((part @ p) # ms, l))
      else assemble (part @ p) ps)"

lemma assemble_packets:
  "assemble part (packets bs @ ps) = (case assemble [] ps of (ms, l) \<Rightarrow> ((part @ bs) # ms, l))"
proof (induction bs arbitrary: part rule: packets.induct)
  case (1 bs)
  then show ?case
    by (cases "64 \<le> length bs") (simp_all add: packets.simps [of bs] case_prod_beta)
qed

lemma assemble_all_packets: "assemble [] (concat (map packets msgs)) = (msgs, [])"
  by (induction msgs) (simp_all add: assemble_packets)

lemma assemble_snoc:
  "assemble part (ps @ [p]) = (case assemble part ps of (ms, l) \<Rightarrow>
     if length p < 64 then (ms @ [l @ p], []) else (ms, l @ p))"
  by (induction part ps rule: assemble.induct) (auto split: prod.splits)

lemma concat_packets: "concat (packets bs) = bs"
  by (induction bs rule: packets.induct) (subst packets.simps, auto)

lemma length_packets: "length (packets bs) = Suc (length bs div 64)"
proof (induction bs rule: packets.induct)
  case (1 bs)
  then show ?case
    by (cases "64 \<le> length bs") (simp_all add: packets.simps [of bs] le_div_geq)
qed

lemma packets_short: "p \<in> set (packets bs) \<Longrightarrow> length p \<le> 64"
proof (induction bs rule: packets.induct)
  case (1 bs)
  then show ?case
    by (cases "64 \<le> length bs") (auto simp: packets.simps [of bs])
qed

section \<open>Forwarding a message\<close>

lemma transfer_out_ok:
  assumes "delivers lib sent_by incoming" and "0 \<le> len" and "len \<le> int (length mem)"
  obtains u where "transfer_out lib ep_out mem len s = Ok () (s\<lparr>usb := u\<rparr>)"
    "sent_by u = sent_by (usb s) @ [take (nat len) mem]" "incoming u = incoming (usb s)"
proof -
  obtain rv u where b: "lib_bulk_out lib (handle s) ep_out mem len (usb s) = (rv, u)" by fastforce
  then have "rv = 0 \<and> sent_by u = sent_by (usb s) @ [take (nat len) mem] \<and> incoming u = incoming (usb s)"
    using assms unfolding delivers_def by (metis (mono_tags, lifting) case_prod_conv)
  with b show thesis by (intro that [of u]) (simp_all add: transfer_out_def)
qed

lemma to_axo_ok:
  assumes "delivers lib sent_by incoming" and "n \<le> length mem"
  shows "\<exists>u. to_axo lib mem (int n) s = Ok () (s\<lparr>usb := u\<rparr>) \<and>
    sent_by u = sent_by (usb s) @ packets (take n mem) \<and> incoming u = incoming (usb s)"
  using assms(2)
proof (induction n arbitrary: mem s rule: less_induct)
  case (less n)
  show ?case
  proof (cases "64 \<le> n")
    case True
    obtain u where u: "transfer_out lib ep_out mem 64 s = Ok () (s\<lparr>usb := u\<rparr>)"
      "sent_by u = sent_by (usb s) @ [take 64 mem]" "incoming u = incoming (usb s)"
      using transfer_out_ok [OF assms(1), of 64 mem s] True less.prems by auto
    have "\<exists>v. to_axo lib (drop 64 mem) (int (n - 64)) (s\<lparr>usb := u\<rparr>) = Ok () (s\<lparr>usb := u, usb := v\<rparr>) \<and>
        sent_by v = sent_by u @ packets (take (n - 64) (drop 64 mem)) \<and> incoming v = incoming u"
      using less.IH [of "n - 64" "drop 64 mem" "s\<lparr>usb := u\<rparr>"] True less.prems by simp
    then obtain v where v: "to_axo lib (drop 64 mem) (int (n - 64)) (s\<lparr>usb := u\<rparr>) = Ok () (s\<lparr>usb := v\<rparr>)"
      "sent_by v = sent_by u @ packets (take (n - 64) (drop 64 mem))" "incoming v = incoming u"
      by auto
    have "packets (take n mem) = take 64 mem # packets (take (n - 64) (drop 64 mem))"
      using True less.prems by (subst packets.simps) (simp add: drop_take min_def)
    moreover have "to_axo lib mem (int n) s = Ok () (s\<lparr>usb := v\<rparr>)"
      using True u(1) v(1) by (simp add: to_axo.simps [of lib mem] of_nat_diff)
    ultimately show ?thesis using u v by auto
  next
    case False
    then obtain u where "transfer_out lib ep_out mem (int n) s = Ok () (s\<lparr>usb := u\<rparr>)"
      "sent_by u = sent_by (usb s) @ [take n mem]" "incoming u = incoming (usb s)"
      using transfer_out_ok [OF assms(1), of "int n" mem s] less.prems by auto
    moreover have "packets (take n mem) = [take n mem]"
      using False by (subst packets.simps) simp
    ultimately show ?thesis using False by (auto simp: to_axo.simps [of lib mem])
  qed
qed

section \<open>A turn of the main thread\<close>

lemma free_packet:
  "free_block (packet_ptr bs) s = Ok () (s\<lparr>live_blocks := live_blocks s - (if bs = [] then 0 else 1)\<rparr>)"
  by (simp add: packet_ptr_def free_block_def)

lemma axo_more: "posix.more s = posix.more t \<Longrightarrow> usb s = usb t \<and> handle s = handle t"
  by (cases s, cases t) simp

lemma main_step_ok:
  assumes "delivers lib sent_by incoming"
    and "readable 0 s" and "pending 0 s = frame bs @ rest"
    and "length bs < 2 ^ 31" and "length bs < malloc_max s"
  obtains s' where "main_step lib s = Ok () s'" "pending 0 s' = rest" "readable 0 s'"
    "sent_by (usb s') = sent_by (usb s) @ packets bs" "incoming (usb s') = incoming (usb s)"
    "wr s' = wr s" "out s' = out s" "malloc_max s' = malloc_max s" "live_blocks s' = live_blocks s"
proof -
  let ?n = "word_of_nat (length bs) :: u32"
  let ?mem = "case packet_ptr bs of None \<Rightarrow> [] | Some mem \<Rightarrow> mem"
  obtain t where t: "assert_read_packet4_len 0 s = Ok (packet_ptr bs, ?n) t"
    "pending 0 t = rest" "readable 0 t" "wr t = wr s" "out t = out s" "malloc_max t = malloc_max s"
    "posix.more t = posix.more s" "live_blocks t = live_blocks s + (if bs = [] then 0 else 1)"
    using packet4_len_frame [OF assms(2-5)] .
  have n: "sint ?n = int (length bs)" by (rule sint_u32_of_nat) fact
  have mem: "length bs \<le> length ?mem" "take (length bs) ?mem = bs"
    by (auto simp: packet_ptr_def)
  obtain u where u: "to_axo lib ?mem (sint ?n) t = Ok () (t\<lparr>usb := u\<rparr>)"
    "sent_by u = sent_by (usb t) @ packets bs" "incoming u = incoming (usb t)"
    using to_axo_ok [OF assms(1) mem(1), of t] unfolding n mem(2) by auto
  let ?s = "t\<lparr>usb := u, live_blocks := live_blocks t - (if bs = [] then 0 else 1)\<rparr>"
  have "main_step lib s = Ok () ?s"
    using t(1) u(1) by (simp add: main_step_def free_packet)
  then show thesis
    using t u axo_more [OF t(7)] by (intro that [of ?s]) (simp_all add: pending_def readable_def)
qed

interpretation axo_loop: packet_loop 0 "main_loop (Suc n) lib" for n lib
  unfolding main_loop.simps main_step_def
  by (intro packet_loop_then packet4_loop.packet_loop_axioms)

lemma main_step_eof:
  assumes "readable 0 s" and "length (pending 0 s) < 4"
  shows "main_step lib s \<noteq> Ok () s'"
proof -
  obtain t where "main_loop (Suc 0) lib s = Stop (Exit 0) t"
    by (rule axo_loop.ends_with_port [OF assms])
  then show ?thesis by auto
qed

section \<open>A turn of the reader thread\<close>

text \<open>The buffer holds the bytes of the packets joined so far.\<close>

definition holds :: "reading \<Rightarrow> u8 list \<Rightarrow> bool" where
  "holds r part \<longleftrightarrow> length (rd_buf r) < 2 ^ 31 \<and> length part \<le> length (rd_buf r) \<and>
     unat (rd_total r) = length part \<and> take (length part) (rd_buf r) = map Some part"

lemma holds_start: "cap < 2 ^ 31 \<Longrightarrow> holds (reader_start cap 0) []"
  by (simp add: holds_def reader_start_def)

lemma length_start [simp]: "length (rd_buf (reader_start cap garbage)) = cap"
  by (simp add: reader_start_def)

lemma store_at_holds:
  assumes "take i b = map Some part" and "i = length part" and "i + length bs \<le> length b"
  shows "take (i + length bs) (store_at b i bs) = map Some (part @ bs)"
    and "length (store_at b i bs) = length b"
  using assms by (simp_all add: store_at_def)

lemma transfer_in_ok:
  assumes "receives lib sent_by incoming" and "incoming (usb s) = p # q" and "length p \<le> 64"
  obtains u where "transfer_in lib ep_in 64 s = Ok p (s\<lparr>usb := u\<rparr>)" "incoming u = q"
    "sent_by u = sent_by (usb s)"
proof -
  obtain rv bs u where b: "lib_bulk_in lib (handle s) ep_in 64 (usb s) = (rv, bs, u)"
    by (metis prod_cases3)
  have "case lib_bulk_in lib (handle s) ep_in 64 (usb s) of (rv, bs, u') \<Rightarrow>
      rv = 0 \<and> bs = p \<and> incoming u' = q \<and> sent_by u' = sent_by (usb s)"
    using assms unfolding receives_def by (auto split: prod.splits list.splits)
  with b show thesis by (intro that [of u]) (simp_all add: transfer_in_def)
qed

lemma transfer_in_gone:
  assumes "receives lib sent_by incoming" and "incoming (usb s) = []"
  shows "transfer_in lib ep_in 64 s \<noteq> Ok bs s'"
proof -
  obtain rv bs' u where b: "lib_bulk_in lib (handle s) ep_in 64 (usb s) = (rv, bs', u)"
    by (metis prod_cases3)
  have "case lib_bulk_in lib (handle s) ep_in 64 (usb s) of (rv, bs, u') \<Rightarrow>
      case incoming (usb s) of
        [] \<Rightarrow> rv \<noteq> 0
      | p # q \<Rightarrow> length p \<le> 64 \<longrightarrow> rv = 0 \<and> bs = p \<and> incoming u' = q \<and> sent_by u' = sent_by (usb s)"
    using assms(1) unfolding receives_def by (elim allE)
  with b assms(2) show ?thesis by (simp add: transfer_in_def)
qed

text \<open>What the reader has done: the messages completed by a packet are written, the buffer holds
  the rest.\<close>

definition read_on ::
    "('u \<Rightarrow> u8 list list) \<Rightarrow> ('u \<Rightarrow> u8 list list) \<Rightarrow> ('u, 'h) axo \<Rightarrow> u8 list list \<Rightarrow> ('u, 'h) axo \<Rightarrow> bool" where
  "read_on sent_by incoming s ms s' \<longleftrightarrow> writable 1 s' \<and> out s' 1 = out s 1 @ concat (map frame ms) \<and>
     rd s' = rd s \<and> malloc_max s' = malloc_max s \<and> live_blocks s' = live_blocks s \<and>
     sent_by (usb s') = sent_by (usb s)"

text \<open>A packet for which there is room is joined to what the buffer holds.\<close>

lemma store_packet:
  assumes "holds r part" and "length p \<le> 64" and "64 + length part \<le> length (rd_buf r)"
  shows "unat (64 + rd_total r) \<le> length (rd_buf r)"
    and "unat (rd_total r) + length p \<le> length (rd_buf r)"
    and "rd_total r + word_of_nat (length p) = word_of_nat (length (part @ p))"
    and "length (part @ p) < 2 ^ 31"
    and "take (length (part @ p)) (store_at (rd_buf r) (unat (rd_total r)) p) = map Some (part @ p)"
    and "length (store_at (rd_buf r) (unat (rd_total r)) p) = length (rd_buf r)"
proof -
  have h: "unat (rd_total r) = length part" "length part < 2 ^ 31 - 64"
    "take (length part) (rd_buf r) = map Some part"
    using assms(1,3) by (simp_all add: holds_def)
  show "unat (64 + rd_total r) \<le> length (rd_buf r)" "unat (rd_total r) + length p \<le> length (rd_buf r)"
    "length (part @ p) < 2 ^ 31"
    using assms(2,3) h by (simp_all add: unat_word_ariths)
  then show "take (length (part @ p)) (store_at (rd_buf r) (unat (rd_total r)) p) = map Some (part @ p)"
    "length (store_at (rd_buf r) (unat (rd_total r)) p) = length (rd_buf r)"
    using store_at_holds [OF h(3) refl, of p] h(1) by simp_all
  have "rd_total r = word_of_nat (length part)"
    using h(1,2) unat_u32_of_nat [of "length part"] by (simp add: word_unat_eq_iff)
  then show "rd_total r + word_of_nat (length p) = word_of_nat (length (part @ p))" by simp
qed

lemma reader_step_ok:
  assumes "receives lib sent_by incoming" and "incoming (usb s) = p # q" and "length p \<le> 64"
    and "holds r part" and "64 + length part \<le> length (rd_buf r)" and "writable 1 s"
    and "assemble part [p] = (ms, l)"
  obtains r' s' where "reader_step lib r s = Ok r' s'" "incoming (usb s') = q"
    "read_on sent_by incoming s ms s'" "holds r' l" "length (rd_buf r') = length (rd_buf r)"
proof -
  obtain u where u: "transfer_in lib ep_in 64 s = Ok p (s\<lparr>usb := u\<rparr>)" "incoming u = q"
    "sent_by u = sent_by (usb s)"
    using transfer_in_ok [OF assms(1-3)] .
  let ?t = "s\<lparr>usb := u\<rparr>"
  let ?buf = "store_at (rd_buf r) (length part) p"
  note stored = store_packet [OF assms(4,3,5)]
  have h: "unat (rd_total r) = length part" using assms(4) by (simp add: holds_def)
  note in_bounds = stored(1,2)
  define m where "m = part @ p"
  note buf = stored(5,6) [folded m_def, unfolded h] and total = stored(3) [folded m_def] and len = stored(4) [folded m_def]
  note n = unat_u32_of_int_range [OF len]
  have step: "reader_step lib r s =
      (if length p < 64
       then andthen (assert_write_port32 1 m (word_of_nat (length m)))
          (\<lambda>_. ret \<lparr>rd_buf = ?buf, rd_total = 0\<rparr>) ?t
       else Ok \<lparr>rd_buf = ?buf, rd_total = word_of_nat (length m)\<rparr> ?t)"
    using in_bounds u(1) unfolding reader_step_def
    by (simp add: Let_def total n h buf(1) those_map_Some)
  show thesis
  proof (cases "length p < 64")
    case True
    have "writable 1 ?t" using assms(6) by (simp add: writable_def)
    then obtain s' where s': "assert_write_port32 1 m (word_of_nat (length m)) ?t = Ok () s'"
      "writable 1 s'" "wrote 1 (frame m) ?t s'"
      using assert_write_port32_ok [of 1 ?t m] len by (auto simp: frame_def)
    moreover have "usb s' = u" using axo_more [of s' ?t] s'(3) by (simp add: frame_simps)
    ultimately show thesis
      using that [of "\<lparr>rd_buf = ?buf, rd_total = 0\<rparr>" s'] True assms(4,7) u buf(2)
      by (auto simp: step read_on_def holds_def frame_simps m_def)
  next
    case False
    then show thesis
      using that [of "\<lparr>rd_buf = ?buf, rd_total = word_of_nat (length m)\<rparr>" ?t]
        assms(4,6,7) u buf n in_bounds h
      by (auto simp: step read_on_def holds_def writable_def m_def)
  qed
qed

lemma reader_step_full:
  assumes "holds r part" and "length (rd_buf r) < 64 + length part"
  shows "reader_step lib r s = Stop (Error ''64 + total <= sizeof(buf)'') s"
proof -
  have "unat (64 + rd_total r) = 64 + length part"
    using assms(1) by (simp add: holds_def unat_word_ariths)
  with assms(2) show ?thesis by (simp add: reader_step_def)
qed

lemma reader_step_gone:
  assumes "receives lib sent_by incoming" and "incoming (usb s) = []"
  shows "reader_step lib r s \<noteq> Ok r' s'"
  using transfer_in_gone [OF assms]
  by (cases "unat (64 + rd_total r) \<le> length (rd_buf r)"; cases "transfer_in lib ep_in 64 s")
    (auto simp: reader_step_def io_simps)

section \<open>The invariant of the two threads\<close>

text \<open>After k messages from stdin and the packets ps from the device.\<close>

definition bridged ::
    "('u \<Rightarrow> u8 list list) \<Rightarrow> ('u \<Rightarrow> u8 list list) \<Rightarrow> ('u, 'h) axo \<Rightarrow> nat \<Rightarrow> u8 list list \<Rightarrow> u8 list \<Rightarrow>
      nat \<Rightarrow> u8 list list \<Rightarrow> ('u, 'h) axo \<Rightarrow> reading \<Rightarrow> bool" where
  "bridged sent_by incoming s0 cap msgs rest k ps s r \<longleftrightarrow>
     readable 0 s \<and> writable 1 s \<and> malloc_max s = malloc_max s0 \<and> live_blocks s = live_blocks s0 \<and>
     k \<le> length msgs \<and> pending 0 s = concat (map frame (drop k msgs)) @ rest \<and>
     sent_by (usb s) = sent_by (usb s0) @ concat (map packets (take k msgs)) \<and>
     incoming (usb s0) = ps @ incoming (usb s) \<and>
     out s 1 = out s0 1 @ concat (map frame (fst (assemble [] ps))) \<and>
     holds r (snd (assemble [] ps)) \<and> length (rd_buf r) = cap"

lemma bridged_start:
  assumes "readable 0 s0" "writable 1 s0" "holds r0 []" "pending 0 s0 = concat (map frame msgs) @ rest"
  shows "bridged sent_by incoming s0 (length (rd_buf r0)) msgs rest 0 [] s0 r0"
  using assms by (simp add: bridged_def)

lemma main_turn_possible:
  assumes "delivers lib sent_by incoming" and "bridged sent_by incoming s0 cap msgs rest k ps s r"
    and "\<forall>m \<in> set msgs. length m < 2 ^ 31 \<and> length m < malloc_max s0" and "k < length msgs"
  shows "\<exists>s'. main_step lib s = Ok () s' \<and> bridged sent_by incoming s0 cap msgs rest (Suc k) ps s' r"
proof -
  have k: "readable 0 s" "malloc_max s = malloc_max s0"
    "pending 0 s = frame (msgs ! k) @ concat (map frame (drop (Suc k) msgs)) @ rest"
    using assms(2,4) by (simp_all add: bridged_def flip: Cons_nth_drop_Suc)
  obtain t where t: "main_step lib s = Ok () t" "pending 0 t = concat (map frame (drop (Suc k) msgs)) @ rest"
    "readable 0 t" "sent_by (usb t) = sent_by (usb s) @ packets (msgs ! k)"
    "incoming (usb t) = incoming (usb s)" "wr t = wr s" "out t = out s"
    "malloc_max t = malloc_max s" "live_blocks t = live_blocks s"
    using main_step_ok [OF assms(1) k(1,3)] assms(3,4) k(2) by (metis nth_mem)
  moreover have "bridged sent_by incoming s0 cap msgs rest (Suc k) ps t r"
    using assms(2,4) t by (simp add: bridged_def writable_def take_Suc_conv_app_nth)
  ultimately show ?thesis by blast
qed

lemma main_turn_bridged:
  assumes "delivers lib sent_by incoming" and "bridged sent_by incoming s0 cap msgs rest k ps s r"
    and "\<forall>m \<in> set msgs. length m < 2 ^ 31 \<and> length m < malloc_max s0" and "length rest < 4"
    and "main_step lib s = Ok () s'"
  shows "k < length msgs \<and> bridged sent_by incoming s0 cap msgs rest (Suc k) ps s' r"
proof (cases "k < length msgs")
  case True
  then show ?thesis using main_turn_possible [OF assms(1-3)] assms(5) by auto
next
  case False
  then have "readable 0 s" "pending 0 s = rest" using assms(2) by (simp_all add: bridged_def)
  then show ?thesis using main_step_eof [of s lib s'] assms(4,5) by simp
qed

lemma reader_turn_possible:
  assumes "receives lib sent_by incoming" and "bridged sent_by incoming s0 cap msgs rest k ps s r"
    and "\<forall>p \<in> set (incoming (usb s0)). length p \<le> 64" and "incoming (usb s) = p # q"
    and "64 + length (snd (assemble [] ps)) \<le> cap"
  shows "\<exists>r' s'. reader_step lib r s = Ok r' s' \<and>
    bridged sent_by incoming s0 cap msgs rest k (ps @ [p]) s' r'"
proof -
  obtain ms part where ps: "assemble [] ps = (ms, part)" by fastforce
  then have b: "incoming (usb s0) = ps @ p # q" "holds r part" "length (rd_buf r) = cap"
    "writable 1 s" "out s 1 = out s0 1 @ concat (map frame ms)"
    using assms(2,4) by (simp_all add: bridged_def)
  obtain ms' l where a: "assemble part [p] = (ms', l)" by fastforce
  have "length p \<le> 64" "64 + length part \<le> length (rd_buf r)" using assms(3,5) b ps by simp_all
  then obtain r' s' where r': "reader_step lib r s = Ok r' s'" "incoming (usb s') = q"
    "read_on sent_by incoming s ms' s'" "holds r' l" "length (rd_buf r') = length (rd_buf r)"
    using reader_step_ok [OF assms(1,4) _ b(2) _ b(4) a] by blast
  moreover have "assemble [] (ps @ [p]) = (ms @ ms', l)"
    using a by (auto simp: assemble_snoc ps split: if_splits)
  ultimately have "bridged sent_by incoming s0 cap msgs rest k (ps @ [p]) s' r'"
    using assms(2) b by (simp add: bridged_def read_on_def pending_def readable_def)
  with r'(1) show ?thesis by blast
qed

lemma reader_turn_bridged:
  assumes "receives lib sent_by incoming" and "bridged sent_by incoming s0 cap msgs rest k ps s r"
    and "\<forall>p \<in> set (incoming (usb s0)). length p \<le> 64" and "reader_step lib r s = Ok r' s'"
  shows "\<exists>p. bridged sent_by incoming s0 cap msgs rest k (ps @ [p]) s' r'"
proof -
  obtain p q where p: "incoming (usb s) = p # q"
    using reader_step_gone [OF assms(1), of s r r' s'] assms(4) by (cases "incoming (usb s)") auto
  have "holds r (snd (assemble [] ps))" "length (rd_buf r) = cap"
    using assms(2) by (simp_all add: bridged_def)
  then have "64 + length (snd (assemble [] ps)) \<le> cap"
    using reader_step_full [of r _ lib s] assms(4) by (cases "cap < 64 + length (snd (assemble [] ps))") auto
  then show ?thesis using reader_turn_possible [OF assms(1-3) p] assms(4) by auto
qed

lemma axo_run_bridged:
  assumes "delivers lib sent_by incoming" and "receives lib sent_by incoming"
    and "\<forall>m \<in> set msgs. length m < 2 ^ 31 \<and> length m < malloc_max s0" and "length rest < 4"
    and "\<forall>p \<in> set (incoming (usb s0)). length p \<le> 64"
    and "bridged sent_by incoming s0 cap msgs rest 0 [] s0 r0" and "(axo_step lib ^^ n) (s0, r0) (s, r)"
  shows "\<exists>k ps. n = k + length ps \<and> bridged sent_by incoming s0 cap msgs rest k ps s r"
  using assms(7)
proof (induction n arbitrary: s r)
  case 0
  with assms(6) show ?case by force
next
  case (Suc n)
  then obtain s1 r1 where "(axo_step lib ^^ n) (s0, r0) (s1, r1)" and st: "axo_step lib (s1, r1) (s, r)"
    by auto
  with Suc.IH obtain k ps where n: "n = k + length ps"
    and b: "bridged sent_by incoming s0 cap msgs rest k ps s1 r1" by blast
  from st consider "main_step lib s1 = Ok () s" "r = r1" | "reader_step lib r1 s1 = Ok r s"
    by (cases rule: axo_step_cases) auto
  then show ?case
  proof cases
    case 1
    then show ?thesis using main_turn_bridged [OF assms(1) b assms(3,4)] n
      by (intro exI [of _ "Suc k"] exI [of _ ps]) simp
  next
    case 2
    then obtain p where "bridged sent_by incoming s0 cap msgs rest k (ps @ [p]) s r"
      using reader_turn_bridged [OF assms(2) b assms(5)] by blast
    then show ?thesis using n by (intro exI [of _ k] exI [of _ "ps @ [p]"]) simp
  qed
qed

text \<open>While a packet of a message is to come there is room for it.\<close>

lemma dvd_room:
  fixes n m :: nat
  assumes "64 dvd n" "64 dvd m" "n < m"
  shows "64 + n \<le> m"
proof -
  from assms have "64 dvd (m - n)" "0 < m - n" by (simp_all add: dvd_diff_nat)
  then have "64 \<le> m - n" by (rule dvd_imp_le)
  with assms(3) show ?thesis by linarith
qed

lemma room_message:
  assumes "ps @ p # q = packets bs @ rest" and "64 dvd length part" and "64 dvd cap"
    and "length part + length bs < cap"
  shows "64 + length (snd (assemble part ps)) \<le> cap \<or> (\<exists>ps'. ps = packets bs @ ps')"
  using assms
proof (induction bs arbitrary: part ps rule: packets.induct)
  case (1 bs)
  show ?case
  proof (cases ps)
    case Nil
    then show ?thesis using dvd_room [OF 1(3,4)] 1(5) by simp
  next
    case (Cons p0 ps1)
    show ?thesis
    proof (cases "64 \<le> length bs")
      case True
      then have "64 + length (snd (assemble (part @ take 64 bs) ps1)) \<le> cap \<or>
          (\<exists>ps'. ps1 = packets (drop 64 bs) @ ps')"
        using 1(2-5) Cons by (intro 1(1)) (auto simp: packets.simps [of bs])
      then show ?thesis using True Cons 1(2) by (auto simp: packets.simps [of bs])
    next
      case False
      then show ?thesis using 1(2) Cons by (simp add: packets.simps [of bs])
    qed
  qed
qed

lemma room_messages:
  assumes "ps @ p # q = concat (map packets ins)" and "64 dvd cap" and "\<forall>m \<in> set ins. length m < cap"
  shows "64 + length (snd (assemble [] ps)) \<le> cap"
  using assms
proof (induction ins arbitrary: ps)
  case (Cons m ins)
  have "64 + length (snd (assemble [] ps)) \<le> cap \<or> (\<exists>ps'. ps = packets m @ ps')"
    using Cons.prems by (intro room_message) auto
  then show ?case
  proof
    assume "\<exists>ps'. ps = packets m @ ps'"
    then obtain ps' where ps: "ps = packets m @ ps'" by blast
    then have "64 + length (snd (assemble [] ps')) \<le> cap"
      using Cons.prems by (intro Cons.IH) auto
    then show ?thesis by (simp add: ps assemble_packets case_prod_beta)
  qed
qed simp

text \<open>One message from the device: its packets, one turn each.\<close>

lemma reader_loop_message:
  assumes "receives lib sent_by incoming" and "incoming (usb s) = packets bs @ q"
    and "holds r part" and "length part + length bs < length (rd_buf r)"
    and "64 dvd length (rd_buf r)" "64 dvd length part" and "writable 1 s"
  shows "\<exists>r' s'. reader_loop (length (packets bs)) lib r s = Ok r' s' \<and> incoming (usb s') = q \<and>
    read_on sent_by incoming s [part @ bs] s' \<and> holds r' [] \<and> length (rd_buf r') = length (rd_buf r)"
  using assms
proof (induction bs arbitrary: part r s rule: packets.induct)
  case (1 bs)
  obtain j k where jk: "length (rd_buf r) = 64 * j" "length part = 64 * k"
    using 1(6,7) by (auto elim!: dvdE)
  with 1(5) have "k < j" by linarith
  with jk have room: "64 + length part \<le> length (rd_buf r)" by linarith
  show ?case
  proof (cases "64 \<le> length bs")
    case True
    have a: "assemble part [take 64 bs] = ([], part @ take 64 bs)" using True by simp
    obtain r1 s1 where r1: "reader_step lib r s = Ok r1 s1" "incoming (usb s1) = packets (drop 64 bs) @ q"
      "read_on sent_by incoming s [] s1" "holds r1 (part @ take 64 bs)"
      "length (rd_buf r1) = length (rd_buf r)"
      using reader_step_ok [OF 1(2) _ _ 1(4) room 1(8) a] 1(3) True
      by (auto simp: packets.simps [of bs])
    have "\<exists>r' s'. reader_loop (length (packets (drop 64 bs))) lib r1 s1 = Ok r' s' \<and>
        incoming (usb s') = q \<and> read_on sent_by incoming s1 [(part @ take 64 bs) @ drop 64 bs] s' \<and>
        holds r' [] \<and> length (rd_buf r') = length (rd_buf r1)"
      using True 1(2,5,6,7) r1 by (intro 1(1)) (auto simp: read_on_def dvd_add)
    then show ?thesis
      using True r1(1,3,5) by (auto simp: packets.simps [of bs] read_on_def)
  next
    case False
    have a: "assemble part [bs] = ([part @ bs], [])" using False by simp
    show ?thesis
      using reader_step_ok [OF 1(2) _ _ 1(4) room 1(8) a] 1(3) False
      by (fastforce simp: packets.simps [of bs])
  qed
qed

lemma reader_loop_append:
  "reader_loop (m + n) lib r = andthen (reader_loop m lib r) (reader_loop n lib)"
proof (induction m arbitrary: r)
  case (Suc m)
  have "reader_loop (m + n) lib = (\<lambda>r. andthen (reader_loop m lib r) (reader_loop n lib))"
    by (rule ext) (rule Suc.IH)
  then show ?case by (simp add: andthen_assoc)
qed simp

lemma reader_loop_messages:
  assumes "receives lib sent_by incoming" and "incoming (usb s) = concat (map packets msgs) @ q"
    and "holds r []" and "64 dvd length (rd_buf r)" and "writable 1 s"
    and "\<forall>m \<in> set msgs. length m < length (rd_buf r)"
  shows "\<exists>r' s'. reader_loop (length (concat (map packets msgs))) lib r s = Ok r' s' \<and>
    incoming (usb s') = q \<and> read_on sent_by incoming s msgs s' \<and> holds r' [] \<and>
    length (rd_buf r') = length (rd_buf r)"
  using assms(2-6)
proof (induction msgs arbitrary: r s)
  case Nil
  then show ?case by (simp add: read_on_def)
next
  case (Cons m msgs)
  obtain r1 s1 where r1: "reader_loop (length (packets m)) lib r s = Ok r1 s1"
    "incoming (usb s1) = concat (map packets msgs) @ q" "read_on sent_by incoming s [m] s1"
    "holds r1 []" "length (rd_buf r1) = length (rd_buf r)"
    using reader_loop_message [OF assms(1), of s m "concat (map packets msgs) @ q" r "[]"] Cons.prems
    by auto
  then have "\<exists>r' s'. reader_loop (length (concat (map packets msgs))) lib r1 s1 = Ok r' s' \<and>
      incoming (usb s') = q \<and> read_on sent_by incoming s1 msgs s' \<and> holds r' [] \<and>
      length (rd_buf r') = length (rd_buf r1)"
    using Cons.prems by (intro Cons.IH) (auto simp: read_on_def)
  then show ?case
    using r1(1,3,5) by (auto simp: reader_loop_append read_on_def)
qed

lemma main_loop_messages:
  assumes "delivers lib sent_by incoming" and "readable 0 s"
    and "pending 0 s = concat (map frame msgs) @ rest"
    and "\<forall>m \<in> set msgs. length m < 2 ^ 31 \<and> length m < malloc_max s"
  shows "\<exists>s'. main_loop (length msgs) lib s = Ok () s' \<and> pending 0 s' = rest \<and> readable 0 s' \<and>
    sent_by (usb s') = sent_by (usb s) @ concat (map packets msgs) \<and>
    live_blocks s' = live_blocks s \<and> out s' = out s"
  using assms(2-4)
proof (induction msgs arbitrary: s)
  case (Cons m msgs)
  obtain t where t: "main_step lib s = Ok () t" "pending 0 t = concat (map frame msgs) @ rest"
    "readable 0 t" "sent_by (usb t) = sent_by (usb s) @ packets m" "out t = out s"
    "malloc_max t = malloc_max s" "live_blocks t = live_blocks s"
    using main_step_ok [OF assms(1) Cons.prems(1), of m "concat (map frame msgs) @ rest"] Cons.prems(2,3)
    by auto
  with Cons.IH [of t] Cons.prems(3) obtain u where "main_loop (length msgs) lib t = Ok () u"
    "pending 0 u = rest" "readable 0 u"
    "sent_by (usb u) = sent_by (usb t) @ concat (map packets msgs)"
    "live_blocks u = live_blocks t" "out u = out t"
    by auto
  with t show ?case by auto
qed simp

section \<open>A library for the witnesses\<close>

text \<open>A bus state is the packets sent and those to come, and the product codes of its devices.\<close>

definition toy_usb :: "(u8 list list \<times> u8 list list, u16, u16) usb_lib" where
  "toy_usb = \<lparr>
     lib_init = (\<lambda>u. (0, u)),
     lib_device_list = (\<lambda>u. (Inr [1, 0x442], u)),
     lib_descriptor = (\<lambda>v u. (0, 0x16c0, v)),
     lib_usb_open = (\<lambda>v u. (0, v, u)),
     lib_bulk_out = (\<lambda>h ep mem len (sent, inc). (0, (sent @ [take (nat len) mem], inc))),
     lib_bulk_in = (\<lambda>h ep len (sent, inc).
       case inc of [] \<Rightarrow> (- 4, [], (sent, inc)) | p # q \<Rightarrow> (0, p, (sent, q)))\<rparr>"

lemma toy_usb_ok: "delivers toy_usb fst snd" "receives toy_usb fst snd"
  by (auto simp: delivers_def receives_def toy_usb_def split: list.splits prod.splits)

definition toy_axo :: "rd_event list \<Rightarrow> u8 list list \<Rightarrow> (u8 list list \<times> u8 list list, u16) axo" where
  "toy_axo q inc = \<lparr>rd = (\<lambda>_. [])(0 := q), wr = (\<lambda>_. []), out = (\<lambda>_. []), malloc_max = 1000,
     live_blocks = 0, usb = ([], inc), handle = None\<rparr>"

lemma toy_axo_simps [simp]:
  "readable 0 (toy_axo q inc) = script_ok q" "writable 1 (toy_axo q inc)"
  "pending 0 (toy_axo q inc) = script_bytes q" "out (toy_axo q inc) fd = []"
  "malloc_max (toy_axo q inc) = 1000" "live_blocks (toy_axo q inc) = 0"
  "usb (toy_axo q inc) = ([], inc)"
  by (simp_all add: toy_axo_def readable_def writable_def pending_def)

section \<open>Properties\<close>

text \<open>A message of 64 bytes in each direction: two packets each.\<close>

definition toy_msg :: "u8 list" where "toy_msg = replicate 64 7"

lemma toy_msg_packets: "packets toy_msg = [toy_msg, []]"
  by (simp add: toy_msg_def packets.simps [of "replicate 64 7"] packets.simps [of "[]"])

text \<open>A message of 64 bytes in each direction: a turn of the main thread, two of the reader.\<close>

lemma toy_bridge_run:
  "\<exists>s r. (axo_step toy_usb ^^ 3)
     (toy_axo [Rd_data (frame toy_msg)] [toy_msg, []], reader_start 128 0) (s, r) \<and> snd (usb s) = []"
proof -
  let ?s = "toy_axo [Rd_data (frame toy_msg)] [toy_msg, []]"
  have ok: "frame toy_msg \<noteq> []" "length toy_msg = 64"
    by (simp_all add: frame_def toy_msg_def be_bytes_4)
  obtain s1 where s1: "main_step toy_usb ?s = Ok () s1" "snd (usb s1) = [toy_msg, []]" "wr s1 = wr ?s"
    using main_step_ok [OF toy_usb_ok(1), of ?s toy_msg "[]"] ok by auto
  have w: "writable 1 s1" using s1(3) by (simp add: writable_def toy_axo_def)
  have start: "holds (reader_start 128 0) []" by (simp add: holds_start)
  have first: "assemble [] [toy_msg] = ([], toy_msg)" "assemble toy_msg [[]] = ([toy_msg], [])"
    using ok by simp_all
  obtain r2 s2 where s2: "reader_step toy_usb (reader_start 128 0) s1 = Ok r2 s2" "snd (usb s2) = [[]]"
    "read_on fst snd s1 [] s2" "holds r2 toy_msg" "length (rd_buf r2) = 128"
    using reader_step_ok [OF toy_usb_ok(2) s1(2) _ start _ w first(1)] ok by auto
  have more: "length ([] :: u8 list) \<le> 64" "64 + length toy_msg \<le> length (rd_buf r2)" "writable 1 s2"
    using s2(3,5) ok by (simp_all add: read_on_def)
  obtain r3 s3 where s3: "reader_step toy_usb r2 s2 = Ok r3 s3" "snd (usb s3) = []"
    using reader_step_ok [OF toy_usb_ok(2) s2(2) more(1) s2(4) more(2,3) first(2)] by blast
  let ?r = "reader_start 128 0"
  have "(axo_step toy_usb ^^ 1) (?s, ?r) (s1, ?r)" using main_turn [OF s1(1)] by (simp add: eq_OO)
  then have "(axo_step toy_usb ^^ Suc 1) (?s, ?r) (s2, r2)" using reader_turn [OF s2(1)] by (rule relpowp_Suc_I)
  then have "(axo_step toy_usb ^^ Suc (Suc 1)) (?s, ?r) (s3, r3)" using reader_turn [OF s3(1)] by (rule relpowp_Suc_I)
  then have "(axo_step toy_usb ^^ 3) (?s, ?r) (s3, r3)"
    by (simp only: numeral_3_eq_3 One_nat_def)
  with s3(2) show ?thesis by blast
qed

text \<open>C13: The bridge gets on, whichever thread is scheduled for a whole turn. With whole messages on
  both sides, each from the device shorter than the buffer (a longer one stops the reader on its
  assertion), and if the reader's total, which the program does not set, is 0 at the start: a run can
  take a further turn exactly until it has taken one per message of stdin and one per packet of the
  device, no more; at that point everything has arrived at its other end, the same bytes whatever
  the order of the turns was.\<close>

theorem axo_bridge_drains:
  assumes "delivers lib sent_by incoming" and "receives lib sent_by incoming"
    and "(axo_step lib ^^ n) (s0, reader_start cap 0) (s, r)"
    and "readable 0 s0" "writable 1 s0"
    and "pending 0 s0 = concat (map frame msgs) @ rest" "length rest < 4"
    and "\<forall>m \<in> set msgs. length m < 2 ^ 31 \<and> length m < malloc_max s0"
    and "incoming (usb s0) = concat (map packets ins)"
    and "64 dvd cap" "cap < 2 ^ 31" "\<forall>m \<in> set ins. length m < cap"
  shows "n \<le> length msgs + length (incoming (usb s0)) \<and>
    ((\<exists>s' r'. axo_step lib (s, r) (s', r')) \<longleftrightarrow> n < length msgs + length (incoming (usb s0))) \<and>
    (n = length msgs + length (incoming (usb s0)) \<longrightarrow>
       sent_by (usb s) = sent_by (usb s0) @ concat (map packets msgs) \<and> pending 0 s = rest \<and>
       out s 1 = out s0 1 @ concat (map frame ins) \<and> incoming (usb s) = [])"
proof -
  let ?all = "length msgs + length (incoming (usb s0))"
  have short: "\<forall>p \<in> set (incoming (usb s0)). length p \<le> 64"
    using assms(9) packets_short by auto
  have start: "bridged sent_by incoming s0 cap msgs rest 0 [] s0 (reader_start cap 0)"
    using bridged_start [OF assms(4,5) holds_start [OF assms(11)] assms(6)] by simp
  obtain k ps where n: "n = k + length ps"
    and b: "bridged sent_by incoming s0 cap msgs rest k ps s r"
    using axo_run_bridged [OF assms(1,2,8,7) short start assms(3)] by blast
  have k: "k \<le> length msgs" and inc: "incoming (usb s0) = ps @ incoming (usb s)"
    using b by (simp_all add: bridged_def)
  have le: "n \<le> ?all" using n k inc by simp
  have full: "k = length msgs \<and> incoming (usb s) = []" if "\<not> n < ?all"
    using that n k arg_cong [OF inc, of length] by (cases "incoming (usb s)") auto
  have "\<exists>s' r'. axo_step lib (s, r) (s', r')" if less: "n < ?all"
  proof (cases "k < length msgs")
    case True
    then show ?thesis using main_turn_possible [OF assms(1) b assms(8)] main_turn by blast
  next
    case False
    then obtain p q where p: "incoming (usb s) = p # q"
      using less n k inc by (cases "incoming (usb s)") auto
    have "64 + length (snd (assemble [] ps)) \<le> cap"
      using room_messages [OF _ assms(10,12), of ps p q] inc assms(9) p by simp
    then show ?thesis using reader_turn_possible [OF assms(2) b short p] reader_turn by blast
  qed
  moreover have "\<not> axo_step lib (s, r) (s', r')" if "\<not> n < ?all" for s' r'
    using full [OF that] main_turn_bridged [OF assms(1) b assms(8,7)]
      reader_step_gone [OF assms(2), of s r r' s'] by (auto elim!: axo_step_cases)
  moreover have "sent_by (usb s) = sent_by (usb s0) @ concat (map packets msgs) \<and> pending 0 s = rest \<and>
       out s 1 = out s0 1 @ concat (map frame ins) \<and> incoming (usb s) = []" if "n = ?all"
    using full that b assms(9) assemble_all_packets [of ins] by (auto simp: bridged_def)
  ultimately show ?thesis using le by blast
qed

theorem axo_bridge_drains_witness:
  "\<exists>s r. (axo_step toy_usb ^^ 3)
         (toy_axo [Rd_data (frame toy_msg)] [toy_msg, []], reader_start 128 0) (s, r) \<and>
       fst (usb s) = [toy_msg, []] \<and> out s 1 = frame toy_msg \<and> (\<nexists>s' r'. axo_step toy_usb (s, r) (s', r'))"
proof -
  have ok: "frame toy_msg \<noteq> []" "length toy_msg = 64"
    by (simp_all add: frame_def toy_msg_def be_bytes_4)
  obtain s r where run: "(axo_step toy_usb ^^ 3)
      (toy_axo [Rd_data (frame toy_msg)] [toy_msg, []], reader_start 128 0) (s, r)"
    using toy_bridge_run by blast
  from axo_bridge_drains [OF toy_usb_ok run, of "[toy_msg]" "[]" "[toy_msg]"] ok
  show ?thesis using run by (fastforce simp: toy_msg_packets)
qed

text \<open>What one side cuts into packets the reader thread joins again: started with a total of
  0, it writes each message of less than 1 MiB in one frame, however many packets it takes.\<close>

lemma axo_packets_roundtrip:
  assumes "receives lib sent_by incoming" and "incoming (usb s) = concat (map packets msgs) @ q"
    and "writable 1 s" and "\<forall>m \<in> set msgs. length m < 1024 * 1024"
  shows "\<exists>r' s'. reader_main (length (concat (map packets msgs))) lib 0 s = Ok r' s' \<and>
    incoming (usb s') = q \<and> out s' 1 = out s 1 @ concat (map frame msgs) \<and> rd_total r' = 0"
proof -
  let ?r = "reader_start (1024 * 1024) 0"
  have "holds ?r []" "64 dvd length (rd_buf ?r)" by (simp_all add: holds_start)
  then obtain r' s' where "reader_loop (length (concat (map packets msgs))) lib ?r s = Ok r' s'"
    "incoming (usb s') = q" "read_on sent_by incoming s msgs s'" "holds r' []"
    using reader_loop_messages [OF assms(1,2), of ?r] assms(3,4) by auto
  moreover from this(4) have "rd_total r' = 0" by (simp add: holds_def unat_eq_zero)
  ultimately show ?thesis by (auto simp: reader_main_def read_on_def)
qed

text \<open>\<open>open_usb\<close> opens the first device of the list whose ids are 16c0:0442, when the
  descriptors can be read, and reports the failing call or that there is no such device.\<close>

lemma open_usb_finds_first:
  assumes "lib_init lib (usb s) = (0, u)" and "lib_device_list lib u = (Inr devs, u')"
    and "devs \<noteq> []" and "\<forall>v \<in> set devs. fst (lib_descriptor lib v u') = 0"
  shows "open_usb lib s =
    (case find (\<lambda>v. snd (lib_descriptor lib v u') = (0x16c0, 0x0442)) devs of
       None \<Rightarrow> Stop (Error ''device not found'') (s\<lparr>usb := u'\<rparr>)
     | Some v \<Rightarrow>
         (case lib_usb_open lib v u' of (rv, h, u'') \<Rightarrow>
            if rv = 0 then Ok () (s\<lparr>usb := u'', handle := Some h\<rparr>)
            else Stop (Error '' error'') (s\<lparr>usb := u''\<rparr>)))"
proof -
  have "try_devices lib ds t =
    (case find (\<lambda>v. snd (lib_descriptor lib v (usb t)) = (0x16c0, 0x0442)) ds of
       None \<Rightarrow> Stop (Error ''device not found'') t
     | Some v \<Rightarrow>
         (case lib_usb_open lib v (usb t) of (rv, h, u'') \<Rightarrow>
            if rv = 0 then Ok () (t\<lparr>usb := u'', handle := Some h\<rparr>)
            else Stop (Error '' error'') (t\<lparr>usb := u''\<rparr>)))"
    if "\<forall>v \<in> set ds. fst (lib_descriptor lib v (usb t)) = 0" for ds and t :: "('a, 'c) axo"
    using that by (induction ds) (auto split: prod.splits)
  from this [of devs "s\<lparr>usb := u'\<rparr>"] show ?thesis
    using assms by (auto simp: open_usb_def split: option.splits prod.splits)
qed

lemma open_usb_finds_first_witness:
  "\<exists>s'. open_usb toy_usb (toy_axo [] []) = Ok () s' \<and> handle s' = Some 0x442"
  using open_usb_finds_first [of toy_usb "toy_axo [] []" "([], [])" "[1, 0x442]" "([], [])"]
  by (auto simp: toy_usb_def)

text \<open>The reader thread's total is never set before it is read: whatever non zero value it
  happens to hold, a first short packet is never delivered. The thread stops on its bound check,
  stores outside the buffer (the check wraps in uint32_t), or sends bytes nobody has stored.\<close>

lemma reader_total_uninitialised:
  assumes "receives lib sent_by incoming" and "incoming (usb s) = p # q" and "length p < 64"
    and "p \<noteq> []" and "garbage \<noteq> 0"
  shows "\<exists>h s'. reader_main (Suc n) lib garbage s = Stop h s' \<and> out s' = out s \<and>
    h \<in> {Undef Uninitialised, Undef Out_Of_Bounds, Error ''64 + total <= sizeof(buf)''}"
proof -
  let ?r = "\<lparr>rd_buf = replicate (1024 * 1024) None, rd_total = garbage\<rparr>"
  let ?buf = "store_at (rd_buf ?r) (unat garbage) p"
  obtain u where u: "transfer_in lib ep_in 64 s = Ok p (s\<lparr>usb := u\<rparr>)"
    using transfer_in_ok [OF assms(1,2)] assms(3) by auto
  have "those (take (unat (garbage + word_of_nat (length p))) ?buf) = None"
    if "unat garbage + length p \<le> 1024 * 1024"
  proof -
    have "0 < unat garbage" using assms(5) by (simp add: unat_gt_0)
    moreover have "unat (garbage + word_of_nat (length p)) = unat garbage + length p"
      using that assms(3) by (simp add: unat_word_ariths unat_u32_of_nat)
    ultimately have "take (unat (garbage + word_of_nat (length p))) ?buf =
        None # tl (take (unat (garbage + word_of_nat (length p))) ?buf)"
      using that by (cases "unat garbage") (simp_all add: store_at_def)
    then show ?thesis by (metis (no_types, lifting) option.simps(4) those.simps(2))
  qed
  then show ?thesis
    using u assms(3) by (auto simp: reader_main_def reader_start_def reader_step_def assert_that_def Let_def io_simps)
qed

lemma reader_total_uninitialised_witness:
  "\<exists>h s'. reader_main 1 toy_usb 5 (toy_axo [] [[1]]) = Stop h s' \<and> out s' 1 = []"
  using reader_total_uninitialised [OF toy_usb_ok(2), of "toy_axo [] [[1]]" "[1]" "[]" 5 0]
  by auto

end
