(* ===== verification/Axo_Threads.thy ===== *)
theory Axo_Threads
  imports Axo_Usb "HOL-Library.Sublist"
begin

text \<open>
  The two threads of c_src/axo_connect.c, preempted between any two calls: each thread is where it
  is in its loop, and a turn of a thread is one call of the system or of libusb with what leads to
  the next one. \<open>axo_step\<close> of \<open>Axo_Usb\<close>, whole loop bodies, is a special schedule; the invariant
  here is that of every schedule, so it also describes what there is when one thread ends the
  program while the other one is in the middle of its work.
\<close>

section \<open>The turns\<close>








section \<open>Loop bodies are sequences of turns\<close>








section \<open>The invariant of each thread\<close>





















section \<open>Properties\<close>





end
