(* ===== verification/Ftdi_Mpsse.thy ===== *)
theory Ftdi_Mpsse
  imports Port
begin

text \<open>
  The FTDI port program c_src/ftdi_connect.c: commands in {packet,4} frames drive the MPSSE engine
  of an FTDI chip, to pass bytes through, to shift out SPI data, or to program an iCE40 FPGA.
  libftdi and the command codes of its header are a parameter, a record of the functions and
  constants the program uses over a device state; \<open>ftdi_ok\<close> states what is relied on. Results of
  poll are data of the state. A byte that may not have been stored is None.
\<close>

section \<open>The libftdi interface\<close>

record 'f ftdi_lib =
  f_write :: "u8 list \<Rightarrow> int \<Rightarrow> 'f \<Rightarrow> int \<times> 'f"
  f_read :: "int \<Rightarrow> 'f \<Rightarrow> int \<times> u8 list \<times> 'f"
  f_init :: "'f \<Rightarrow> 'f"
  f_set_interface_a :: "'f \<Rightarrow> 'f"
  f_usb_open_string :: "string \<Rightarrow> 'f \<Rightarrow> int \<times> 'f"
  f_usb_reset :: "'f \<Rightarrow> int \<times> 'f"
  f_usb_purge_buffers :: "'f \<Rightarrow> int \<times> 'f"
  f_set_bitmode_mpsse :: "u8 \<Rightarrow> 'f \<Rightarrow> int \<times> 'f"
  c_mpsse_do_write :: u8
  c_mpsse_write_neg :: u8
  c_set_bits_low :: u8
  c_get_bits_low :: u8
  c_write_extended :: u8
  c_clk_bytes :: u8
  c_clk_bits :: u8
  c_en_div_5 :: u8
  c_tck_divisor :: u8

record 'f ftdi = posix +
  ftdic :: 'f
  slept :: nat
  polls :: "int list"
  files :: "string \<Rightarrow> u8 list option"

type_synonym ('f, 'a) ftdi_cm = "('f ftdi, 'a) cm"

definition usleep :: "nat \<Rightarrow> ('f, unit) ftdi_cm" where
  "usleep us = modify (\<lambda>s. s\<lparr>slept := slept s + us\<rparr>)"

definition ftdi_call :: "('f \<Rightarrow> int \<times> 'f) \<Rightarrow> ('f, int) ftdi_cm" where
  "ftdi_call f = (\<lambda>s. case f (ftdic s) of (rc, d) \<Rightarrow> Ok rc (s\<lparr>ftdic := d\<rparr>))"

section \<open>Bytes\<close>

definition send_byte :: "'f ftdi_lib \<Rightarrow> u8 \<Rightarrow> ('f, unit) ftdi_cm" where
  "send_byte lib data =
     andthen (ftdi_call (f_write lib [data] 1)) (\<lambda>rc.
     assert_that (1 = rc) ''1 == ftdi_write_data(&ftdic, &data, 1)'')"

text \<open>One turn of the loop of \<open>recv_byte\<close>. The assignment in the assertion gives rc the value of
  the comparison, so the test for one byte is a test for no error. The result is whether to leave
  the loop, and the byte.\<close>

definition recv_turn :: "'f ftdi_lib \<Rightarrow> u8 option \<Rightarrow> ('f, bool \<times> u8 option) ftdi_cm" where
  "recv_turn lib data = (\<lambda>s.
     case f_read lib 1 (ftdic s) of (nb, bs, d) \<Rightarrow>
       (let s' = s\<lparr>ftdic := d\<rparr>;
            data' = (case bs of [] \<Rightarrow> data | b # _ \<Rightarrow> Some b);
            rc = (if 0 \<le> nb then 1 else 0 :: int) in
        if rc = 0 then Stop (Error ''rc = ftdi_read_data(&ftdic, &data, 1) >= 0'') s'
        else Ok (rc = 1, data') s'))"

primrec recv_loop :: "nat \<Rightarrow> 'f ftdi_lib \<Rightarrow> u8 option \<Rightarrow> ('f, u8 option) ftdi_cm" where
  "recv_loop 0 lib data = stop Out_Of_Fuel"
| "recv_loop (Suc n) lib data =
     andthen (recv_turn lib data) (\<lambda>(leave, data').
     if leave then ret data'
     else andthen (usleep 100) (\<lambda>_. recv_loop n lib data'))"

definition recv_byte :: "'f ftdi_lib \<Rightarrow> ('f, u8 option) ftdi_cm" where
  "recv_byte lib = recv_loop 1 lib None"

section \<open>SPI\<close>

definition send_spi :: "'f ftdi_lib \<Rightarrow> u8 list \<Rightarrow> int \<Rightarrow> ('f, unit) ftdi_cm" where
  "send_spi lib data n =
     (if n < 1 then skip
      else statements
        [send_byte lib (c_mpsse_do_write lib OR c_mpsse_write_neg lib),
         send_byte lib (word_of_int (n - 1)),
         send_byte lib (word_of_int ((n - 1) div 2 ^ 8)),
         andthen (ftdi_call (f_write lib data n)) (\<lambda>rc. assert_that (rc = n) ''rc == n'')])"

function spi_chunks :: "'f ftdi_lib \<Rightarrow> u8 list \<Rightarrow> nat \<Rightarrow> ('f, unit) ftdi_cm" where
  "spi_chunks lib buf len =
     (if 0 < len then
        let chunk = (if len > 4096 then 4096 else len) in
        andthen (send_spi lib buf (int chunk)) (\<lambda>_. spi_chunks lib (drop chunk buf) (len - chunk))
      else skip)"
  by pat_completeness auto
termination by (relation "measure (\<lambda>(lib, buf, len). len)") (auto split: if_splits)

declare spi_chunks.simps [simp del]

definition send_spi_chunked :: "'f ftdi_lib \<Rightarrow> u8 list \<Rightarrow> u32 \<Rightarrow> ('f, unit) ftdi_cm" where
  "send_spi_chunked lib buf len =
     andthen (spi_chunks lib buf (unat len)) (\<lambda>_. usleep 10000)"

section \<open>Pins\<close>

definition gpio_byte :: "bool \<Rightarrow> bool \<Rightarrow> u8" where
  "gpio_byte slavesel_b creset_b =
     (let gpio = 1;
          gpio = (if slavesel_b then gpio OR 0x10 else gpio) in
      if creset_b then gpio OR 0x80 else gpio)"

definition set_gpio :: "'f ftdi_lib \<Rightarrow> bool \<Rightarrow> bool \<Rightarrow> ('f, unit) ftdi_cm" where
  "set_gpio lib slavesel_b creset_b = statements
     [send_byte lib (c_set_bits_low lib),
      send_byte lib (gpio_byte slavesel_b creset_b),
      send_byte lib (c_write_extended lib)]"

definition get_cdone :: "'f ftdi_lib \<Rightarrow> ('f, bool option) ftdi_cm" where
  "get_cdone lib =
     andthen (send_byte lib (c_get_bits_low lib)) (\<lambda>_.
     andthen (recv_byte lib) (\<lambda>data. ret (map_option (\<lambda>b. b AND 0x40 \<noteq> 0) data)))"

definition log_cdone :: "'f ftdi_lib \<Rightarrow> ('f, unit) ftdi_cm" where
  "log_cdone lib = andthen (get_cdone lib) (\<lambda>_. skip)"

section \<open>Programming\<close>

definition reset_fpga :: "'f ftdi_lib \<Rightarrow> ('f, unit) ftdi_cm list" where
  "reset_fpga lib =
     [set_gpio lib False False, usleep 100, set_gpio lib False True, usleep 2000, log_cdone lib]"

definition dummy_bits :: "'f ftdi_lib \<Rightarrow> ('f, unit) ftdi_cm list" where
  "dummy_bits lib =
     [send_byte lib (c_clk_bytes lib), send_byte lib 0x05, send_byte lib 0x00,
      send_byte lib (c_clk_bits lib), send_byte lib 0x00]"

definition prog_sram_write :: "'f ftdi_lib \<Rightarrow> u8 list \<Rightarrow> u32 \<Rightarrow> ('f, unit) ftdi_cm" where
  "prog_sram_write lib buf len = statements
     (reset_fpga lib @ [send_spi_chunked lib buf len] @ dummy_bits lib @ [log_cdone lib])"

text \<open>The loop over a file: fread gives 4096 bytes as long as there are as many, then what is
  left, then nothing.\<close>

function send_file :: "'f ftdi_lib \<Rightarrow> u8 list \<Rightarrow> ('f, unit) ftdi_cm" where
  "send_file lib rest =
     (let buffer = take 4096 rest in
      if buffer = [] then skip
      else andthen (send_spi lib buffer (int (length buffer))) (\<lambda>_. send_file lib (drop 4096 rest)))"
  by pat_completeness auto
termination by (relation "measure (\<lambda>(lib, rest). length rest)") (auto simp: neq_Nil_conv)

declare send_file.simps [simp del]

definition open_and_send :: "'f ftdi_lib \<Rightarrow> string \<Rightarrow> ('f, unit) ftdi_cm" where
  "open_and_send lib filename =
     andthen (gets (\<lambda>s. files s filename)) (\<lambda>f.
     case f of None \<Rightarrow> stop (Error ''f = fopen(filename, rb)'')
     | Some content \<Rightarrow> send_file lib content)"

definition prog_sram :: "'f ftdi_lib \<Rightarrow> string \<Rightarrow> ('f, unit) ftdi_cm" where
  "prog_sram lib filename = statements
     (reset_fpga lib @ [open_and_send lib filename] @ dummy_bits lib @
      [log_cdone lib, set_gpio lib True True])"

definition raw_spi_write :: "'f ftdi_lib \<Rightarrow> u8 list \<Rightarrow> u32 \<Rightarrow> ('f, unit) ftdi_cm" where
  "raw_spi_write lib buf len = statements
     [set_gpio lib False True, usleep 1000, send_spi_chunked lib buf len,
      set_gpio lib True True, usleep 100]"

definition raw_spi :: "'f ftdi_lib \<Rightarrow> string \<Rightarrow> ('f, unit) ftdi_cm" where
  "raw_spi lib filename = statements
     [set_gpio lib False True, usleep 1000, open_and_send lib filename,
      set_gpio lib True True, usleep 100]"

section \<open>Commands\<close>

text \<open>The bytes of \<open>struct command\<close> before its data.\<close>

definition sizeof_command :: nat where "sizeof_command = 4"

definition ack :: "u8 option list \<Rightarrow> u8 \<Rightarrow> ('f, unit) ftdi_cm" where
  "ack msg sz =
     andthen (assert_write 1 [0, 0, 0, sz] 4) (\<lambda>_.
     if sz \<noteq> 0 then
       (case those (take (unat sz) msg) of
          None \<Rightarrow> stop (Undef Uninitialised)
        | Some bs \<Rightarrow> andthen (assert_write 1 bs (ucast sz)) (\<lambda>_. skip))
     else skip)"

text \<open>Case 0: a transaction of the bytes behind the header and a reply of the size it gives.\<close>

definition transaction ::
    "'f ftdi_lib \<Rightarrow> u8 list \<Rightarrow> u32 \<Rightarrow> u8 \<Rightarrow> ('f, unit) ftdi_cm" where
  "transaction lib data data_len reply_size =
     andthen (for_each (\<lambda>i. if i < length data then send_byte lib (data ! i)
                            else stop (Undef Out_Of_Bounds)) [0..<unat data_len]) (\<lambda>_.
     if reply_size \<noteq> 0
     then andthen (collect (unat reply_size) (recv_byte lib)) (\<lambda>reply. ack reply reply_size)
     else ack [] 0)"

definition dispatch :: "'f ftdi_lib \<Rightarrow> u8 list \<Rightarrow> u32 \<Rightarrow> ('f, unit) ftdi_cm" where
  "dispatch lib c len =
     (let data = drop sizeof_command c;
          data_len = len - word_of_nat sizeof_command;
          cmd = c ! 0 in
      if cmd = 0 then transaction lib data data_len (c ! 1)
      else if cmd = 1 then andthen (raw_spi_write lib data data_len) (\<lambda>_. ack [] 0)
      else if cmd = 2 then andthen (prog_sram_write lib data data_len) (\<lambda>_. ack [] 0)
      else if cmd = 3 then ack [] 0
      else stop (Error ''bad command''))"

definition command :: "'f ftdi_lib \<Rightarrow> ('f, unit) ftdi_cm" where
  "command lib =
     andthen (assert_read_packet4_len 0) (\<lambda>(p, len).
     andthen (assert_that (sizeof_command \<le> unat len) ''len >= sizeof( *c)'') (\<lambda>_.
     dispatch lib (the p) len))"

text \<open>One turn of the endless loop: drain the chip when nothing came for a second.\<close>

definition drain :: "'f ftdi_lib \<Rightarrow> ('f, unit) ftdi_cm" where
  "drain lib = (\<lambda>s.
     case f_read lib 1024 (ftdic s) of (nb_read, bs, d) \<Rightarrow>
       assert_that (0 \<le> nb_read) ''(nb_read = ftdi_read_data) >= 0'' (s\<lparr>ftdic := d\<rparr>))"

definition loop_turn :: "'f ftdi_lib \<Rightarrow> ('f, unit) ftdi_cm" where
  "loop_turn lib = (\<lambda>s.
     case polls s of
       [] \<Rightarrow> Stop Out_Of_Fuel s
     | rv # more_polls \<Rightarrow>
         (let s' = s\<lparr>polls := more_polls\<rparr> in
          andthen (assert_errno rv ''rv = poll(&pfd[0], 1, timeout_ms)'') (\<lambda>_.
          if rv = 0 then drain lib else command lib) s'))"

primrec ftdi_loop :: "nat \<Rightarrow> 'f ftdi_lib \<Rightarrow> ('f, unit) ftdi_cm" where
  "ftdi_loop 0 lib = skip"
| "ftdi_loop (Suc n) lib = andthen (loop_turn lib) (\<lambda>_. ftdi_loop n lib)"

definition must_succeed :: "string \<Rightarrow> ('f \<Rightarrow> int \<times> 'f) \<Rightarrow> ('f, unit) ftdi_cm" where
  "must_succeed msg f = andthen (ftdi_call f) (\<lambda>rc. assert_that (0 = rc) msg)"

definition ftdi_init :: "'f ftdi_lib \<Rightarrow> string \<Rightarrow> ('f, unit) ftdi_cm" where
  "ftdi_init lib devname = statements
     [modify (\<lambda>s. s\<lparr>ftdic := f_set_interface_a lib (f_init lib (ftdic s))\<rparr>),
      must_succeed ''0 == ftdi_usb_open_string'' (f_usb_open_string lib devname),
      must_succeed ''0 == ftdi_usb_reset'' (f_usb_reset lib),
      must_succeed ''0 == ftdi_usb_purge_buffers'' (f_usb_purge_buffers lib),
      andthen (ftdi_call (f_set_bitmode_mpsse lib 0xff)) (\<lambda>rc.
        assert_that (0 \<le> rc) ''ftdi_set_bitmode >= 0''),
      send_byte lib (c_en_div_5 lib),
      send_byte lib (c_tck_divisor lib),
      send_byte lib 0x00,
      send_byte lib 0x00,
      log_cdone lib,
      set_gpio lib True True,
      usleep 100000]"

text \<open>The program: the device name is the SSH command if there is one, the first argument else;
  n is the number of turns looked at.\<close>

definition ftdi_main ::
    "nat \<Rightarrow> 'f ftdi_lib \<Rightarrow> string option \<Rightarrow> string list \<Rightarrow> ('f, unit) ftdi_cm" where
  "ftdi_main n lib ssh_original_command argv =
     andthen (case ssh_original_command of
                Some d \<Rightarrow> ret d
              | None \<Rightarrow> andthen (assert_that (2 \<le> length argv) ''argc >= 2'') (\<lambda>_. ret (argv ! 1)))
       (\<lambda>devname.
     andthen (ftdi_init lib devname) (\<lambda>_. ftdi_loop n lib))"

section \<open>What is relied on, and the bytes on the wire\<close>

text \<open>For an observation of the bytes written to the chip and of the bytes it has ready: a write
  takes all bytes, a read gives what is ready, at most as many bytes as asked for.\<close>

definition ftdi_ok :: "'f ftdi_lib \<Rightarrow> ('f \<Rightarrow> u8 list) \<Rightarrow> ('f \<Rightarrow> u8 list) \<Rightarrow> bool" where
  "ftdi_ok lib wire ready \<longleftrightarrow>
     (\<forall>mem n d. 0 \<le> n \<and> n \<le> int (length mem) \<longrightarrow>
        (case f_write lib mem n d of (rc, d') \<Rightarrow> rc = n \<and> wire d' = wire d @ take (nat n) mem)) \<and>
     (\<forall>n d. case f_read lib n d of (rc, bs, d') \<Rightarrow>
        bs = take (nat n) (ready d) \<and> rc = int (length bs) \<and> ready d' = drop (nat n) (ready d) \<and>
        wire d' = wire d)"

definition drives :: "('f \<Rightarrow> u8 list) \<Rightarrow> u8 list \<Rightarrow> 'f ftdi \<Rightarrow> 'f ftdi \<Rightarrow> bool" where
  "drives wire bs s s' \<longleftrightarrow> wire (ftdic s') = wire (ftdic s) @ bs \<and> rd s' = rd s \<and> wr s' = wr s \<and>
     out s' = out s \<and> malloc_max s' = malloc_max s \<and> live_blocks s' = live_blocks s \<and>
     polls s' = polls s \<and> files s' = files s"

interpretation wire_trace: trace "drives wire" for wire
  by unfold_locales (simp_all add: drives_def)

definition spi_command :: "'f ftdi_lib \<Rightarrow> u8 list \<Rightarrow> u8 list" where
  "spi_command lib bs = (c_mpsse_do_write lib OR c_mpsse_write_neg lib) #
     [word_of_nat (length bs - 1), word_of_nat ((length bs - 1) div 256)] @ bs"

function chunks :: "u8 list \<Rightarrow> u8 list list" where
  "chunks bs = (if bs = [] then [] else take 4096 bs # chunks (drop 4096 bs))"
  by pat_completeness auto
termination by (relation "measure length") auto

declare chunks.simps [simp del]

lemma chunks_Nil [simp]: "chunks [] = []"
  by (simp add: chunks.simps)

definition spi_bytes :: "'f ftdi_lib \<Rightarrow> u8 list \<Rightarrow> u8 list" where
  "spi_bytes lib bs = concat (map (spi_command lib) (chunks bs))"

definition gpio_command :: "'f ftdi_lib \<Rightarrow> bool \<Rightarrow> bool \<Rightarrow> u8 list" where
  "gpio_command lib ss cr = [c_set_bits_low lib, gpio_byte ss cr, c_write_extended lib]"

definition program_bytes :: "'f ftdi_lib \<Rightarrow> u8 list \<Rightarrow> u8 list" where
  "program_bytes lib bitstream =
     gpio_command lib False False @ gpio_command lib False True @ [c_get_bits_low lib] @
     spi_bytes lib bitstream @
     [c_clk_bytes lib, 0x05, 0x00, c_clk_bits lib, 0x00] @ [c_get_bits_low lib]"

definition transfer_bytes :: "'f ftdi_lib \<Rightarrow> u8 list \<Rightarrow> u8 list" where
  "transfer_bytes lib bs =
     gpio_command lib False True @ spi_bytes lib bs @ gpio_command lib True True"

section \<open>Every operation plays its bytes\<close>

lemma write_call_ok:
  assumes "ftdi_ok lib wire ready" and "n \<le> length mem"
  shows "\<exists>d. f_write lib mem (int n) (ftdic s) = (int n, d) \<and> wire d = wire (ftdic s) @ take n mem"
proof -
  obtain rc d where w: "f_write lib mem (int n) (ftdic s) = (rc, d)" by fastforce
  have "case f_write lib mem (int n) (ftdic s) of (rc, d') \<Rightarrow>
      rc = int n \<and> wire d' = wire (ftdic s) @ take (nat (int n)) mem"
    using assms unfolding ftdi_ok_def by (auto simp del: nat_int)
  with w show ?thesis by simp
qed

lemma read_call_ok:
  assumes "ftdi_ok lib wire ready"
  shows "\<exists>d. f_read lib n (ftdic s) =
      (int (length (take (nat n) (ready (ftdic s)))), take (nat n) (ready (ftdic s)), d) \<and>
    ready d = drop (nat n) (ready (ftdic s)) \<and> wire d = wire (ftdic s)"
proof -
  obtain rc bs d where r: "f_read lib n (ftdic s) = (rc, bs, d)" by (metis prod_cases3)
  have "case f_read lib n (ftdic s) of (rc, bs, d') \<Rightarrow>
      bs = take (nat n) (ready (ftdic s)) \<and> rc = int (length bs) \<and>
      ready d' = drop (nat n) (ready (ftdic s)) \<and> wire d' = wire (ftdic s)"
    using assms unfolding ftdi_ok_def by (elim conjE allE)
  with r show ?thesis by simp
qed

text \<open>The loop of \<open>recv_byte\<close> is left after one turn, whatever the chip had ready, so the fuel of 1
  is enough.\<close>

lemma recv_loop_once: "recv_loop (Suc n) lib data = recv_loop 1 lib data"
  by (rule ext) (auto simp: recv_turn_def io_simps Let_def split: prod.splits)

lemma recv_byte_ok:
  assumes "ftdi_ok lib wire ready"
  obtains d where "recv_byte lib s =
      Ok (case ready (ftdic s) of [] \<Rightarrow> None | b # _ \<Rightarrow> Some b) (s\<lparr>ftdic := d\<rparr>)"
    "ready d = drop 1 (ready (ftdic s))" "wire d = wire (ftdic s)"
proof -
  obtain d where "f_read lib 1 (ftdic s) =
      (int (length (take 1 (ready (ftdic s)))), take 1 (ready (ftdic s)), d)"
    "ready d = drop 1 (ready (ftdic s))" "wire d = wire (ftdic s)"
    using read_call_ok [OF assms, of 1 s] by auto
  then show thesis
    by (intro that [of d])
      (auto simp: recv_byte_def recv_turn_def io_simps Let_def split: list.splits)
qed

text \<open>What the operations do is the same for every observation of the chip in which a write puts its
  bytes one by one and taking a byte leaves a trace of its own.\<close>

locale mpsse_trace = trace moved
  for moved :: "'b list \<Rightarrow> 'f ftdi \<Rightarrow> 'f ftdi \<Rightarrow> bool" +
  fixes lib :: "'f ftdi_lib" and works :: bool and put :: "u8 \<Rightarrow> 'b" and got :: "'b list"
  assumes write_played: "works \<Longrightarrow> n \<le> length mem \<Longrightarrow> plays moved
      (andthen (ftdi_call (f_write lib mem (int n))) (\<lambda>rc. assert_that (rc = int n) msg)) (map put (take n mem))"
    and recv_played: "works \<Longrightarrow> plays moved (andthen (recv_byte lib) (\<lambda>_. skip)) got"
    and usleep_played: "plays moved (usleep us) []"
begin

lemma byte_played: "works \<Longrightarrow> plays moved (send_byte lib b) [put b]"
  using write_played [of 1 "[b]" "''1 == ftdi_write_data(&ftdic, &data, 1)''"]
  unfolding send_byte_def by (simp add: eq_commute [of 1])

lemma spi_played:
  assumes "works" and "0 < n" and "n \<le> length mem"
  shows "plays moved (send_spi lib mem (int n)) (map put (spi_command lib (take n mem)))"
proof -
  obtain m where m: "n = Suc m" using assms(2) by (cases n) auto
  have len: "length (take n mem) - 1 = m" using assms(3) m by simp
  have "int m div 2 ^ 8 = int (m div 256)" by (simp add: zdiv_int)
  then have head: "(word_of_int (int n - 1) :: u8) = word_of_nat m"
    "(word_of_int ((int n - 1) div 2 ^ 8) :: u8) = word_of_nat (m div 256)"
    by (simp_all add: m)
  have "plays moved (statements
      [send_byte lib (c_mpsse_do_write lib OR c_mpsse_write_neg lib),
       send_byte lib (word_of_nat m), send_byte lib (word_of_nat (m div 256)),
       andthen (ftdi_call (f_write lib mem (int n))) (\<lambda>rc. assert_that (rc = int n) ''rc == n'')])
      (concat [[put (c_mpsse_do_write lib OR c_mpsse_write_neg lib)], [put (word_of_nat m)],
        [put (word_of_nat (m div 256))], map put (take n mem)])"
    by (rule plays_statements) (simp add: byte_played [OF assms(1)] write_played [OF assms(1,3)])
  moreover have "\<not> int n < 1" using assms(2) by simp
  ultimately show ?thesis
    unfolding send_spi_def spi_command_def head len by (simp del: statements.simps)
qed

lemma chunks_played:
  assumes "works" and "n \<le> length mem"
  shows "plays moved (spi_chunks lib mem n) (map put (spi_bytes lib (take n mem)))"
  using assms(2)
proof (induction n arbitrary: mem rule: less_induct)
  case (less n)
  show ?case
  proof (cases "n = 0")
    case True
    then show ?thesis
      by (simp add: spi_chunks.simps [of lib mem] spi_bytes_def chunks.simps [of "[]"] plays_skip)
  next
    case False
    then have "take n mem \<noteq> []" using less.prems by auto
    let ?c = "if n > 4096 then 4096 else n"
    have "plays moved (andthen (send_spi lib mem (int ?c))
        (\<lambda>_. spi_chunks lib (drop ?c mem) (n - ?c)))
        (map put (spi_command lib (take ?c mem)) @ map put (spi_bytes lib (take (n - ?c) (drop ?c mem))))"
      using False less.prems by (intro plays_andthen spi_played [OF assms(1)] less.IH) auto
    moreover have "take (n - ?c) (drop ?c mem) = drop 4096 (take n mem)"
      "take ?c mem = take 4096 (take n mem)"
      by (auto simp: drop_take)
    moreover have "spi_bytes lib (take n mem) =
        spi_command lib (take 4096 (take n mem)) @ spi_bytes lib (drop 4096 (take n mem))"
      using \<open>take n mem \<noteq> []\<close> by (simp add: spi_bytes_def chunks.simps [of "take n mem"])
    ultimately show ?thesis using False by (simp add: spi_chunks.simps [of lib mem n] Let_def)
  qed
qed

lemma spi_chunked_played:
  assumes "works" and "unat len \<le> length buf"
  shows "plays moved (send_spi_chunked lib buf len) (map put (spi_bytes lib (take (unat len) buf)))"
  using plays_andthen [OF chunks_played [OF assms] usleep_played] by (simp add: send_spi_chunked_def)

lemma file_played:
  assumes "works"
  shows "plays moved (send_file lib content) (map put (spi_bytes lib content))"
proof (induction content rule: chunks.induct)
  case (1 content)
  show ?case
  proof (cases "content = []")
    case True
    then show ?thesis by (simp add: send_file.simps spi_bytes_def chunks.simps plays_skip)
  next
    case False
    have "plays moved (andthen (send_spi lib (take 4096 content) (int (length (take 4096 content))))
        (\<lambda>_. send_file lib (drop 4096 content)))
        (map put (spi_command lib (take (length (take 4096 content)) (take 4096 content))) @
         map put (spi_bytes lib (drop 4096 content)))"
      using False by (intro plays_andthen spi_played [OF assms] 1) auto
    moreover have "take (length (take 4096 content)) (take 4096 content) = take 4096 content"
      by (rule take_all) (rule order_refl)
    moreover have "send_file lib content =
        andthen (send_spi lib (take 4096 content) (int (length (take 4096 content))))
          (\<lambda>_. send_file lib (drop 4096 content))"
      using False by (subst send_file.simps) (simp add: Let_def)
    moreover have "spi_bytes lib content =
        spi_command lib (take 4096 content) @ spi_bytes lib (drop 4096 content)"
      using False by (simp add: spi_bytes_def chunks.simps [of content])
    ultimately show ?thesis by (simp only: map_append)
  qed
qed

lemma gpio_played:
  assumes "works"
  shows "plays moved (set_gpio lib ss cr) (map put (gpio_command lib ss cr))"
proof -
  have "plays moved (set_gpio lib ss cr)
      (concat [[put (c_set_bits_low lib)], [put (gpio_byte ss cr)], [put (c_write_extended lib)]])"
    unfolding set_gpio_def by (rule plays_statements) (simp add: byte_played [OF assms])
  then show ?thesis by (simp add: gpio_command_def)
qed

lemma cdone_played:
  assumes "works"
  shows "plays moved (log_cdone lib) (put (c_get_bits_low lib) # got)"
proof -
  have "log_cdone lib =
      andthen (send_byte lib (c_get_bits_low lib)) (\<lambda>_. andthen (recv_byte lib) (\<lambda>_. skip))"
    by (rule ext)
      (simp add: log_cdone_def get_cdone_def andthen_def skip_def ret_def split: res.split)
  then show ?thesis
    using plays_andthen [OF byte_played [OF assms] recv_played [OF assms], of "c_get_bits_low lib"]
    by (simp only: append.simps)
qed

lemma program_played:
  assumes "works" and "unat len \<le> length buf"
  shows "plays moved (prog_sram_write lib buf len)
    (map put (gpio_command lib False False @ gpio_command lib False True @ [c_get_bits_low lib]) @ got @
     map put (spi_bytes lib (take (unat len) buf) @
       [c_clk_bytes lib, 0x05, 0x00, c_clk_bits lib, 0x00, c_get_bits_low lib]) @ got)"
proof -
  have "plays moved (prog_sram_write lib buf len) (concat
      [map put (gpio_command lib False False), [], map put (gpio_command lib False True), [],
       put (c_get_bits_low lib) # got, map put (spi_bytes lib (take (unat len) buf)), [put (c_clk_bytes lib)],
       [put 0x05], [put 0x00], [put (c_clk_bits lib)], [put 0x00], put (c_get_bits_low lib) # got])"
    unfolding prog_sram_write_def reset_fpga_def dummy_bits_def append.simps
    by (rule plays_statements)
      (simp add: byte_played [OF assms(1)] gpio_played [OF assms(1)] cdone_played [OF assms(1)]
        spi_chunked_played [OF assms] usleep_played)
  then show ?thesis by simp
qed

lemma transfer_played:
  assumes "works" and "unat len \<le> length buf"
  shows "plays moved (raw_spi_write lib buf len) (map put (transfer_bytes lib (take (unat len) buf)))"
proof -
  have "plays moved (raw_spi_write lib buf len) (concat
      [map put (gpio_command lib False True), [], map put (spi_bytes lib (take (unat len) buf)),
       map put (gpio_command lib True True), []])"
    unfolding raw_spi_write_def
    by (rule plays_statements)
      (simp add: gpio_played [OF assms(1)] usleep_played spi_chunked_played [OF assms])
  then show ?thesis by (simp add: transfer_bytes_def)
qed

end

text \<open>Seen on the wire alone, a byte taken leaves no trace.\<close>

interpretation wire_chip: mpsse_trace "drives wire" lib "ftdi_ok lib wire ready" "\<lambda>b. b" "[]"
  for wire and lib :: "'a ftdi_lib" and ready
proof unfold_locales
  fix n and mem :: "u8 list" and msg
  assume a: "ftdi_ok lib wire ready" "n \<le> length mem"
  show "plays (drives wire) (andthen (ftdi_call (f_write lib mem (int n))) (\<lambda>rc. assert_that (rc = int n) msg))
      (map (\<lambda>b. b) (take n mem))"
    unfolding plays_def
  proof
    fix s :: "'a ftdi"
    obtain d where "f_write lib mem (int n) (ftdic s) = (int n, d)" "wire d = wire (ftdic s) @ take n mem"
      using write_call_ok [OF a, of s] by auto
    then show "\<exists>s'. andthen (ftdi_call (f_write lib mem (int n))) (\<lambda>rc. assert_that (rc = int n) msg) s = Ok () s' \<and>
        drives wire (map (\<lambda>b. b) (take n mem)) s s'"
      by (simp add: ftdi_call_def io_simps drives_def)
  qed
next
  assume ok: "ftdi_ok lib wire ready"
  show "plays (drives wire) (andthen (recv_byte lib) (\<lambda>_. skip)) []"
    unfolding plays_def
  proof
    fix s :: "'a ftdi"
    obtain d where "recv_byte lib s = Ok (case ready (ftdic s) of [] \<Rightarrow> None | b # _ \<Rightarrow> Some b) (s\<lparr>ftdic := d\<rparr>)"
      "wire d = wire (ftdic s)"
      using recv_byte_ok [OF ok, of s] by metis
    then show "\<exists>s'. andthen (recv_byte lib) (\<lambda>_. skip) s = Ok () s' \<and> drives wire [] s s'"
      by (simp add: drives_def)
  qed
qed (simp add: plays_def usleep_def drives_def)

lemmas usleep_plays = wire_chip.usleep_played
lemmas send_byte_plays = wire_chip.byte_played
lemmas set_gpio_plays = wire_chip.gpio_played [unfolded list.map_ident]
lemmas send_file_plays = wire_chip.file_played [unfolded list.map_ident]
lemmas log_cdone_plays = wire_chip.cdone_played
lemmas send_spi_chunked_plays = wire_chip.spi_chunked_played [unfolded list.map_ident]
lemmas raw_spi_write_plays = wire_chip.transfer_played [unfolded list.map_ident]
lemmas wire_plays = send_byte_plays set_gpio_plays log_cdone_plays

lemma prog_sram_write_plays:
  assumes "ftdi_ok lib wire ready" and "unat len \<le> length buf"
  shows "plays (drives wire) (prog_sram_write lib buf len) (program_bytes lib (take (unat len) buf))"
  using wire_chip.program_played [OF assms] by (simp add: program_bytes_def)

text \<open>A part of a program around the sending of a file.\<close>

lemma around_file:
  fixes lib :: "'a ftdi_lib"
  assumes "ftdi_ok lib wire ready" and "files s f = Some content"
    and "list_all2 (plays (drives wire)) before bss" and "list_all2 (plays (drives wire)) after css"
  obtains s' where "statements (before @ [open_and_send lib f] @ after) s = Ok () s'"
    "drives wire (concat bss @ spi_bytes lib content @ concat css) s s'"
proof -
  obtain t where t: "statements before s = Ok () t" "drives wire (concat bss) s t"
    using wire_trace.plays_statements [OF assms(3)] by (auto simp: plays_def)
  obtain u where u: "send_file lib content t = Ok () u" "drives wire (spi_bytes lib content) t u"
    using send_file_plays [OF assms(1)] by (auto simp: plays_def)
  obtain v where v: "statements after u = Ok () v" "drives wire (concat css) u v"
    using wire_trace.plays_statements [OF assms(4)] by (auto simp: plays_def)
  have "open_and_send lib f t = Ok () u"
    using t(2) u(1) assms(2) by (simp add: open_and_send_def drives_def)
  then have "statements (before @ [open_and_send lib f] @ after) s = Ok () v"
    using t(1) v(1) by (simp add: statements_append)
  moreover have "drives wire (concat bss @ spi_bytes lib content @ concat css) s v"
    using t(2) u(2) v(2) by (simp add: drives_def)
  ultimately show thesis by (rule that)
qed

text \<open>The set up: its calls succeed without a byte of their own, and the bytes it sends.\<close>

definition opens :: "'f ftdi_lib \<Rightarrow> string \<Rightarrow> ('f \<Rightarrow> u8 list) \<Rightarrow> bool" where
  "opens lib devname wire \<longleftrightarrow> (\<forall>d.
     wire (f_set_interface_a lib (f_init lib d)) = wire d \<and>
     (case f_usb_open_string lib devname d of (rc, d') \<Rightarrow> rc = 0 \<and> wire d' = wire d) \<and>
     (case f_usb_reset lib d of (rc, d') \<Rightarrow> rc = 0 \<and> wire d' = wire d) \<and>
     (case f_usb_purge_buffers lib d of (rc, d') \<Rightarrow> rc = 0 \<and> wire d' = wire d) \<and>
     (case f_set_bitmode_mpsse lib 0xff d of (rc, d') \<Rightarrow> 0 \<le> rc \<and> wire d' = wire d))"

definition start_bytes :: "'f ftdi_lib \<Rightarrow> u8 list" where
  "start_bytes lib = [c_en_div_5 lib, c_tck_divisor lib, 0x00, 0x00, c_get_bits_low lib] @
     gpio_command lib True True"

lemma silent_call_plays:
  fixes call :: "'a \<Rightarrow> int \<times> 'a"
  assumes "\<And>d. case call d of (rc, d') \<Rightarrow> P rc \<and> wire d' = wire d"
  shows "plays (drives wire) (andthen (ftdi_call call) (\<lambda>rc. assert_that (P rc) msg)) []"
  unfolding plays_def
proof
  fix s :: "'a ftdi"
  obtain rc d where "call (ftdic s) = (rc, d)" by fastforce
  with assms [of "ftdic s"]
  show "\<exists>s'. andthen (ftdi_call call) (\<lambda>rc. assert_that (P rc) msg) s = Ok () s' \<and> drives wire [] s s'"
    by (simp add: ftdi_call_def io_simps drives_def)
qed

lemma ftdi_init_plays:
  assumes "ftdi_ok lib wire ready" and "opens lib devname wire"
  shows "plays (drives wire) (ftdi_init lib devname) (start_bytes lib)"
proof -
  have "plays (drives wire) (modify (\<lambda>s. s\<lparr>ftdic := f_set_interface_a lib (f_init lib (ftdic s))\<rparr>)) []"
    using assms(2) by (simp add: plays_def opens_def drives_def)
  moreover note calls = silent_call_plays [where P = "(=) 0"] silent_call_plays [where P = "(\<le>) 0"]
  have "plays (drives wire) (must_succeed msg (f_usb_open_string lib devname)) []"
    "plays (drives wire) (must_succeed msg (f_usb_reset lib)) []"
    "plays (drives wire) (must_succeed msg (f_usb_purge_buffers lib)) []"
    "plays (drives wire) (andthen (ftdi_call (f_set_bitmode_mpsse lib 0xff)) (\<lambda>rc.
       assert_that (0 \<le> rc) msg)) []" for msg
    unfolding must_succeed_def using assms(2)
    by (intro calls; auto simp: opens_def split: prod.splits)+
  ultimately have "plays (drives wire) (ftdi_init lib devname) (concat
      [[], [], [], [], [], [c_en_div_5 lib], [c_tck_divisor lib], [0x00], [0x00],
       [c_get_bits_low lib], gpio_command lib True True, []])"
    unfolding ftdi_init_def
    by (intro wire_trace.plays_statements) (simp add: wire_plays [OF assms(1)] usleep_plays)
  then show ?thesis by (simp add: start_bytes_def)
qed

section \<open>The chip's view of the SPI data\<close>

text \<open>The MPSSE reads a write command as a code, a length less one in two bytes, low byte first,
  and the data. What it shifts out of a sequence of such commands.\<close>

function spi_parse :: "u8 \<Rightarrow> u8 list \<Rightarrow> u8 list option" where
  "spi_parse c [] = Some []"
| "spi_parse c [a] = None"
| "spi_parse c [a, lo] = None"
| "spi_parse c (a # lo # hi # rest) =
     (let n = unat lo + 256 * unat hi + 1 in
      if a = c \<and> n \<le> length rest then map_option (append (take n rest)) (spi_parse c (drop n rest))
      else None)"
  by pat_completeness auto
termination by (relation "measure (\<lambda>(c, bs). length bs)") auto

lemma spi_parse_command:
  assumes "bs \<noteq> []" and "length bs \<le> 65536" and "c = c_mpsse_do_write lib OR c_mpsse_write_neg lib"
  shows "spi_parse c (spi_command lib bs @ w) = map_option (append bs) (spi_parse c w)"
proof -
  obtain m where m: "length bs = Suc m" using assms(1) by (cases bs) auto
  have "unat (word_of_nat m :: u8) + 256 * unat (word_of_nat (m div 256) :: u8) = m"
    using assms(2) m by (simp add: unat_of_nat)
  then show ?thesis using assms(3) m by (simp add: spi_command_def)
qed

lemma spi_parse_bytes:
  "spi_parse (c_mpsse_do_write lib OR c_mpsse_write_neg lib) (spi_bytes lib bs) = Some bs"
proof (induction bs rule: chunks.induct)
  case (1 bs)
  then show ?case
    by (cases "bs = []") (simp_all add: spi_bytes_def chunks.simps [of bs] spi_parse_command)
qed

lemma chunks_bounds: "c \<in> set (chunks bs) \<Longrightarrow> 0 < length c \<and> length c \<le> 4096"
proof (induction bs rule: chunks.induct)
  case (1 bs)
  then show ?case by (cases "bs = []") (auto simp: chunks.simps [of bs])
qed

section \<open>A chip for the witnesses\<close>

text \<open>Its state is the bytes it was sent and those it has ready; it answers a pin query with a
  byte that has the CDONE bit set.\<close>

definition toy_chip :: "(u8 list \<times> u8 list) ftdi_lib" where
  "toy_chip = \<lparr>
     f_write = (\<lambda>mem n (w, r). (n, (w @ take (nat n) mem,
       r @ (if take (nat n) mem = [0x81] then [0x40] else [])))),
     f_read = (\<lambda>n (w, r). (int (length (take (nat n) r)), take (nat n) r, (w, drop (nat n) r))),
     f_init = (\<lambda>d. d), f_set_interface_a = (\<lambda>d. d), f_usb_open_string = (\<lambda>_ d. (0, d)),
     f_usb_reset = (\<lambda>d. (0, d)), f_usb_purge_buffers = (\<lambda>d. (0, d)),
     f_set_bitmode_mpsse = (\<lambda>_ d. (0, d)),
     c_mpsse_do_write = 0x10, c_mpsse_write_neg = 0x01, c_set_bits_low = 0x80,
     c_get_bits_low = 0x81, c_write_extended = 0x91, c_clk_bytes = 0x8f, c_clk_bits = 0x8e,
     c_en_div_5 = 0x8b, c_tck_divisor = 0x86\<rparr>"

lemma toy_chip_ok: "ftdi_ok toy_chip fst snd"
  by (auto simp: ftdi_ok_def toy_chip_def)

lemma toy_codes [simp]:
  "c_mpsse_do_write toy_chip = 0x10" "c_mpsse_write_neg toy_chip = 0x01"
  "c_set_bits_low toy_chip = 0x80" "c_get_bits_low toy_chip = 0x81"
  "c_write_extended toy_chip = 0x91" "c_clk_bytes toy_chip = 0x8f" "c_clk_bits toy_chip = 0x8e"
  "c_en_div_5 toy_chip = 0x8b" "c_tck_divisor toy_chip = 0x86"
  by (simp_all add: toy_chip_def)

lemma toy_chip_opens: "opens toy_chip ''i:0x0403:0x6010'' fst"
  by (simp add: opens_def toy_chip_def)

definition toy_port :: "rd_event list \<Rightarrow> int list \<Rightarrow> (u8 list \<times> u8 list) ftdi" where
  "toy_port q ps = \<lparr>rd = (\<lambda>_. [])(0 := q), wr = (\<lambda>_. []), out = (\<lambda>_. []), malloc_max = 1000,
     live_blocks = 0, ftdic = ([], []), slept = 0, polls = ps, files = (\<lambda>_. None)(''f'' := Some [1, 2])\<rparr>"

lemma toy_port_simps [simp]:
  "readable 0 (toy_port q ps) = script_ok q" "writable 1 (toy_port q ps)"
  "pending 0 (toy_port q ps) = script_bytes q" "out (toy_port q ps) fd = []"
  "malloc_max (toy_port q ps) = 1000" "live_blocks (toy_port q ps) = 0"
  "ftdic (toy_port q ps) = ([], [])" "polls (toy_port q ps) = ps"
  by (simp_all add: toy_port_def readable_def writable_def pending_def)

lemma frame_not_empty [simp]: "frame bs \<noteq> []"
  by (simp add: frame_def be_bytes_4)

section \<open>Properties\<close>

text \<open>C32: The SPI data comes out whole on the other side: whatever its length, \<open>send_spi_chunked\<close>
  writes a sequence of MPSSE write commands of at most 4096 bytes each which the chip reads back
  as exactly the data.\<close>

theorem spi_roundtrip:
  assumes "ftdi_ok lib wire ready" and "unat len \<le> length buf"
  shows "\<exists>s' cs. send_spi_chunked lib buf len s = Ok () s' \<and>
    wire (ftdic s') = wire (ftdic s) @ concat (map (spi_command lib) cs) \<and>
    (\<forall>c \<in> set cs. 0 < length c \<and> length c \<le> 4096) \<and>
    spi_parse (c_mpsse_do_write lib OR c_mpsse_write_neg lib) (concat (map (spi_command lib) cs)) =
      Some (take (unat len) buf)"
proof -
  obtain s' where "send_spi_chunked lib buf len s = Ok () s'"
    "drives wire (spi_bytes lib (take (unat len) buf)) s s'"
    using send_spi_chunked_plays [OF assms] by (auto simp: plays_def)
  then show ?thesis
    using chunks_bounds spi_parse_bytes [of lib "take (unat len) buf"]
    by (intro exI [of _ s'] exI [of _ "chunks (take (unat len) buf)"])
      (auto simp: drives_def spi_bytes_def)
qed

theorem spi_roundtrip_witness:
  "\<exists>s' cs. send_spi_chunked toy_chip (replicate 5000 9) 5000 (toy_port [] []) = Ok () s' \<and>
     fst (ftdic s') = concat (map (spi_command toy_chip) cs) \<and>
     spi_parse 0x11 (concat (map (spi_command toy_chip) cs)) = Some (replicate 5000 9)"
  using spi_roundtrip [OF toy_chip_ok, of 5000 "replicate 5000 9" "toy_port [] []"]
  by auto

text \<open>C38: Programming from a file and from a message drive the same bytes: the reset sequence, the
  bitstream as SPI data, 49 dummy clocks (six bytes and one bit), between two queries of CDONE;
  the file variant then releases the chip select.\<close>

theorem prog_sram_drives:
  assumes "ftdi_ok lib wire ready" and "files s f = Some content" and "unat len = length content"
  shows "\<exists>s' s''. prog_sram lib f s = Ok () s' \<and>
    wire (ftdic s') = wire (ftdic s) @ program_bytes lib content @ gpio_command lib True True \<and>
    prog_sram_write lib content len s = Ok () s'' \<and>
    wire (ftdic s'') = wire (ftdic s) @ program_bytes lib content"
proof -
  have "list_all2 (plays (drives wire)) (reset_fpga lib) [gpio_command lib False False, [],
      gpio_command lib False True, [], [c_get_bits_low lib]]"
    "list_all2 (plays (drives wire)) (dummy_bits lib @ [log_cdone lib, set_gpio lib True True])
      [[c_clk_bytes lib], [0x05], [0x00], [c_clk_bits lib], [0x00], [c_get_bits_low lib],
       gpio_command lib True True]"
    by (simp_all add: reset_fpga_def dummy_bits_def wire_plays [OF assms(1)] usleep_plays)
  from around_file [OF assms(1,2) this] obtain u where "prog_sram lib f s = Ok () u"
    "drives wire (program_bytes lib content @ gpio_command lib True True) s u"
    by (auto simp: prog_sram_def program_bytes_def)
  moreover obtain v where "prog_sram_write lib content len s = Ok () v"
    "drives wire (program_bytes lib content) s v"
    using prog_sram_write_plays [OF assms(1), of len content] assms(3) by (auto simp: plays_def)
  ultimately show ?thesis by (auto simp: drives_def)
qed

theorem prog_sram_drives_witness:
  "\<exists>s'. prog_sram toy_chip ''f'' (toy_port [] []) = Ok () s' \<and>
     fst (ftdic s') = program_bytes toy_chip [1, 2] @ [0x80, 0x91, 0x91]"
  using prog_sram_drives [OF toy_chip_ok, of "toy_port [] []" "''f''" "[1, 2]" 2]
  by (auto simp: toy_port_def gpio_command_def gpio_byte_def)

text \<open>An SPI transfer from a file and one from a message drive the same bytes: the data between
  an active and a released chip select; a file that cannot be opened ends the program after the
  chip was selected.\<close>

lemma raw_spi_drives:
  assumes "ftdi_ok lib wire ready"
  shows "case files s f of
      Some content \<Rightarrow> \<exists>s'. raw_spi lib f s = Ok () s' \<and>
        wire (ftdic s') = wire (ftdic s) @ transfer_bytes lib content \<and>
        (\<forall>len. unat len = length content \<longrightarrow>
           (\<exists>s''. raw_spi_write lib content len s = Ok () s'' \<and> wire (ftdic s'') = wire (ftdic s')))
    | None \<Rightarrow> \<exists>s'. raw_spi lib f s = Stop (Error ''f = fopen(filename, rb)'') s' \<and>
        wire (ftdic s') = wire (ftdic s) @ gpio_command lib False True"
proof -
  have before: "list_all2 (plays (drives wire)) [set_gpio lib False True, usleep 1000]
      [gpio_command lib False True, []]"
    and after: "list_all2 (plays (drives wire)) [set_gpio lib True True, usleep 100]
      [gpio_command lib True True, []]"
    by (simp_all add: set_gpio_plays [OF assms] usleep_plays)
  show ?thesis
  proof (cases "files s f")
    case None
    obtain t where t: "statements [set_gpio lib False True, usleep 1000] s = Ok () t"
      "drives wire (gpio_command lib False True) s t"
      using wire_trace.plays_statements [OF before] by (auto simp: plays_def)
    have "raw_spi lib f = andthen (statements [set_gpio lib False True, usleep 1000]) (\<lambda>_.
        statements [open_and_send lib f, set_gpio lib True True, usleep 100])"
      by (simp add: raw_spi_def statements_append [symmetric] del: statements.simps)
    moreover have "files t f = None" using t(2) None by (simp add: drives_def)
    ultimately show ?thesis using None t by (auto simp: open_and_send_def drives_def io_simps)
  next
    case (Some content)
    from around_file [OF assms Some before after] obtain u where u: "raw_spi lib f s = Ok () u"
      "drives wire (transfer_bytes lib content) s u"
      by (auto simp: raw_spi_def transfer_bytes_def)
    have "\<exists>v. raw_spi_write lib content len s = Ok () v \<and> drives wire (transfer_bytes lib content) s v"
      if "unat len = length content" for len
      using raw_spi_write_plays [OF assms, of len content] that by (simp add: plays_def)
    with Some u show ?thesis by (fastforce simp: drives_def)
  qed
qed

end
