(* ===== verification/Ftdi_Command.thy ===== *)
theory Ftdi_Command
  imports Ftdi_Mpsse
begin

text \<open>
  The commands of c_src/ftdi_connect.c: from the packet on stdin to the bytes on the wire and the
  acknowledgement or reply on stdout. Transactions read a reply: the chip is one that answers what
  it is sent.
\<close>

section \<open>Replies\<close>

lemma ack_ok:
  assumes "writable 1 s" and "unat sz = length bs"
  obtains s' where "ack (map Some bs) sz s = Ok () s'" "writable 1 s'" "wrote 1 (frame bs) s s'"
proof -
  have len: "length bs < 256" using assms(2) unat_u8_less [of sz] by simp
  have "word_of_nat (length bs) = sz" using assms(2) by (metis of_nat_unat ucast_id)
  then have head: "[0, 0, 0, sz] = be_bytes 4 (length bs)"
    using len by (simp add: be_bytes_4)
  obtain t where t: "assert_write 1 [0, 0, 0, sz] 4 s = Ok 4 t" "writable 1 t"
    "wrote 1 [0, 0, 0, sz] s t"
    using assert_write_ok [OF assms(1), of "[0, 0, 0, sz]"] by auto
  show thesis
  proof (cases "sz = 0")
    case True
    with assms(2) t head show thesis
      by (intro that [of t]) (simp_all add: ack_def frame_def io_simps)
  next
    case False
    have n: "(ucast sz :: u32) = word_of_nat (length bs)" using assms(2) by (metis of_nat_unat)
    obtain u where "assert_write 1 bs (word_of_nat (length bs)) t = Ok (word_of_nat (length bs)) u"
      "writable 1 u" "wrote 1 bs t u"
      using assert_write_ok [OF t(2), of bs] len by auto
    with False t assms(2) show thesis
      unfolding head
      by (intro that [of u])
        (auto simp: ack_def those_map_Some n head frame_def io_simps intro: wrote_trans)
  qed
qed

section \<open>Commands\<close>

lemma ftdi_more: "posix.more s = posix.more t \<Longrightarrow>
    ftdic s = ftdic t \<and> slept s = slept t \<and> polls s = polls t \<and> files s = files t"
  by (cases s, cases t) simp

lemma command_received:
  assumes "readable 0 s" and "pending 0 s = frame c @ rest"
    and "length c < 2 ^ 31" and "length c < malloc_max s" and "4 \<le> length c"
  obtains t where "command lib s = dispatch lib (c @ [0]) (word_of_nat (length c)) t"
    "pending 0 t = rest" "readable 0 t" "wr t = wr s" "out t = out s" "malloc_max t = malloc_max s"
    "live_blocks t = Suc (live_blocks s)" "ftdic t = ftdic s" "polls t = polls s"
proof -
  have ne: "c \<noteq> []" using assms(5) by auto
  have n: "unat (word_of_nat (length c) :: u32) = length c"
    by (rule unat_u32_of_int_range [OF assms(3)])
  obtain t where t: "assert_read_packet4_len 0 s = Ok (packet_ptr c, word_of_nat (length c)) t"
    "pending 0 t = rest" "readable 0 t" "wr t = wr s" "out t = out s" "malloc_max t = malloc_max s"
    "posix.more t = posix.more s" "live_blocks t = live_blocks s + (if c = [] then 0 else 1)"
    using packet4_len_frame [OF assms(1-4)] .
  moreover have "command lib s = dispatch lib (c @ [0]) (word_of_nat (length c)) t"
    using t(1) assms(5) ne by (simp add: command_def packet_ptr_def sizeof_command_def n io_simps)
  ultimately show thesis
    using ne ftdi_more [OF t(7)] by (intro that [of t]) simp_all
qed

lemma ack_empty:
  assumes "writable 1 s"
  obtains s' where "ack msg 0 s = Ok () s'" "writable 1 s'" "wrote 1 (frame []) s s'"
proof -
  obtain s' where "ack (map Some []) 0 s = Ok () s'" "writable 1 s'" "wrote 1 (frame []) s s'"
    using ack_ok [OF assms, of 0 "[]"] by auto
  then show thesis by (intro that [of s']) (simp_all add: ack_def)
qed

interpretation command_loop: packet_loop 0 "command lib" for lib
  unfolding command_def by (intro packet_loop_then packet4_loop.packet_loop_axioms)

lemma ftdi_loop_eof:
  assumes "polls s = rv # more_polls" and "0 < rv" and "readable 0 s" and "length (pending 0 s) < 4"
  obtains t where "ftdi_loop (Suc n) lib s = Stop (Exit 0) t" "out t = out s"
proof -
  let ?s = "s\<lparr>polls := more_polls\<rparr>"
  have "readable 0 ?s" "length (pending 0 ?s) < 4"
    using assms(3,4) by (simp_all add: readable_def pending_def)
  then obtain t where "command lib ?s = Stop (Exit 0) t" "same_but_rd 0 ?s t"
    by (rule command_loop.ends_with_port)
  with assms(1,2) show thesis
    by (intro that [of t]) (simp_all add: loop_turn_def frame_simps assert_errno_def io_simps)
qed

text \<open>The bytes a command without a reply puts on the wire.\<close>

definition command_wire :: "'f ftdi_lib \<Rightarrow> u8 \<Rightarrow> u8 list \<Rightarrow> u8 list" where
  "command_wire lib cmd data =
     (if cmd = 0 then data else if cmd = 1 then transfer_bytes lib data
      else if cmd = 2 then program_bytes lib data else [])"

lemma command_codes: "(cmd :: u8) \<le> 3 \<Longrightarrow> cmd = 0 \<or> cmd = 1 \<or> cmd = 2 \<or> cmd = 3"
proof -
  assume "cmd \<le> 3"
  then have "unat cmd \<le> 3" by (simp add: word_le_nat_alt)
  then have "unat cmd = 0 \<or> unat cmd = 1 \<or> unat cmd = 2 \<or> unat cmd = 3" by linarith
  then show ?thesis by (simp add: word_unat_eq_iff)
qed

text \<open>What a command sends, and where it takes a byte: for the data of a transaction, a transfer, or
  the programming with its two queries.\<close>

definition command_events ::
    "(u8 \<Rightarrow> 'b) \<Rightarrow> 'b list \<Rightarrow> 'f ftdi_lib \<Rightarrow> u8 \<Rightarrow> u8 list \<Rightarrow> 'b list" where
  "command_events put got lib cmd data =
     (if cmd = 0 then map put data
      else if cmd = 1 then map put (transfer_bytes lib data)
      else if cmd = 2 then
        map put (gpio_command lib False False @ gpio_command lib False True @ [c_get_bits_low lib]) @ got @
        map put (spi_bytes lib data @
          [c_clk_bytes lib, 0x05, 0x00, c_clk_bits lib, 0x00, c_get_bits_low lib]) @ got
      else [])"

context mpsse_trace
begin

lemma data_played:
  "works \<Longrightarrow> n \<le> length data \<Longrightarrow>
    plays moved (for_each (\<lambda>i. if i < length data then send_byte lib (data ! i)
      else stop (Undef Out_Of_Bounds)) [0..<n]) (map put (take n data))"
  by (rule plays_indexed) (rule byte_played)

lemma dispatch_played:
  assumes works and "cmd \<le> 3" and "length data < 2 ^ 31 - 4"
  obtains m where "dispatch lib ((cmd # reply_size # r0 # r1 # data) @ [0])
      (word_of_nat (length (cmd # reply_size # r0 # r1 # data))) = andthen m (\<lambda>_.
        if cmd = 0 \<and> reply_size \<noteq> 0
        then andthen (collect (unat reply_size) (recv_byte lib)) (\<lambda>reply. ack reply reply_size)
        else ack [] 0)"
    "plays moved m (command_events put got lib cmd data)"
proof -
  let ?c = "(cmd # reply_size # r0 # r1 # data) @ [0]" and ?d = "data @ [0]"
  let ?len = "word_of_nat (length (cmd # reply_size # r0 # r1 # data)) :: u32"
  let ?n = "word_of_nat (length data) :: u32"
  have len: "?len - word_of_nat sizeof_command = ?n"
    by (simp add: sizeof_command_def)
  have n: "unat ?n = length data"
    using assms(3) by (intro unat_u32_of_int_range) simp
  have head: "?c ! 0 = cmd" "?c ! 1 = reply_size" "drop sizeof_command ?c = ?d"
    by (simp_all add: sizeof_command_def)
  have bytes: "take (unat ?n) ?d = data" "unat ?n \<le> length ?d" by (simp_all add: n)
  define m where "m =
    (if cmd = 0 then for_each (\<lambda>i. if i < length ?d then send_byte lib (?d ! i)
       else stop (Undef Out_Of_Bounds)) [0..<unat ?n]
     else if cmd = 1 then raw_spi_write lib ?d ?n
     else if cmd = 2 then prog_sram_write lib ?d ?n else skip)"
  have "dispatch lib ?c ?len = andthen m (\<lambda>_.
      if cmd = 0 \<and> reply_size \<noteq> 0
      then andthen (collect (unat reply_size) (recv_byte lib)) (\<lambda>reply. ack reply reply_size)
      else ack [] 0)"
    using command_codes [OF assms(2)]
    unfolding dispatch_def [of lib ?c ?len, unfolded Let_def head len] transaction_def m_def
    by (elim disjE) simp_all
  moreover have "plays moved m (command_events put got lib cmd data)"
    using data_played [OF assms(1) bytes(2)] transfer_played [OF assms(1) bytes(2)]
      program_played [OF assms(1) bytes(2)] plays_skip(1)
    unfolding bytes(1) by (simp add: m_def command_events_def)
  ultimately show thesis by (rule that)
qed

end

lemma dispatch_plays:
  assumes "ftdi_ok lib wire ready" and "cmd \<le> 3" and "cmd = 0 \<longrightarrow> reply_size = 0"
    and "length data < 2 ^ 31 - 4"
  obtains m where "dispatch lib ((cmd # reply_size # r0 # r1 # data) @ [0])
      (word_of_nat (length (cmd # reply_size # r0 # r1 # data))) = andthen m (\<lambda>_. ack [] 0)"
    "plays (drives wire) m (command_wire lib cmd data)"
proof -
  have "command_events (\<lambda>b. b) [] lib cmd data = command_wire lib cmd data"
    by (simp add: command_events_def command_wire_def program_bytes_def)
  moreover obtain m where "dispatch lib ((cmd # reply_size # r0 # r1 # data) @ [0])
      (word_of_nat (length (cmd # reply_size # r0 # r1 # data))) = andthen m (\<lambda>_.
        if cmd = 0 \<and> reply_size \<noteq> 0
        then andthen (collect (unat reply_size) (recv_byte lib)) (\<lambda>reply. ack reply reply_size)
        else ack [] 0)"
    "plays (drives wire) m (command_events (\<lambda>b. b) [] lib cmd data)"
    using wire_chip.dispatch_played [OF assms(1,2,4)] .
  moreover have "(cmd = 0 \<and> reply_size \<noteq> 0) = False" using assms(3) by simp
  ultimately show thesis by (intro that [of m]) simp_all
qed

text \<open>A command without a reply, from its frame to its acknowledgement.\<close>

lemma command_ok:
  assumes "ftdi_ok lib wire ready" and "readable 0 s" "writable 1 s"
    and "pending 0 s = frame (cmd # reply_size # r0 # r1 # data) @ rest"
    and "cmd \<le> 3" and "cmd = 0 \<longrightarrow> reply_size = 0"
    and "length data < 2 ^ 31 - 4" and "length data + 4 < malloc_max s"
  obtains s' where "command lib s = Ok () s'"
    "wire (ftdic s') = wire (ftdic s) @ command_wire lib cmd data"
    "out s' 1 = out s 1 @ frame []" "pending 0 s' = rest" "readable 0 s'" "writable 1 s'"
    "malloc_max s' = malloc_max s" "live_blocks s' = Suc (live_blocks s)" "polls s' = polls s"
proof -
  let ?c = "cmd # reply_size # r0 # r1 # data"
  obtain t where t: "command lib s = dispatch lib (?c @ [0]) (word_of_nat (length ?c)) t"
    "pending 0 t = rest" "readable 0 t" "wr t = wr s" "out t = out s" "malloc_max t = malloc_max s"
    "live_blocks t = Suc (live_blocks s)" "ftdic t = ftdic s" "polls t = polls s"
    using command_received [OF assms(2,4)] assms(7,8) by auto
  obtain m where m: "dispatch lib (?c @ [0]) (word_of_nat (length ?c)) = andthen m (\<lambda>_. ack [] 0)"
    "plays (drives wire) m (command_wire lib cmd data)"
    using dispatch_plays [OF assms(1,5,6,7)] .
  obtain u where u: "m t = Ok () u" "drives wire (command_wire lib cmd data) t u"
    using m(2) by (auto simp: plays_def)
  have "writable 1 u" using u(2) t(4) assms(3) by (simp add: drives_def writable_def)
  then obtain v where v: "ack [] 0 u = Ok () v" "writable 1 v" "wrote 1 (frame []) u v"
    by (rule ack_empty)
  have "command lib s = Ok () v" using t(1) m(1) u(1) v(1) by simp
  moreover have "ftdic v = ftdic u \<and> polls v = polls u"
    using ftdi_more [of v u] v(3) by (simp add: frame_simps)
  ultimately show thesis
    using t u(2) v by (intro that [of v]) (auto simp: drives_def frame_simps pending_def readable_def)
qed

text \<open>The packet of a command that asks for no reply, as src/ftdi.erl sends them.\<close>

definition plain_packet :: "u8 \<times> u8 list \<Rightarrow> u8 list" where
  "plain_packet q = fst q # 0 # 0 # 0 # snd q"

section \<open>Transactions with a reply\<close>

text \<open>A chip that answers: what it makes ready when bytes arrive depends on all it was sent.\<close>

definition answers ::
    "'f ftdi_lib \<Rightarrow> ('f \<Rightarrow> u8 list) \<Rightarrow> ('f \<Rightarrow> u8 list) \<Rightarrow> (u8 list \<Rightarrow> u8 list \<Rightarrow> u8 list) \<Rightarrow> bool" where
  "answers lib wire ready respond \<longleftrightarrow>
     (\<forall>mem n d. 0 \<le> n \<and> n \<le> int (length mem) \<longrightarrow>
        ready (snd (f_write lib mem n d)) = ready d @ respond (wire d) (take (nat n) mem))"

fun response :: "(u8 list \<Rightarrow> u8 list \<Rightarrow> u8 list) \<Rightarrow> u8 list \<Rightarrow> u8 list \<Rightarrow> u8 list" where
  "response respond w [] = []"
| "response respond w (b # bs) = respond w [b] @ response respond (w @ [b]) bs"

lemma response_append:
  "response respond w (xs @ ys) = response respond w xs @ response respond (w @ xs) ys"
  by (induction xs arbitrary: w) simp_all

definition converses ::
    "('f \<Rightarrow> u8 list) \<Rightarrow> ('f \<Rightarrow> u8 list) \<Rightarrow> (u8 list \<Rightarrow> u8 list \<Rightarrow> u8 list) \<Rightarrow> u8 list \<Rightarrow>
      'f ftdi \<Rightarrow> 'f ftdi \<Rightarrow> bool" where
  "converses wire ready respond bs s s' \<longleftrightarrow> drives wire bs s s' \<and>
     ready (ftdic s') = ready (ftdic s) @ response respond (wire (ftdic s)) bs"

interpretation chat_trace: trace "converses wire ready respond" for wire ready respond
  by unfold_locales (auto simp: converses_def drives_def response_append)

lemma send_byte_converses:
  fixes lib :: "'a ftdi_lib"
  assumes "ftdi_ok lib wire ready" and "answers lib wire ready respond"
  shows "plays (converses wire ready respond) (send_byte lib b) [b]"
  unfolding plays_def
proof
  fix s :: "'a ftdi"
  obtain d where d: "f_write lib [b] 1 (ftdic s) = (1, d)" "wire d = wire (ftdic s) @ [b]"
    using write_call_ok [OF assms(1), of 1 "[b]" s] by auto
  have "ready (snd (f_write lib [b] 1 (ftdic s))) =
      ready (ftdic s) @ respond (wire (ftdic s)) (take (nat 1) [b])"
    using assms(2) unfolding answers_def by (metis One_nat_def length_Cons less_eq_int_code(1)
        list.size(3) of_nat_1 order_refl zero_le_one)
  with d show "\<exists>s'. send_byte lib b s = Ok () s' \<and> converses wire ready respond [b] s s'"
    by (simp add: send_byte_def ftdi_call_def io_simps converses_def drives_def)
qed

lemma collect_recv:
  assumes "ftdi_ok lib wire ready"
  shows "\<exists>s'. collect n (recv_byte lib) s =
      Ok (map Some (take n (ready (ftdic s))) @ replicate (n - length (ready (ftdic s))) None) s' \<and>
    drives wire [] s s' \<and> ready (ftdic s') = drop n (ready (ftdic s))"
proof (induction n arbitrary: s)
  case 0
  then show ?case by (simp add: drives_def)
next
  case (Suc n)
  obtain d where d: "recv_byte lib s =
      Ok (case ready (ftdic s) of [] \<Rightarrow> None | b # _ \<Rightarrow> Some b) (s\<lparr>ftdic := d\<rparr>)"
    "ready d = drop 1 (ready (ftdic s))" "wire d = wire (ftdic s)"
    by (rule recv_byte_ok [OF assms])
  obtain s' where "collect n (recv_byte lib) (s\<lparr>ftdic := d\<rparr>) =
      Ok (map Some (take n (ready d)) @ replicate (n - length (ready d)) None) s'"
    "drives wire [] (s\<lparr>ftdic := d\<rparr>) s'" "ready (ftdic s') = drop n (ready d)"
    using Suc.IH [of "s\<lparr>ftdic := d\<rparr>"] by auto
  with d show ?case
    by (cases "ready (ftdic s)") (auto simp: io_simps drives_def)
qed

lemma transaction_runs:
  assumes "ftdi_ok lib wire ready" and "readable 0 s" "writable 1 s"
    and "pending 0 s = frame (0 # reply_size # r0 # r1 # data) @ rest" and "reply_size \<noteq> 0"
    and "length data < 2 ^ 31 - 4" and "length data + 4 < malloc_max s"
    and "answers lib wire ready respond" and "ready (ftdic s) = []"
    and "response respond (wire (ftdic s)) data = answer"
  obtains t where "command lib s = ack (map Some (take (unat reply_size) answer) @
      replicate (unat reply_size - length answer) None) reply_size t"
    "wire (ftdic t) = wire (ftdic s) @ data" "out t = out s" "writable 1 t" "pending 0 t = rest"
proof -
  let ?c = "0 # reply_size # r0 # r1 # data"
  let ?d = "data @ [0]"
  let ?n = "word_of_nat (length data) :: u32"
  obtain t where t: "command lib s = dispatch lib (?c @ [0]) (word_of_nat (length ?c)) t"
    "pending 0 t = rest" "readable 0 t" "wr t = wr s" "out t = out s" "malloc_max t = malloc_max s"
    "live_blocks t = Suc (live_blocks s)" "ftdic t = ftdic s" "polls t = polls s"
    using command_received [OF assms(2,4)] assms(6,7) by auto
  have n: "unat ?n = length data" using assms(6) by (intro unat_u32_of_int_range) simp
  let ?m = "for_each (\<lambda>i. if i < length ?d then send_byte lib (?d ! i)
      else stop (Undef Out_Of_Bounds)) [0..<unat ?n]"
  have "unat ?n \<le> length ?d" by (simp add: n)
  from chat_trace.plays_indexed [where g = "\<lambda>b. b", OF send_byte_converses [OF assms(1,8)] this]
  obtain u where u: "?m t = Ok () u" "converses wire ready respond (map (\<lambda>b. b) (take (unat ?n) ?d)) t u"
    by (auto simp: plays_def)
  then have wire: "wire (ftdic u) = wire (ftdic s) @ data" "ready (ftdic u) = answer"
    "drives wire data t u"
    using t(8) n assms(9,10) by (simp_all add: converses_def drives_def)
  obtain v where v: "collect (unat reply_size) (recv_byte lib) u =
      Ok (map Some (take (unat reply_size) answer) @ replicate (unat reply_size - length answer) None) v"
    "drives wire [] u v"
    using collect_recv [OF assms(1), of "unat reply_size" u] wire by auto
  have "dispatch lib (?c @ [0]) (word_of_nat (length ?c)) t = transaction lib ?d ?n reply_size t"
    by (simp add: dispatch_def Let_def sizeof_command_def)
  also have "\<dots> = ack (map Some (take (unat reply_size) answer) @
      replicate (unat reply_size - length answer) None) reply_size v"
    unfolding transaction_def using u(1) v(1) assms(5) by simp
  finally show thesis
    using t wire(1,3) v(2) assms(3)
    by (intro that [of v]) (simp_all add: drives_def pending_def writable_def)
qed

section \<open>No command frees its block\<close>

lemma ftdi_call_live [keep_intros]: "keeps live_blocks (ftdi_call f)"
  by (auto simp: keeps_def ftdi_call_def split: prod.splits)

lemma usleep_live [keep_intros]: "keeps live_blocks (usleep n)"
  by (simp add: keeps_def usleep_def)

lemma send_byte_live [keep_intros]: "keeps live_blocks (send_byte lib b)"
  unfolding send_byte_def by (intro keep_intros)

lemma recv_byte_live [keep_intros]: "keeps live_blocks (recv_byte lib)"
proof -
  have "keeps live_blocks (recv_turn lib data)" for data
    by (auto simp: keeps_def recv_turn_def Let_def split: prod.splits)
  then show ?thesis
    unfolding recv_byte_def One_nat_def recv_loop.simps
    by (auto intro!: keep_intros split: prod.splits)
qed

lemma send_spi_live [keep_intros]: "keeps live_blocks (send_spi lib data n)"
  unfolding send_spi_def statements.simps by (auto intro!: keep_intros)

lemma spi_chunks_live [keep_intros]: "keeps live_blocks (spi_chunks lib buf n)"
proof (induction n arbitrary: buf rule: less_induct)
  case (less n)
  then show ?case
    by (subst spi_chunks.simps) (auto intro!: keep_intros simp: Let_def)
qed

lemma send_spi_chunked_live [keep_intros]: "keeps live_blocks (send_spi_chunked lib buf len)"
  unfolding send_spi_chunked_def by (intro keep_intros)

lemma set_gpio_live [keep_intros]: "keeps live_blocks (set_gpio lib a b)"
  unfolding set_gpio_def statements.simps by (intro keep_intros)

lemma log_cdone_live [keep_intros]: "keeps live_blocks (log_cdone lib)"
  unfolding log_cdone_def get_cdone_def by (intro keep_intros)

lemma ack_live [keep_intros]: "keeps live_blocks (ack msg sz)"
  unfolding ack_def by (auto intro!: keep_intros split: option.splits)

lemma collect_live [keep_intros]: "keeps live_blocks m \<Longrightarrow> keeps live_blocks (collect n m)"
  by (induction n) (auto intro!: keep_intros)

lemma dispatch_live: "keeps live_blocks (dispatch lib c len)"
  unfolding dispatch_def Let_def transaction_def raw_spi_write_def prog_sram_write_def
    reset_fpga_def dummy_bits_def append.simps statements.simps
  by (auto intro!: keep_intros)

section \<open>Properties\<close>

lemma toy_chip_answers: "answers toy_chip fst snd (\<lambda>w bs. if bs = [0x81] then [0x40] else [])"
  by (auto simp: answers_def toy_chip_def)

text \<open>A transaction returns the chip's answer when it is there in time: the data bytes go out
  as they are and the reply frame holds the first bytes the chip made ready.\<close>

lemma transaction_replies:
  assumes "ftdi_ok lib wire ready" and "readable 0 s" "writable 1 s"
    and "pending 0 s = frame (0 # reply_size # r0 # r1 # data) @ rest" and "reply_size \<noteq> 0"
    and "length data < 2 ^ 31 - 4" and "length data + 4 < malloc_max s"
    and "answers lib wire ready respond" and "ready (ftdic s) = []"
    and "unat reply_size \<le> length (response respond (wire (ftdic s)) data)"
  shows "\<exists>s'. command lib s = Ok () s' \<and>
    out s' 1 = out s 1 @
      frame (take (unat reply_size) (response respond (wire (ftdic s)) data)) \<and>
    pending 0 s' = rest"
proof -
  let ?answer = "response respond (wire (ftdic s)) data"
  obtain t where t: "command lib s = ack (map Some (take (unat reply_size) ?answer) @
      replicate (unat reply_size - length ?answer) None) reply_size t"
    "wire (ftdic t) = wire (ftdic s) @ data" "out t = out s" "writable 1 t" "pending 0 t = rest"
    by (rule transaction_runs [OF assms(1-9) refl])
  moreover obtain u where "ack (map Some (take (unat reply_size) ?answer)) reply_size t = Ok () u"
    "wrote 1 (frame (take (unat reply_size) ?answer)) t u"
    using ack_ok [OF t(4), of reply_size "take (unat reply_size) ?answer"] assms(10) by auto
  ultimately show ?thesis using assms(10) by (auto simp: frame_simps)
qed

lemma transaction_replies_witness:
  "\<exists>s'. command toy_chip (toy_port [Rd_data (frame [0, 1, 0, 0, 0x81])] []) = Ok () s' \<and>
     out s' 1 = frame [0x40]"
  using transaction_replies [OF toy_chip_ok,
      of "toy_port [Rd_data (frame [0, 1, 0, 0, 0x81])] []" 1 0 0 "[0x81]" "[]", OF _ _ _ _ _ _ toy_chip_answers]
  by auto

text \<open>\<open>recv_byte\<close> does not wait: when the chip has made fewer bytes ready than a transaction
  asks for, the loop is left all the same and the reply is sent from bytes that were never
  stored.\<close>

lemma recv_byte_does_not_wait:
  assumes "ftdi_ok lib wire ready" and "readable 0 s" "writable 1 s"
    and "pending 0 s = frame (0 # reply_size # r0 # r1 # data) @ rest" and "reply_size \<noteq> 0"
    and "length data < 2 ^ 31 - 4" and "length data + 4 < malloc_max s"
    and "answers lib wire ready respond" and "ready (ftdic s) = []"
    and "length (response respond (wire (ftdic s)) data) < unat reply_size"
  shows "\<exists>s'. command lib s = Stop (Undef Uninitialised) s' \<and>
    out s' 1 = out s 1 @ [0, 0, 0, reply_size]"
proof -
  let ?answer = "response respond (wire (ftdic s)) data"
  obtain t where t: "command lib s = ack (map Some (take (unat reply_size) ?answer) @
      replicate (unat reply_size - length ?answer) None) reply_size t"
    "wire (ftdic t) = wire (ftdic s) @ data" "out t = out s" "writable 1 t" "pending 0 t = rest"
    by (rule transaction_runs [OF assms(1-9) refl])
  have "those (xs @ None # ys) = None" for xs ys :: "u8 option list"
    by (induction xs) (auto split: option.splits)
  then have n: "those (map Some ?answer @ replicate (unat reply_size - length ?answer) None) = None"
    using assms(10) by (cases "unat reply_size - length ?answer") auto
  obtain u where "assert_write 1 [0, 0, 0, reply_size] 4 t = Ok 4 u"
    "wrote 1 [0, 0, 0, reply_size] t u"
    using assert_write_ok [OF t(4), of "[0, 0, 0, reply_size]"] by auto
  with t(1,3) assms(5,10) n show ?thesis
    by (auto simp: ack_def io_simps frame_simps)
qed

lemma recv_byte_does_not_wait_witness:
  "\<exists>s'. command toy_chip (toy_port [Rd_data (frame [0, 1, 0, 0, 7])] []) =
     Stop (Undef Uninitialised) s' \<and> out s' 1 = [0, 0, 0, 1]"
  using recv_byte_does_not_wait [OF toy_chip_ok,
      of "toy_port [Rd_data (frame [0, 1, 0, 0, 7])] []" 1 0 0 "[7]" "[]", OF _ _ _ _ _ _ toy_chip_answers]
  by auto

text \<open>Every command that is carried out leaks the block its message was read into, for any
  chip and any stream.\<close>

lemma command_leaks:
  assumes "command lib s = Ok () s'"
  shows "live_blocks s' = Suc (live_blocks s)"
proof -
  obtain p len t where t: "assert_read_packet4_len 0 s = Ok (p, len) t"
    "andthen (assert_that (sizeof_command \<le> unat len) ''len >= sizeof( *c)'')
       (\<lambda>_. dispatch lib (the p) len) t = Ok () s'"
    using assms by (auto simp: command_def andthen_eq_Ok_iff)
  then have "len \<noteq> 0" "dispatch lib (the p) len t = Ok () s'"
    by (auto simp: assert_that_def sizeof_command_def split: if_splits)
  with t(1) show ?thesis
    using packet4_len_allocates [of 0 s p len t] keeps_Ok [OF dispatch_live, of lib "the p" len t "()" s']
    by simp
qed

lemma command_leaks_witness:
  "\<exists>s'. command toy_chip (toy_port [Rd_data (frame [3, 0, 0, 0])] []) = Ok () s' \<and> live_blocks s' = 1"
proof -
  obtain s' where "command toy_chip (toy_port [Rd_data (frame [3, 0, 0, 0])] []) = Ok () s'"
    using command_ok [OF toy_chip_ok, of "toy_port [Rd_data (frame [3, 0, 0, 0])] []" 3 0 0 0 "[]" "[]"]
    by auto
  with command_leaks [OF this] show ?thesis by simp
qed

text \<open>A message that is shorter than the command header, or whose command is not known, ends the
  program with an error before anything is sent to the chip or to stdout.\<close>

lemma command_rejects:
  assumes "readable 0 s" and "pending 0 s = frame c @ rest"
    and "length c < 2 ^ 31" and "length c < malloc_max s" and "length c < 4 \<or> c ! 0 > 3"
  shows "\<exists>msg s'. command lib s = Stop (Error msg) s' \<and> ftdic s' = ftdic s \<and> out s' = out s"
proof (cases "length c < 4")
  case True
  obtain t where t: "assert_read_packet4_len 0 s = Ok (packet_ptr c, word_of_nat (length c)) t"
    "out t = out s" "posix.more t = posix.more s"
    using packet4_len_frame [OF assms(1-4)] by metis
  have "unat (word_of_nat (length c) :: u32) = length c"
    by (rule unat_u32_of_int_range [OF assms(3)])
  with True t(1) have "command lib s = Stop (Error ''len >= sizeof( *c)'') t"
    by (simp add: command_def sizeof_command_def io_simps)
  then show ?thesis using t(2) ftdi_more [OF t(3)] by simp
next
  case False
  then have len: "4 \<le> length c" by simp
  obtain t where t: "command lib s = dispatch lib (c @ [0]) (word_of_nat (length c)) t"
    "out t = out s" "ftdic t = ftdic s"
    using command_received [OF assms(1-4) len] by metis
  have "c \<noteq> []" using len by auto
  then have "3 < (c @ [0]) ! 0" using assms(5) False by (simp add: nth_append)
  then have "(c @ [0]) ! 0 \<noteq> 0 \<and> (c @ [0]) ! 0 \<noteq> 1 \<and> (c @ [0]) ! 0 \<noteq> 2 \<and> (c @ [0]) ! 0 \<noteq> 3"
    by auto
  then have "dispatch lib (c @ [0]) (word_of_nat (length c)) t = Stop (Error ''bad command'') t"
    by (simp add: dispatch_def Let_def)
  with t show ?thesis by auto
qed

lemma command_rejects_witness:
  "\<exists>msg s'. command toy_chip (toy_port [Rd_data (frame [9, 0, 0, 0])] []) = Stop (Error msg) s' \<and>
     ftdic s' = ([], [])"
  using command_rejects [of "toy_port [Rd_data (frame [9, 0, 0, 0])] []" "[9, 0, 0, 0]" "[]" toy_chip]
  by auto

end
