(* ===== verification/Ftdi_Session.thy ===== *)
theory Ftdi_Session
  imports Ftdi_Command
begin

text \<open>
  The whole of c_src/ftdi_connect.c, from \<open>main\<close> on: the set up of the device and then one turn
  of the loop after the other, each a poll that times out (the bytes the chip has ready are dropped) or
  a command, with a reply of the chip's bytes where the command asks for one. What is promised is
  \<open>serve\<close>, which is about the bytes sent to the chip and taken from it alone; the program's
  operations are brought to it by a second interpretation of \<open>mpsse_trace\<close>.
\<close>

section \<open>Conversations with the chip\<close>

text \<open>A chip is seen as the bytes it was sent and those it has ready. It interprets the bytes one by
  one: \<open>respond w [b]\<close> is what it makes ready when \<open>b\<close> comes after \<open>w\<close>.\<close>

datatype exch = Put u8 | Get

type_synonym chip = "u8 list \<times> u8 list"

fun exchange1 :: "(u8 list \<Rightarrow> u8 list \<Rightarrow> u8 list) \<Rightarrow> exch \<Rightarrow> chip \<Rightarrow> chip" where
  "exchange1 respond (Put b) (w, r) = (w @ [b], r @ respond w [b])"
| "exchange1 respond Get (w, r) = (w, drop 1 r)"

definition exchange :: "(u8 list \<Rightarrow> u8 list \<Rightarrow> u8 list) \<Rightarrow> exch list \<Rightarrow> chip \<Rightarrow> chip" where
  "exchange respond xs c = fold (exchange1 respond) xs c"

lemma exchange_simps [simp]:
  "exchange respond [] c = c"
  "exchange respond (Put b # xs) (w, r) = exchange respond xs (w @ [b], r @ respond w [b])"
  "exchange respond (Get # xs) (w, r) = exchange respond xs (w, drop 1 r)"
  "exchange respond (xs @ ys) c = exchange respond ys (exchange respond xs c)"
  by (simp_all add: exchange_def)

lemma exchange_puts:
  "exchange respond (map Put bs) (w, r) = (w @ bs, r @ response respond w bs)"
  by (induction bs arbitrary: w r) simp_all

lemma exchange_gets: "exchange respond (replicate n Get) (w, r) = (w, drop n r)"
  by (induction n arbitrary: r) simp_all

definition view :: "('f \<Rightarrow> u8 list) \<Rightarrow> ('f \<Rightarrow> u8 list) \<Rightarrow> 'f ftdi \<Rightarrow> chip" where
  "view wire ready s = (wire (ftdic s), ready (ftdic s))"

text \<open>The exchanges took place, and nothing but the chip changed.\<close>

definition talks ::
    "('f \<Rightarrow> u8 list) \<Rightarrow> ('f \<Rightarrow> u8 list) \<Rightarrow> (u8 list \<Rightarrow> u8 list \<Rightarrow> u8 list) \<Rightarrow> exch list \<Rightarrow>
      'f ftdi \<Rightarrow> 'f ftdi \<Rightarrow> bool" where
  "talks wire ready respond xs s s' \<longleftrightarrow>
     view wire ready s' = exchange respond xs (view wire ready s) \<and> drives (\<lambda>_. []) [] s s'"

lemma talks_unchanged:
  assumes "talks wire ready respond xs s s'"
  shows "out s' = out s" "polls s' = polls s" "malloc_max s' = malloc_max s" "pending fd s' = pending fd s"
    "readable fd s' = readable fd s" "writable fd s' = writable fd s"
  using assms by (auto simp: talks_def drives_def pending_def readable_def writable_def)

text \<open>What is relied on: a chip that makes bytes ready byte by byte.\<close>

abbreviation talking_chip ::
    "'f ftdi_lib \<Rightarrow> ('f \<Rightarrow> u8 list) \<Rightarrow> ('f \<Rightarrow> u8 list) \<Rightarrow> (u8 list \<Rightarrow> u8 list \<Rightarrow> u8 list) \<Rightarrow> bool" where
  "talking_chip lib wire ready respond \<equiv>
     ftdi_ok lib wire ready \<and> answers lib wire ready (response respond)"

lemma write_talks:
  fixes lib :: "'f ftdi_lib"
  assumes "talking_chip lib wire ready respond" and "n \<le> length mem"
  shows "plays (talks wire ready respond)
    (andthen (ftdi_call (f_write lib mem (int n))) (\<lambda>rc. assert_that (rc = int n) msg))
    (map Put (take n mem))"
  unfolding plays_def
proof
  fix s :: "'f ftdi"
  obtain d where d: "f_write lib mem (int n) (ftdic s) = (int n, d)" "wire d = wire (ftdic s) @ take n mem"
    using write_call_ok [of lib wire ready n mem s] assms by auto
  have "ready (snd (f_write lib mem (int n) (ftdic s))) =
      ready (ftdic s) @ response respond (wire (ftdic s)) (take (nat (int n)) mem)"
    using assms unfolding answers_def by (metis of_nat_0_le_iff of_nat_le_iff)
  with d show "\<exists>s'. andthen (ftdi_call (f_write lib mem (int n))) (\<lambda>rc. assert_that (rc = int n) msg) s =
      Ok () s' \<and> talks wire ready respond (map Put (take n mem)) s s'"
    by (simp add: ftdi_call_def io_simps talks_def view_def drives_def exchange_puts)
qed

lemma recv_talks:
  fixes lib :: "'f ftdi_lib"
  assumes "ftdi_ok lib wire ready"
  shows "plays (talks wire ready respond) (andthen (recv_byte lib) (\<lambda>_. skip)) [Get]"
  unfolding plays_def
proof
  fix s :: "'f ftdi"
  obtain d where "recv_byte lib s =
      Ok (case ready (ftdic s) of [] \<Rightarrow> None | b # _ \<Rightarrow> Some b) (s\<lparr>ftdic := d\<rparr>)"
    "ready d = drop 1 (ready (ftdic s))" "wire d = wire (ftdic s)"
    by (rule recv_byte_ok [OF assms])
  then show "\<exists>s'. andthen (recv_byte lib) (\<lambda>_. skip) s = Ok () s' \<and> talks wire ready respond [Get] s s'"
    by (simp add: talks_def view_def drives_def)
qed

lemma usleep_talks: "plays (talks wire ready respond) (usleep us) []"
  by (simp add: plays_def usleep_def talks_def view_def drives_def)

interpretation talk: mpsse_trace "talks wire ready respond" lib "talking_chip lib wire ready respond" Put "[Get]"
  for wire ready respond and lib :: "'f ftdi_lib"
proof unfold_locales
  show "talks wire ready respond [] s s" for s :: "'f ftdi" by (simp add: talks_def drives_def)
  show "talks wire ready respond (xs @ ys) s u"
    if "talks wire ready respond xs s t" "talks wire ready respond ys t u" for xs ys and s t u :: "'f ftdi"
    using that by (simp add: talks_def drives_def)
qed (blast intro: write_talks recv_talks usleep_talks)+

section \<open>Commands\<close>

text \<open>The reply of a transaction is read byte by byte, whether there are bytes or not.\<close>

lemma collect_talks:
  assumes "ftdi_ok lib wire ready"
  shows "\<exists>s'. collect n (recv_byte lib) s =
      Ok (map Some (take n (snd (view wire ready s))) @
        replicate (n - length (snd (view wire ready s))) None) s' \<and>
    talks wire ready respond (replicate n Get) s s'"
  using collect_recv [OF assms, of n s]
  by (auto simp: talks_def view_def drives_def exchange_gets)

text \<open>A reply with a byte that was never stored cannot be sent.\<close>

lemma ack_incomplete:
  assumes "writable 1 s" and "sz \<noteq> 0" and "None \<in> set (take (unat sz) msg)"
  shows "\<exists>s'. ack msg sz s = Stop (Undef Uninitialised) s'"
proof -
  have "those xs = None" if "None \<in> set xs" for xs :: "u8 option list"
    using that by (induction xs) (auto split: option.splits)
  then have "those (take (unat sz) msg) = None" using assms(3) .
  moreover obtain t where "assert_write 1 [0, 0, 0, sz] 4 s = Ok 4 t"
    using assert_write_ok [OF assms(1), of "[0, 0, 0, sz]"] by auto
  ultimately show ?thesis using assms(2) by (simp add: ack_def io_simps)
qed

text \<open>A command on the chip that has been seen so far: the bytes that are there for the reply, and
  how many are asked for.\<close>

definition asked_for :: "u8 \<Rightarrow> u8 \<Rightarrow> nat" where
  "asked_for cmd reply_size = (if cmd = 0 then unat reply_size else 0)"

lemma command_talks:
  fixes s :: "'f ftdi"
  assumes "talking_chip lib wire ready respond" and "readable 0 s" "writable 1 s"
    and "pending 0 s = frame (cmd # reply_size # r0 # r1 # data) @ rest" and "cmd \<le> 3"
    and "length data < 2 ^ 31 - 4" and "length data + 4 < malloc_max s"
    and "exchange respond (command_events Put [Get] lib cmd data) (view wire ready s) = (w, r)"
    and "n = asked_for cmd reply_size"
  shows "if n \<le> length r
    then \<exists>s'. command lib s = Ok () s' \<and> view wire ready s' = (w, drop n r) \<and>
      out s' 1 = out s 1 @ frame (take n r) \<and> pending 0 s' = rest \<and> readable 0 s' \<and> writable 1 s' \<and>
      malloc_max s' = malloc_max s \<and> polls s' = polls s
    else \<exists>s'. command lib s = Stop (Undef Uninitialised) s'"
proof -
  let ?c = "cmd # reply_size # r0 # r1 # data"
  obtain t where t: "command lib s = dispatch lib (?c @ [0]) (word_of_nat (length ?c)) t"
    "pending 0 t = rest" "readable 0 t" "wr t = wr s" "out t = out s" "malloc_max t = malloc_max s"
    "ftdic t = ftdic s" "polls t = polls s"
    using command_received [OF assms(2,4)] assms(6,7) by auto
  obtain m where m: "dispatch lib (?c @ [0]) (word_of_nat (length ?c)) = andthen m (\<lambda>_.
      if cmd = 0 \<and> reply_size \<noteq> 0
      then andthen (collect (unat reply_size) (recv_byte lib)) (\<lambda>reply. ack reply reply_size)
      else ack [] 0)"
    "plays (talks wire ready respond) m (command_events Put [Get] lib cmd data)"
    using talk.dispatch_played [OF assms(1,5,6)] .
  obtain u where u: "m t = Ok () u"
    "talks wire ready respond (command_events Put [Get] lib cmd data) t u"
    using m(2) by (auto simp: plays_def)
  note same = talks_unchanged [OF u(2)]
  have view: "view wire ready u = (w, r)"
    using u(2) t(7) assms(8) by (simp add: talks_def view_def)
  have wr: "writable 1 u" using same(6) t(4) assms(3) by (simp add: writable_def)
  show ?thesis
  proof (cases "cmd = 0 \<and> reply_size \<noteq> 0")
    case False
    then have n: "n = 0" using assms(9) by (auto simp: asked_for_def)
    obtain v where v: "ack [] 0 u = Ok () v" "writable 1 v" "wrote 1 (frame []) u v"
      using wr by (rule ack_empty)
    have "command lib s = Ok () v" using t(1) m(1) u(1) v(1) False by simp
    moreover have "ftdic v = ftdic u \<and> polls v = polls u"
      using ftdi_more [of v u] v(3) by (simp add: frame_simps)
    ultimately show ?thesis
      using t same v(2,3) view n
      by (auto simp: frame_simps view_def pending_def readable_def)
  next
    case True
    then have n: "n = unat reply_size" "0 < n"
      using assms(9) by (auto simp: asked_for_def unat_gt_0)
    obtain v where v: "collect n (recv_byte lib) u =
        Ok (map Some (take n r) @ replicate (n - length r) None) v"
      "talks wire ready respond (replicate n Get) u v"
      using collect_talks [OF conjunct1 [OF assms(1)], of n u] view by auto
    note same' = talks_unchanged [OF v(2)]
    have wv: "writable 1 v" using same'(6) wr by simp
    have run: "command lib s = ack (map Some (take n r) @ replicate (n - length r) None) reply_size v"
      using t(1) m(1) u(1) v(1) True n(1) by simp
    have after: "view wire ready v = (w, drop n r)"
      using v(2) view by (simp add: talks_def exchange_gets)
    show ?thesis
    proof (cases "n \<le> length r")
      case True
      then obtain x where x: "ack (map Some (take n r)) reply_size v = Ok () x" "writable 1 x"
        "wrote 1 (frame (take n r)) v x"
        using ack_ok [OF wv, of reply_size "take n r"] n(1) by auto
      moreover have "ftdic x = ftdic v \<and> polls x = polls v"
        using ftdi_more [of x v] x(3) by (simp add: frame_simps)
      moreover have "command lib s = Ok () x" using run x(1) True by simp
      ultimately show ?thesis
        using t(2-8) same same' True after
        by (auto intro!: exI [of _ x] simp: frame_simps view_def pending_def readable_def)
    next
      case False
      then have "None \<in> set (take (unat reply_size) (map Some (take n r) @ replicate (n - length r) None))"
        using n by simp
      then show ?thesis
        using ack_incomplete [OF wv] \<open>cmd = 0 \<and> reply_size \<noteq> 0\<close> run False by simp
    qed
  qed
qed

section \<open>Sessions\<close>

text \<open>What a turn of the loop meets: nothing for a second, or a command with the reserved bytes of
  its header.\<close>

datatype ftdi_turn = Quiet | Request u8 u8 u8 u8 "u8 list"

fun turn_poll :: "ftdi_turn \<Rightarrow> int" where
  "turn_poll Quiet = 0"
| "turn_poll (Request cmd reply_size r0 r1 data) = 1"

fun turn_input :: "ftdi_turn \<Rightarrow> u8 list" where
  "turn_input Quiet = []"
| "turn_input (Request cmd reply_size r0 r1 data) = frame (cmd # reply_size # r0 # r1 # data)"

fun turn_fits :: "nat \<Rightarrow> ftdi_turn \<Rightarrow> bool" where
  "turn_fits room Quiet \<longleftrightarrow> True"
| "turn_fits room (Request cmd reply_size r0 r1 data) \<longleftrightarrow>
     cmd \<le> 3 \<and> length data < 2 ^ 31 - 4 \<and> length data + 4 < room"

text \<open>What is promised: the chip at the end and the replies, or None when a transaction asks for
  more bytes than the chip has ready.\<close>

fun serve :: "'f ftdi_lib \<Rightarrow> (u8 list \<Rightarrow> u8 list \<Rightarrow> u8 list) \<Rightarrow> ftdi_turn list \<Rightarrow> chip \<Rightarrow>
    (chip \<times> u8 list list) option" where
  "serve lib respond [] c = Some (c, [])"
| "serve lib respond (Quiet # ts) (w, r) = serve lib respond ts (w, drop 1024 r)"
| "serve lib respond (Request cmd reply_size r0 r1 data # ts) c =
     (case exchange respond (command_events Put [Get] lib cmd data) c of (w, r) \<Rightarrow>
        let n = asked_for cmd reply_size in
        if n \<le> length r
        then map_option (\<lambda>(c', replies). (c', take n r # replies)) (serve lib respond ts (w, drop n r))
        else None)"

lemma drain_talks:
  fixes s :: "'f ftdi"
  assumes "ftdi_ok lib wire ready"
  shows "\<exists>s'. drain lib s = Ok () s' \<and> drives (\<lambda>_. []) [] s s' \<and>
    view wire ready s' = (fst (view wire ready s), drop 1024 (snd (view wire ready s)))"
proof -
  obtain d where "f_read lib 1024 (ftdic s) =
      (int (length (take 1024 (ready (ftdic s)))), take 1024 (ready (ftdic s)), d)"
    "ready d = drop 1024 (ready (ftdic s))" "wire d = wire (ftdic s)"
    using read_call_ok [OF assms, of 1024 s] by auto
  then show ?thesis by (simp add: drain_def io_simps drives_def view_def)
qed

lemma ftdi_loop_serves:
  fixes s :: "'f ftdi"
  assumes "talking_chip lib wire ready respond" and "readable 0 s" "writable 1 s"
    and "pending 0 s = concat (map turn_input ts) @ rest" and "polls s = map turn_poll ts @ ps"
    and "list_all (turn_fits (malloc_max s)) ts"
  shows "case serve lib respond ts (view wire ready s) of
      None \<Rightarrow> \<exists>s'. ftdi_loop (length ts) lib s = Stop (Undef Uninitialised) s'
    | Some (c, replies) \<Rightarrow> \<exists>s'. ftdi_loop (length ts) lib s = Ok () s' \<and> pending 0 s' = rest \<and>
        view wire ready s' = c \<and> out s' 1 = out s 1 @ concat (map frame replies)"
  using assms(2-6)
proof (induction ts arbitrary: s)
  case (Cons tn ts)
  let ?s = "s\<lparr>polls := map turn_poll ts @ ps\<rparr>"
  have s: "readable 0 ?s" "writable 1 ?s" "pending 0 ?s = turn_input tn @ concat (map turn_input ts) @ rest"
    "view wire ready ?s = view wire ready s" "malloc_max ?s = malloc_max s" "out ?s = out s"
    "polls ?s = map turn_poll ts @ ps"
    using Cons.prems(1-3) by (simp_all add: readable_def writable_def pending_def view_def)
  show ?case
  proof (cases tn)
    case Quiet
    obtain u where u: "drain lib ?s = Ok () u" "drives (\<lambda>_. []) [] ?s u"
      "view wire ready u = (fst (view wire ready s), drop 1024 (snd (view wire ready s)))"
      using drain_talks [OF conjunct1 [OF assms(1)], of ?s] s(4) by auto
    have "loop_turn lib s = Ok () u" using u(1) Cons.prems(4) Quiet by (simp add: loop_turn_def io_simps assert_errno_def)
    moreover have "readable 0 u" "writable 1 u" "pending 0 u = concat (map turn_input ts) @ rest"
      "polls u = map turn_poll ts @ ps" "malloc_max u = malloc_max s" "out u = out s"
      using u(2) Cons.prems(1-3) Quiet
      by (simp_all add: drives_def readable_def writable_def pending_def)
    ultimately show ?thesis
      using Cons.IH [of u] Cons.prems(5) u(3) Quiet
      by (cases "view wire ready s") (auto split: option.splits)
  next
    case (Request cmd reply_size r0 r1 data)
    obtain w r where wr: "exchange respond (command_events Put [Get] lib cmd data) (view wire ready ?s) = (w, r)"
      by fastforce
    let ?n = "asked_for cmd reply_size"
    have turn: "loop_turn lib s = command lib ?s"
      using Cons.prems(4) Request by (simp add: loop_turn_def io_simps assert_errno_def)
    note step = command_talks [OF assms(1) s(1,2) _ _ _ _ wr refl, of reply_size r0 r1 "concat (map turn_input ts) @ rest"]
    show ?thesis
    proof (cases "?n \<le> length r")
      case False
      then show ?thesis using step s(3) wr Cons.prems(5) turn Request by (auto simp: s(4))
    next
      case True
      then obtain u where u: "command lib ?s = Ok () u" "view wire ready u = (w, drop ?n r)"
        "out u 1 = out s 1 @ frame (take ?n r)" "pending 0 u = concat (map turn_input ts) @ rest"
        "readable 0 u" "writable 1 u" "malloc_max u = malloc_max s" "polls u = map turn_poll ts @ ps"
        using step s(3) Cons.prems(5) Request by auto
      show ?thesis
        using Cons.IH [OF u(5,6,4,8)] Cons.prems(5) u(1-3,7) turn True Request wr s(4)
        by (auto split: option.splits)
    qed
  qed
qed simp

text \<open>The set up empties the chip's buffer when it purges it; the bytes after that are a conversation.\<close>

definition purges :: "'f ftdi_lib \<Rightarrow> ('f \<Rightarrow> u8 list) \<Rightarrow> bool" where
  "purges lib ready \<longleftrightarrow> (\<forall>d. ready (snd (f_usb_purge_buffers lib d)) = [] \<and>
     ready (snd (f_set_bitmode_mpsse lib 0xff d)) = ready d)"

definition start_events :: "'f ftdi_lib \<Rightarrow> exch list" where
  "start_events lib =
     map Put [c_en_div_5 lib, c_tck_divisor lib, 0x00, 0x00, c_get_bits_low lib] @ [Get] @
     map Put (gpio_command lib True True)"

lemma ftdi_init_talks:
  fixes s :: "'f ftdi"
  assumes "talking_chip lib wire ready respond" and "opens lib devname wire" and "purges lib ready"
  shows "\<exists>s'. ftdi_init lib devname s = Ok () s' \<and> drives (\<lambda>_. []) [] s s' \<and>
    view wire ready s' = exchange respond (start_events lib) (wire (ftdic s), [])"
proof -
  let ?calls = "[modify (\<lambda>s. s\<lparr>ftdic := f_set_interface_a lib (f_init lib (ftdic s))\<rparr>),
      must_succeed ''0 == ftdi_usb_open_string'' (f_usb_open_string lib devname),
      must_succeed ''0 == ftdi_usb_reset'' (f_usb_reset lib),
      must_succeed ''0 == ftdi_usb_purge_buffers'' (f_usb_purge_buffers lib),
      andthen (ftdi_call (f_set_bitmode_mpsse lib 0xff)) (\<lambda>rc.
        assert_that (0 \<le> rc) ''ftdi_set_bitmode >= 0'')] :: ('f ftdi, unit) cm list"
  let ?bytes = "[send_byte lib (c_en_div_5 lib), send_byte lib (c_tck_divisor lib),
      send_byte lib 0x00, send_byte lib 0x00, log_cdone lib, set_gpio lib True True, usleep 100000]"
  obtain d1 where d1: "f_usb_open_string lib devname (f_set_interface_a lib (f_init lib (ftdic s))) = (0, d1)"
    "wire d1 = wire (ftdic s)" using assms(2) unfolding opens_def by (smt (verit) case_prodE)
  obtain d2 where d2: "f_usb_reset lib d1 = (0, d2)" "wire d2 = wire d1"
    using assms(2) unfolding opens_def by (smt (verit) case_prodE)
  obtain d3 where d3: "f_usb_purge_buffers lib d2 = (0, d3)" "wire d3 = wire d2"
    using assms(2) unfolding opens_def by (smt (verit) case_prodE)
  obtain rc d4 where d4: "f_set_bitmode_mpsse lib 0xff d3 = (rc, d4)" "0 \<le> rc" "wire d4 = wire d3"
    using assms(2) unfolding opens_def by (smt (verit) case_prodE)
  have "ready d4 = []" using assms(3) d3(1) d4(1) unfolding purges_def by (metis snd_conv)
  moreover have "statements ?calls s = Ok () (s\<lparr>ftdic := d4\<rparr>)"
    using d1(1) d2(1) d3(1) d4(1,2) by (simp add: must_succeed_def ftdi_call_def io_simps)
  moreover have "plays (talks wire ready respond) (statements ?bytes) (concat
      [[Put (c_en_div_5 lib)], [Put (c_tck_divisor lib)], [Put 0x00], [Put 0x00],
       Put (c_get_bits_low lib) # [Get], map Put (gpio_command lib True True), []])"
    by (rule talk.plays_statements)
      (simp add: talk.byte_played [OF assms(1)] talk.cdone_played [OF assms(1)]
        talk.gpio_played [OF assms(1)] talk.usleep_played)
  then obtain t where "statements ?bytes (s\<lparr>ftdic := d4\<rparr>) = Ok () t"
    "talks wire ready respond (start_events lib) (s\<lparr>ftdic := d4\<rparr>) t"
    unfolding plays_def start_events_def by (auto simp del: exchange_simps)
  moreover have "ftdi_init lib devname = andthen (statements ?calls) (\<lambda>_. statements ?bytes)"
    unfolding ftdi_init_def statements_append [symmetric] by (simp del: statements.simps)
  ultimately show ?thesis
    using d1(2) d2(2) d3(2) d4(3) by (auto simp: talks_def drives_def view_def)
qed

section \<open>Property\<close>

text \<open>A chip for the witness: it answers every pin query with a byte that has the CDONE bit set.\<close>

definition pin_chip :: "(u8 list \<times> u8 list) ftdi_lib" where
  "pin_chip = toy_chip\<lparr>
     f_write := (\<lambda>mem n (w, r). (n, (w @ take (nat n) mem,
       r @ map (\<lambda>_. 0x40) (filter ((=) 0x81) (take (nat n) mem))))),
     f_usb_purge_buffers := (\<lambda>(w, r). (0, (w, [])))\<rparr>"

definition pin_respond :: "u8 list \<Rightarrow> u8 list \<Rightarrow> u8 list" where
  "pin_respond w bs = (if bs = [0x81] then [0x40] else [])"

lemma pin_codes [simp]:
  "c_set_bits_low pin_chip = 0x80" "c_get_bits_low pin_chip = 0x81" "c_write_extended pin_chip = 0x91"
  "c_en_div_5 pin_chip = 0x8b" "c_tck_divisor pin_chip = 0x86"
  by (simp_all add: pin_chip_def)

lemma pin_response: "response pin_respond w bs = map (\<lambda>_. 0x40) (filter ((=) 0x81) bs)"
  by (induction bs arbitrary: w) (simp_all add: pin_respond_def)

lemma pin_chip_ok:
  "talking_chip pin_chip fst snd pin_respond" "opens pin_chip ''i:0x0403:0x6010'' fst" "purges pin_chip snd"
  by (auto simp: ftdi_ok_def answers_def pin_response opens_def purges_def pin_chip_def toy_chip_def)

text \<open>C4: The program serves whatever commands come, in order and whatever pauses are between them,
  after a set up of the device that was named by the SSH command or else by the first argument. The
  chip receives the bytes of the set up and then for each command exactly its bytes: the data of a
  transaction, an SPI transfer between chip selects, the whole FPGA programming sequence, or nothing
  for a ping. Each command is acknowledged by one frame on stdout: empty, but for a transaction with
  a reply size n, whose frame holds the first n bytes the chip had ready behind the data; bytes that
  are ready at a poll that times out are dropped. Where the chip has fewer bytes ready than a
  transaction asks for, the program reads a byte that was never stored. The commands have one of the
  four codes and fit into memory and the length field.\<close>

theorem ftdi_session:
  assumes "ftdi_ok lib wire ready" and "answers lib wire ready (response respond)"
    and "opens lib devname wire" and "purges lib ready"
    and "case ssh of Some d \<Rightarrow> d = devname | None \<Rightarrow> 2 \<le> length argv \<and> argv ! 1 = devname"
    and "readable 0 s" "writable 1 s"
    and "pending 0 s = concat (map turn_input ts) @ rest" and "polls s = map turn_poll ts @ ps"
    and "list_all (turn_fits (malloc_max s)) ts"
  shows "case serve lib respond ts (exchange respond (start_events lib) (wire (ftdic s), [])) of
      None \<Rightarrow> \<exists>s'. ftdi_main (length ts) lib ssh argv s = Stop (Undef Uninitialised) s'
    | Some (c, replies) \<Rightarrow> \<exists>s'. ftdi_main (length ts) lib ssh argv s = Ok () s' \<and> pending 0 s' = rest \<and>
        (wire (ftdic s'), ready (ftdic s')) = c \<and> out s' 1 = out s 1 @ concat (map frame replies)"
proof -
  note chip = conjI [OF assms(1,2)]
  obtain t where t: "ftdi_init lib devname s = Ok () t" "drives (\<lambda>_. []) [] s t"
    "view wire ready t = exchange respond (start_events lib) (wire (ftdic s), [])"
    using ftdi_init_talks [OF chip assms(3,4)] by auto
  have "ftdi_main (length ts) lib ssh argv s = ftdi_loop (length ts) lib t"
    using assms(5) t(1) by (auto simp: ftdi_main_def io_simps split: option.splits)
  moreover have "readable 0 t" "writable 1 t" "pending 0 t = concat (map turn_input ts) @ rest"
    "polls t = map turn_poll ts @ ps" "malloc_max t = malloc_max s" "out t = out s"
    using assms(6-9) t(2) by (simp_all add: drives_def readable_def writable_def pending_def)
  ultimately show ?thesis
    using ftdi_loop_serves [OF chip, of t ts rest ps] assms(10) t(3)
    by (auto simp: view_def split: option.splits)
qed

text \<open>At the pin chip: a ping, a transaction that asks for the answer to a pin query, a query whose
  answer is left and dropped in the pause after it, and another transaction.\<close>

definition pin_turns :: "ftdi_turn list" where
  "pin_turns = [Request 3 0 1 2 [], Request 0 1 0 0 [5, 0x81], Request 0 0 0 0 [0x81], Quiet,
     Request 0 0 9 9 [6]]"

theorem ftdi_session_witness:
  "\<exists>s'. ftdi_main (length pin_turns) pin_chip None [''prog'', ''i:0x0403:0x6010'']
       (toy_port [Rd_data (concat (map turn_input pin_turns))] (map turn_poll pin_turns)) = Ok () s' \<and>
     ftdic s' = ([0x8b, 0x86, 0, 0, 0x81, 0x80, 0x91, 0x91, 5, 0x81, 0x81, 6], []) \<and>
     out s' 1 = frame [] @ frame [0x40] @ frame [] @ frame []"
proof -
  have "serve pin_chip pin_respond pin_turns (exchange pin_respond (start_events pin_chip) ([], [])) =
      Some (([0x8b, 0x86, 0, 0, 0x81, 0x80, 0x91, 0x91, 5, 0x81, 0x81, 6], []), [[], [0x40], [], []])"
    by (simp add: pin_turns_def start_events_def command_events_def pin_respond_def gpio_command_def
        gpio_byte_def asked_for_def)
  moreover have "list_all (turn_fits 1000) pin_turns" "concat (map turn_input pin_turns) \<noteq> []"
    by (simp_all add: pin_turns_def)
  ultimately show ?thesis
    using ftdi_session [OF pin_chip_ok(1) [THEN conjunct1] pin_chip_ok(1) [THEN conjunct2] pin_chip_ok(2,3),
      of "[''prog'', ''i:0x0403:0x6010'']" None
      "toy_port [Rd_data (concat (map turn_input pin_turns))] (map turn_poll pin_turns)" pin_turns "[]" "[]"]
    by (auto simp del: concat_eq_Nil_conv)
qed

end
