(* ===== verification/Gpio_Poll.thy ===== *)
theory Gpio_Poll
  imports Posix_Io C_Stdlib
begin

text \<open>
  The GPIO watcher c_src/gpio_poll.c: it opens the value file of each pin named on the command
  line, and after every poll prints a line for each pin that changed, until stdin has data or is
  closed. What the kernel does is data of the state: for each call of poll its result, the event
  bits of the descriptors and what a read of a pin's file gives. stdout is buffered: \<open>stdio\<close> is
  what was printed and not yet flushed.
\<close>

section \<open>State\<close>

record poll_event =
  pe_rv :: int
  pe_revents :: "nat \<Rightarrow> 16 word"
  pe_content :: "int \<Rightarrow> u8 list"

record gpio = posix +
  pin_files :: "u8 list \<Rightarrow> int"
  events :: "poll_event list"
  stdio :: "u8 list"

type_synonym 'a gpio_cm = "(gpio, 'a) cm"

definition GPIO_EVENTS :: "16 word" where "GPIO_EVENTS = 2 OR 8"

definition STDIN_EVENTS :: "16 word" where "STDIN_EVENTS = 16 OR 1"

section \<open>Opening the pins\<close>

definition pin_path :: "u8 list \<Rightarrow> u8 list" where
  "pin_path gpio_nb = bytes_of ''/sys/class/gpio/gpio'' @ gpio_nb @ bytes_of ''/value''"

text \<open>The path with its NUL is printed into 100 bytes.\<close>

definition open_pin :: "u8 list \<Rightarrow> int gpio_cm" where
  "open_pin gpio_nb =
     (if 100 < Suc (length (pin_path gpio_nb)) then stop (Undef Out_Of_Bounds)
      else
        andthen (gets (\<lambda>s. pin_files s (pin_path gpio_nb))) (\<lambda>fd.
        andthen (assert_errno fd ''pfd[i].fd = open(path, O_RDONLY)'') (\<lambda>_. ret fd)))"

fun open_pins :: "u8 list list \<Rightarrow> int list gpio_cm" where
  "open_pins [] = ret []"
| "open_pins (p # ps) =
     andthen (open_pin p) (\<lambda>fd. andthen (open_pins ps) (\<lambda>fds. ret (fd # fds)))"

section \<open>Reporting\<close>

definition print :: "u8 list \<Rightarrow> unit gpio_cm" where
  "print bs = modify (\<lambda>s. s\<lparr>stdio := stdio s @ bs\<rparr>)"

definition flush_stdout :: "unit gpio_cm" where
  "flush_stdout = modify (\<lambda>s. s\<lparr>out := (out s)(1 := out s 1 @ stdio s), stdio := []\<rparr>)"

text \<open>The pin is read from its start into three bytes that were 0; atoi sees those.\<close>

definition report_pin :: "poll_event \<Rightarrow> int list \<Rightarrow> nat \<Rightarrow> unit gpio_cm" where
  "report_pin e fds i =
     (if pe_revents e i AND GPIO_EVENTS \<noteq> 0 then
        (let buf = take 3 (pe_content e (fds ! i)) in
         andthen (assert_that (2 = length buf) ''2 == read(pfd[i].fd, buf, sizeof(buf))'') (\<lambda>_.
         let val = atoi (buf @ replicate (3 - length buf) 0) in
         print (dec_bytes i @ [44] @ int_bytes val @ [10])))
      else skip)"

text \<open>The lines of a turn are flushed at its end, so exit has nothing of stdio to flush; the model does
  not flush there.\<close>

definition poll_turn :: "int list \<Rightarrow> unit gpio_cm" where
  "poll_turn fds = (\<lambda>s.
     case events s of
       [] \<Rightarrow> Stop Out_Of_Fuel s
     | e # es \<Rightarrow>
         (let s' = s\<lparr>events := es\<rparr>; nb_fd = length fds in
          statements
            [assert_errno (pe_rv e) ''rv = poll(&pfd[0], nb_fd + 1, -1)'',
             assert_that (0 \<le> pe_rv e) ''rv >= 0'',
             (if pe_revents e nb_fd AND STDIN_EVENTS \<noteq> 0 then stop (Exit 0) else skip),
             for_each (report_pin e fds) [0..<nb_fd],
             flush_stdout] s'))"

primrec poll_loop :: "nat \<Rightarrow> int list \<Rightarrow> unit gpio_cm" where
  "poll_loop 0 fds = stop Out_Of_Fuel"
| "poll_loop (Suc n) fds = andthen (poll_turn fds) (\<lambda>_. poll_loop n fds)"

definition gpio_main :: "nat \<Rightarrow> u8 list list \<Rightarrow> unit gpio_cm" where
  "gpio_main n gpio_nb = andthen (open_pins gpio_nb) (poll_loop n)"

section \<open>What is reported\<close>

text \<open>A pin is one digit and a newline in its file. The line for pin i of value v.\<close>

definition pin_text :: "nat \<Rightarrow> u8 list" where
  "pin_text v = dec_bytes v @ [10]"

definition line :: "nat \<Rightarrow> nat \<Rightarrow> u8 list" where
  "line i v = dec_bytes i @ [44] @ dec_bytes v @ [10]"

definition ready_pins :: "poll_event \<Rightarrow> nat \<Rightarrow> nat list" where
  "ready_pins e n = filter (\<lambda>i. pe_revents e i AND GPIO_EVENTS \<noteq> 0) [0..<n]"

definition quiet_stdin :: "poll_event \<Rightarrow> nat \<Rightarrow> bool" where
  "quiet_stdin e n \<longleftrightarrow> 0 \<le> pe_rv e \<and> pe_revents e n AND STDIN_EVENTS = 0"

definition shows_values :: "poll_event \<Rightarrow> int list \<Rightarrow> (nat \<Rightarrow> nat) \<Rightarrow> bool" where
  "shows_values e fds vals \<longleftrightarrow>
     (\<forall>i \<in> set (ready_pins e (length fds)). vals i < 10 \<and> pe_content e (fds ! i) = pin_text (vals i))"

lemma length_digit: "v < 10 \<Longrightarrow> length (dec_bytes v) = 1"
  by (simp add: dec_bytes_rec)

lemma atoi_pin_text: "v < 10 \<Longrightarrow> atoi (take 3 (pin_text v) @ replicate (3 - length (take 3 (pin_text v))) 0) = int v"
  using atoi_dec_bytes [of "[10, 0]" v] length_digit [of v]
  by (simp add: pin_text_def is_digit_def numeral_3_eq_3)

definition printed :: "u8 list \<Rightarrow> gpio \<Rightarrow> gpio \<Rightarrow> bool" where
  "printed bs s s' \<longleftrightarrow> s' = s\<lparr>stdio := stdio s @ bs\<rparr>"

interpretation print_trace: trace printed
  by unfold_locales (simp_all add: printed_def)

lemma report_pin_plays:
  assumes "shows_values e fds vals" and "i < length fds"
  shows "plays printed (report_pin e fds i)
    (if pe_revents e i AND GPIO_EVENTS \<noteq> 0 then line i (vals i) else [])"
proof (cases "pe_revents e i AND GPIO_EVENTS = 0")
  case True
  then show ?thesis by (simp add: report_pin_def print_trace.plays_skip)
next
  case False
  with assms have v: "vals i < 10" "pe_content e (fds ! i) = pin_text (vals i)"
    by (auto simp: shows_values_def ready_pins_def)
  define t where "t = take 3 (pe_content e (fds ! i))"
  have "length t = 2" "atoi (t @ replicate (3 - length t) 0) = int (vals i)"
    using v atoi_pin_text [OF v(1)] by (simp_all add: t_def pin_text_def length_digit)
  then have "report_pin e fds i = print (line i (vals i))"
    using False by (simp add: report_pin_def Let_def t_def [symmetric] int_bytes_def line_def)
  with False show ?thesis by (simp add: plays_def print_def printed_def)
qed

lemma reports_play:
  assumes "shows_values e fds vals"
  shows "plays printed (for_each (report_pin e fds) [0..<length fds])
    (concat (map (\<lambda>i. line i (vals i)) (ready_pins e (length fds))))"
proof -
  let ?g = "\<lambda>i. if pe_revents e i AND GPIO_EVENTS \<noteq> 0 then line i (vals i) else []"
  have "plays printed (for_each (report_pin e fds) [0..<length fds]) (concat (map ?g [0..<length fds]))"
    using report_pin_plays [OF assms] by (intro print_trace.plays_for_each) simp
  moreover have "concat (map ?g xs) =
      concat (map (\<lambda>i. line i (vals i)) (filter (\<lambda>i. pe_revents e i AND GPIO_EVENTS \<noteq> 0) xs))" for xs
    by (induction xs) auto
  ultimately show ?thesis by (simp add: ready_pins_def)
qed

lemma poll_turn_ok:
  assumes "events s = e # es" and "quiet_stdin e (length fds)" and "shows_values e fds vals"
  shows "poll_turn fds s = Ok () (s\<lparr>events := es, out := (out s)(1 := out s 1 @ stdio s @
    concat (map (\<lambda>i. line i (vals i)) (ready_pins e (length fds)))), stdio := []\<rparr>)"
proof -
  let ?ls = "concat (map (\<lambda>i. line i (vals i)) (ready_pins e (length fds)))"
  have "for_each (report_pin e fds) [0..<length fds] (s\<lparr>events := es\<rparr>) =
      Ok () (s\<lparr>events := es, stdio := stdio s @ ?ls\<rparr>)"
    using reports_play [OF assms(3)] by (auto simp: plays_def printed_def)
  then show ?thesis
    using assms(1,2) by (simp add: poll_turn_def Let_def quiet_stdin_def io_simps flush_stdout_def)
qed

lemma poll_turn_stdin:
  assumes "events s = e # es" and "0 \<le> pe_rv e" and "pe_revents e (length fds) AND STDIN_EVENTS \<noteq> 0"
  shows "poll_turn fds s = Stop (Exit 0) (s\<lparr>events := es\<rparr>)"
  using assms by (simp add: poll_turn_def Let_def io_simps)

lemma open_pins_ok:
  assumes "\<forall>p \<in> set ps. length p \<le> 73 \<and> pin_files s (pin_path p) \<noteq> - 1"
  shows "open_pins ps s = Ok (map (\<lambda>p. pin_files s (pin_path p)) ps) s"
  using assms by (induction ps) (auto simp: open_pin_def pin_path_def io_simps bytes_of_def)

lemma gpio_main_runs:
  assumes "\<forall>p \<in> set ps. length p \<le> 73 \<and> pin_files s (pin_path p) \<noteq> - 1"
    and "fds = map (\<lambda>p. pin_files s (pin_path p)) ps"
    and "events s = map fst evs @ last_event # more_events" and "stdio s = []"
    and "\<forall>(e, vals) \<in> set evs. quiet_stdin e (length fds) \<and> shows_values e fds vals"
    and "0 \<le> pe_rv last_event" and "pe_revents last_event (length fds) AND STDIN_EVENTS \<noteq> 0"
    and "length evs < n"
  shows "\<exists>s'. gpio_main n ps s = Stop (Exit 0) s' \<and> stdio s' = [] \<and> out s' 1 = out s 1 @
    concat (map (\<lambda>(e, vals). concat (map (\<lambda>i. line i (vals i)) (ready_pins e (length fds)))) evs)"
proof -
  have "\<exists>s'. poll_loop n fds t = Stop (Exit 0) s' \<and> stdio s' = [] \<and> out s' 1 = out t 1 @
      concat (map (\<lambda>(e, vals). concat (map (\<lambda>i. line i (vals i)) (ready_pins e (length fds)))) es)"
    if "events t = map fst es @ last_event # more_events" "stdio t = []" "set es \<subseteq> set evs" "length es < n"
    for t es n
    using that
  proof (induction es arbitrary: t n)
    case Nil
    then show ?case
      using poll_turn_stdin [of t last_event more_events fds] assms(6,7) by (cases n) auto
  next
    case (Cons ev es)
    obtain e vals where ev: "ev = (e, vals)" by fastforce
    obtain m where m: "n = Suc m" using Cons.prems(4) by (cases n) auto
    have ok: "quiet_stdin e (length fds)" "shows_values e fds vals"
      using assms(5) Cons.prems(3) ev by auto
    let ?t = "t\<lparr>events := map fst es @ last_event # more_events, out := (out t)(1 := out t 1 @
      concat (map (\<lambda>i. line i (vals i)) (ready_pins e (length fds)))), stdio := []\<rparr>"
    have "poll_turn fds t = Ok () ?t"
      using poll_turn_ok [of t e _ fds vals, OF _ ok] Cons.prems(1,2) ev by simp
    moreover have "\<exists>s'. poll_loop m fds ?t = Stop (Exit 0) s' \<and> stdio s' = [] \<and> out s' 1 = out ?t 1 @
        concat (map (\<lambda>(e, vals). concat (map (\<lambda>i. line i (vals i)) (ready_pins e (length fds)))) es)"
      using Cons.prems m by (intro Cons.IH) auto
    ultimately show ?case by (auto simp: m ev)
  qed
  from this [of s evs n] assms(2,3,4,8) open_pins_ok [OF assms(1)] show ?thesis
    by (auto simp: gpio_main_def)
qed

section \<open>Properties\<close>

text \<open>C9: Every change is reported once and in order: over any sequence of poll events without
  activity on stdin, stdout receives for each event one line \<open>i,value\<close> per pin that is ready, in
  the order of the command line, and nothing stays in the buffer; then an event on stdin ends the
  program with status 0 without reporting the pins of that event.\<close>

theorem gpio_session:
  assumes "\<forall>p \<in> set ps. length p \<le> 73 \<and> pin_files s (pin_path p) \<noteq> - 1"
    and "fds = map (\<lambda>p. pin_files s (pin_path p)) ps"
    and "events s = map fst evs @ last_event # more_events" and "stdio s = []"
    and "\<forall>(e, vals) \<in> set evs. quiet_stdin e (length fds) \<and> shows_values e fds vals"
    and "0 \<le> pe_rv last_event" and "pe_revents last_event (length fds) AND STDIN_EVENTS \<noteq> 0"
    and "length evs < n"
  shows "\<exists>s'. gpio_main n ps s = Stop (Exit 0) s' \<and> stdio s' = [] \<and> out s' 1 = out s 1 @
    concat (map (\<lambda>(e, vals). concat (map (\<lambda>i. line i (vals i)) (ready_pins e (length fds)))) evs)"
  by (rule gpio_main_runs [OF assms])

definition toy_event :: "16 word \<Rightarrow> 16 word \<Rightarrow> poll_event" where
  "toy_event pin std = \<lparr>pe_rv = 1, pe_revents = (\<lambda>i. if i = 0 then pin else std),
     pe_content = (\<lambda>_. [49, 10])\<rparr>"

definition toy_gpio :: "poll_event list \<Rightarrow> gpio" where
  "toy_gpio es = \<lparr>rd = (\<lambda>_. []), wr = (\<lambda>_. []), out = (\<lambda>_. []), malloc_max = 0, live_blocks = 0,
     pin_files = (\<lambda>_. 5), events = es, stdio = []\<rparr>"

lemma toy_fields [simp]:
  "pe_rv (toy_event a b) = 1" "pe_revents (toy_event a b) i = (if i = 0 then a else b)"
  "pe_content (toy_event a b) fd = [49, 10]" "pin_files (toy_gpio es) p = 5"
  "events (toy_gpio es) = es" "stdio (toy_gpio es) = []" "out (toy_gpio es) fd = []"
  by (simp_all add: toy_event_def toy_gpio_def)

theorem gpio_session_witness:
  "\<exists>s'. gpio_main 2 [[55]] (toy_gpio [toy_event 2 0, toy_event 2 16]) = Stop (Exit 0) s' \<and>
     out s' 1 = [48, 44, 49, 10]"
proof -
  have d: "dec_bytes 0 = [48]" "dec_bytes (Suc 0) = [49]" by (simp_all add: dec_bytes_rec)
  have ready: "ready_pins (toy_event 2 0) (Suc 0) = [0]"
    by (simp add: ready_pins_def GPIO_EVENTS_def)
  show ?thesis
    using gpio_session [of "[[55]]" "toy_gpio [toy_event 2 0, toy_event 2 16]" "[5]"
        "[(toy_event 2 0, \<lambda>_. Suc 0)]" "toy_event 2 16" "[]" 2]
    by (auto simp: ready quiet_stdin_def shows_values_def pin_text_def d line_def STDIN_EVENTS_def)
qed

text \<open>The path buffer of 100 bytes bounds the pin names: a name of more than 73 characters on
  the command line overruns it before anything is opened; every shorter one fits.\<close>

lemma pin_path_overflow:
  "open_pin p s = Stop (Undef Out_Of_Bounds) s \<longleftrightarrow> 73 < length p"
  by (auto simp: open_pin_def pin_path_def assert_that_def io_simps bytes_of_def)

text \<open>The report of a pin on every branch. A pin without an event is passed over; a pin whose
  file gives other than two bytes stops the program; else one line is printed which its reader can
  parse: atoi gives the number of the pin in front of the only comma before the value, and behind
  it what atoi gave for the file, a negative number included.\<close>

lemma report_pin_read_back:
  "case report_pin e fds i s of
     Ok _ s' \<Rightarrow>
       if pe_revents e i AND GPIO_EVENTS = 0 then s' = s
       else \<exists>num val. s' = s\<lparr>stdio := stdio s @ num @ [44] @ val @ [10]\<rparr> \<and> 44 \<notin> set num \<and>
         atoi (num @ [44]) = int i \<and> atoi (val @ [10]) = atoi (pe_content e (fds ! i) @ [0])
   | Stop h s' \<Rightarrow> s' = s \<and> h = Error ''2 == read(pfd[i].fd, buf, sizeof(buf))'' \<and>
       pe_revents e i AND GPIO_EVENTS \<noteq> 0 \<and> length (pe_content e (fds ! i)) \<noteq> 2"
proof (cases "pe_revents e i AND GPIO_EVENTS \<noteq> 0 \<and> length (pe_content e (fds ! i)) = 2")
  case True
  let ?v = "atoi (pe_content e (fds ! i) @ [0])"
  have "report_pin e fds i s = Ok () (s\<lparr>stdio := stdio s @ dec_bytes i @ [44] @ int_bytes ?v @ [10]\<rparr>)"
    using True by (simp add: report_pin_def Let_def print_def numeral_3_eq_3)
  moreover have "atoi (dec_bytes i @ [44]) = int i" "atoi (int_bytes ?v @ [10]) = ?v"
    using atoi_dec_bytes [of "[44]" i] atoi_int_bytes [of "[10]" ?v]
    by (simp_all add: is_digit_def word_le_nat_alt)
  ultimately show ?thesis
    using True comma_not_in_dec_bytes [of i]
    by simp (intro exI [of _ "dec_bytes i"] exI [of _ "int_bytes ?v"], simp)
qed (auto simp: report_pin_def Let_def assert_that_def io_simps)

end
