(* ===== verification/V4l_Stream.thy ===== *)
theory V4l_Stream
  imports Port
begin

text \<open>
  The camera port program c_src/v4l.c: for each empty request it takes a frame from a video
  device, converts it for the JPEG library while it measures motion and brightness, and sends the
  image and a record of statistics as two frames. The driver's answers to ioctl and mmap are data
  of the state. The JPEG library and the arithmetic of type float are parameters: functions from
  the scan lines to the image, and from the two integer sums to the bytes of the float fields.
\<close>

definition WIDTH :: nat where "WIDTH = 640"

definition HEIGHT :: nat where "HEIGHT = 480"

section \<open>Conversion and motion estimation: \<open>compress\<close>\<close>

record conv =
  out_row :: "u8 list"
  last_y :: "u8 list"
  square_diff_acc :: u64
  level_acc :: u32
  scanlines :: "u8 list list"

text \<open>One turn of the inner loop. The difference is taken in int and stored as uint32_t; its
  square wraps there. An access behind the end of a buffer is undefined: None. \<open>in_row\<close> is the
  frame from the row on, \<open>base\<close> the place of the row in \<open>last_y\<close>.\<close>

definition pixel_step :: "u8 list \<Rightarrow> nat \<Rightarrow> nat \<Rightarrow> conv \<Rightarrow> conv option" where
  "pixel_step in_row base x c =
     (let x2 = x div 2 in
      if x * 2 < length in_row \<and> x2 * 4 + 3 < length in_row \<and>
         x * 3 + 2 < length (out_row c) \<and> base + x < length (last_y c)
      then
        let y = in_row ! (x * 2);
            diff = (ucast y - ucast (last_y c ! (base + x)) :: u32) in
        Some (c\<lparr>out_row := (out_row c)[x * 3 := y, x * 3 + 1 := in_row ! (x2 * 4 + 1),
             x * 3 + 2 := in_row ! (x2 * 4 + 3)],
          last_y := (last_y c)[base + x := y],
          square_diff_acc := square_diff_acc c + ucast (diff * diff),
          level_acc := level_acc c + ucast y\<rparr>)
      else None)"

definition convert_row :: "u8 list \<Rightarrow> nat \<Rightarrow> conv \<Rightarrow> conv option" where
  "convert_row in_row base c = fold_some (pixel_step in_row base) [0..<WIDTH] c"

text \<open>One turn of the outer loop: the library takes the row and counts it.\<close>

definition line_step :: "u8 list \<Rightarrow> nat \<Rightarrow> conv \<Rightarrow> conv option" where
  "line_step buf next_scanline c =
     (let in_row = drop (next_scanline * 2 * WIDTH) buf in
      case convert_row in_row (WIDTH * next_scanline) c of
        None \<Rightarrow> None
      | Some c' \<Rightarrow> Some (c'\<lparr>scanlines := scanlines c' @ [out_row c']\<rparr>))"

definition convert_frame :: "u8 list \<Rightarrow> conv \<Rightarrow> conv option" where
  "convert_frame buf c = fold_some (line_step buf) [0..<HEIGHT] c"

text \<open>The statistics record: tag, width and height in little endian order, then the floats.\<close>

record stats_lib =
  jpeg_image :: "u8 list list \<Rightarrow> u8 list"
  motion_bytes :: "u64 \<Rightarrow> u8 list"
  brightness_bytes :: "u32 \<Rightarrow> u8 list"

definition le_bytes :: "nat \<Rightarrow> nat \<Rightarrow> u8 list" where
  "le_bytes n v = rev (be_bytes n v)"

definition stats_record :: "stats_lib \<Rightarrow> conv \<Rightarrow> u8 list" where
  "stats_record lib c = le_bytes 4 1 @ le_bytes 2 WIDTH @ le_bytes 2 HEIGHT @
     motion_bytes lib (square_diff_acc c) @ brightness_bytes lib (level_acc c)"

section \<open>The device\<close>

text \<open>What the driver answers when a buffer is taken and given back, with the mapped memory at
  that time.\<close>

record capture =
  dq_ok :: bool
  dq_index :: nat
  dq_memory :: "u8 list"
  q_ok :: bool

record camera =
  cam_open :: "string \<Rightarrow> int"
  cam_querycap :: bool
  cam_video_capture :: bool
  cam_streaming :: bool
  cam_s_fmt :: bool
  cam_reqbufs :: "nat option"
  cam_querybuf :: "nat \<Rightarrow> bool"
  cam_mmap :: "nat \<Rightarrow> bool"
  cam_qbuf :: "nat \<Rightarrow> bool"
  cam_streamon :: bool

record v4l = posix +
  captures :: "capture list"
  frame_buf :: "u8 list"
  seen_y :: "u8 list"

type_synonym 'a v4l_cm = "(v4l, 'a) cm"

definition device_name :: "string option \<Rightarrow> string list \<Rightarrow> string" where
  "device_name ssh_dev argv =
     (let dev = ''/dev/video0'';
          dev = (case ssh_dev of Some d \<Rightarrow> d | None \<Rightarrow> dev) in
      if length argv = 2 then argv ! 1 else dev)"

text \<open>The set up: it ends with the number of buffers, all mapped and queued.\<close>

definition setup_device :: "camera \<Rightarrow> string \<Rightarrow> nat v4l_cm" where
  "setup_device cam dev =
     andthen (assert_errno (cam_open cam dev) ''fd = open(dev, O_RDWR, 0)'') (\<lambda>_.
     andthen (assert_that (cam_querycap cam) ''VIDIOC_QUERYCAP'') (\<lambda>_.
     andthen (assert_that (cam_video_capture cam) ''V4L2_CAP_VIDEO_CAPTURE'') (\<lambda>_.
     andthen (assert_that (cam_streaming cam) ''V4L2_CAP_STREAMING'') (\<lambda>_.
     andthen (assert_that (cam_s_fmt cam) ''VIDIOC_S_FMT'') (\<lambda>_.
     case cam_reqbufs cam of
       None \<Rightarrow> stop (Error ''VIDIOC_REQBUFS'')
     | Some req_count \<Rightarrow>
         andthen (assert_that (2 \<le> req_count) ''req.count >= 2'') (\<lambda>_.
         andthen (for_each (\<lambda>i. statements
           [assert_that (cam_querybuf cam i) ''VIDIOC_QUERYBUF'',
            assert_that (cam_mmap cam i) ''MAP_FAILED != buffers[i].start'',
            assert_that (cam_qbuf cam i) ''VIDIOC_QBUF'']) [0..<req_count]) (\<lambda>_.
         andthen (assert_that (cam_streamon cam) ''VIDIOC_STREAMON'') (\<lambda>_.
         ret req_count))))))))"

section \<open>The streaming loop\<close>

definition clear_frame :: "u8 list" where
  "clear_frame = concat (replicate (WIDTH * HEIGHT) [0, 0x80])"

text \<open>The accumulation of a capture, byte by byte. The mapped memory is as long as the driver made it;
  an access behind its end, or behind that of the frame, is undefined.\<close>

definition add_pixel :: "u8 list \<Rightarrow> nat \<Rightarrow> u8 list \<Rightarrow> u8 list option" where
  "add_pixel src p f =
     (if p * 2 + 1 < length f \<and> p * 2 + 1 < length src
      then Some (f[p * 2 := f ! (p * 2) + src ! (p * 2),
        p * 2 + 1 := f ! (p * 2 + 1) + (src ! (p * 2 + 1) - 0x80)])
      else None)"

definition add_capture :: "u8 list \<Rightarrow> u8 list \<Rightarrow> u8 list option" where
  "add_capture src f = fold_some (add_pixel src) [0..<WIDTH * HEIGHT] f"

definition capture_frame :: "nat \<Rightarrow> unit v4l_cm" where
  "capture_frame req_count = (\<lambda>s.
     case captures s of
       [] \<Rightarrow> Stop Out_Of_Fuel s
     | cap # caps \<Rightarrow>
         andthen (assert_that (dq_ok cap) ''VIDIOC_DQBUF'') (\<lambda>_.
         andthen (assert_that (dq_index cap < req_count) ''buf.index < req.count'') (\<lambda>_.
         case add_capture (dq_memory cap) clear_frame of
           None \<Rightarrow> stop (Undef Out_Of_Bounds)
         | Some f \<Rightarrow>
             andthen (modify (\<lambda>s. s\<lparr>frame_buf := f\<rparr>)) (\<lambda>_.
             assert_that (q_ok cap) ''VIDIOC_QBUF''))) (s\<lparr>captures := caps\<rparr>))"

definition compress :: "stats_lib \<Rightarrow> (u8 list \<times> u8 list) v4l_cm" where
  "compress lib = (\<lambda>s.
     case convert_frame (frame_buf s) \<lparr>out_row = replicate (3 * WIDTH) 0, last_y = seen_y s,
         square_diff_acc = 0, level_acc = 0, scanlines = []\<rparr> of
       None \<Rightarrow> Stop (Undef Out_Of_Bounds) s
     | Some c \<Rightarrow> Ok (jpeg_image lib (scanlines c), stats_record lib c) (s\<lparr>seen_y := last_y c\<rparr>))"

definition serve_frame :: "stats_lib \<Rightarrow> nat \<Rightarrow> unit v4l_cm" where
  "serve_frame lib req_count =
     andthen (assert_read_u32 0) (\<lambda>cmd_len.
     andthen (assert_that (cmd_len = 0) ''cmd_len == 0'') (\<lambda>_.
     andthen (capture_frame req_count) (\<lambda>_.
     andthen (compress lib) (\<lambda>(jpeg_buf, stats).
     andthen (assert_write_port32 1 jpeg_buf (word_of_nat (length jpeg_buf))) (\<lambda>_.
     assert_write_port32 1 stats (word_of_nat (length stats)))))))"

primrec stream_loop :: "nat \<Rightarrow> stats_lib \<Rightarrow> nat \<Rightarrow> unit v4l_cm" where
  "stream_loop 0 lib req_count = skip"
| "stream_loop (Suc n) lib req_count =
     andthen (serve_frame lib req_count) (\<lambda>_. stream_loop n lib req_count)"

definition v4l_main ::
    "nat \<Rightarrow> stats_lib \<Rightarrow> camera \<Rightarrow> string option \<Rightarrow> string list \<Rightarrow> unit v4l_cm" where
  "v4l_main n lib cam ssh_dev argv =
     andthen (setup_device cam (device_name ssh_dev argv)) (stream_loop n lib)"

section \<open>The reference conversion\<close>

text \<open>The luma plane of a YUYV frame; a row as the JPEG library wants it, the chroma of a pair of
  pixels repeated; the sum of squares and the sum over a frame.\<close>

definition luma :: "u8 list \<Rightarrow> u8 list" where
  "luma buf = map (\<lambda>p. buf ! (p * 2)) [0..<WIDTH * HEIGHT]"

definition ycc_pixel :: "u8 list \<Rightarrow> nat \<Rightarrow> u8 list" where
  "ycc_pixel row x = [row ! (x * 2), row ! (x div 2 * 4 + 1), row ! (x div 2 * 4 + 3)]"

definition ycc_row :: "u8 list \<Rightarrow> u8 list" where
  "ycc_row row = concat (map (ycc_pixel row) [0..<WIDTH])"

definition square_diff :: "u8 \<Rightarrow> u8 \<Rightarrow> nat" where
  "square_diff a b = nat ((uint a - uint b)\<^sup>2)"

definition motion_sum :: "u8 list \<Rightarrow> u8 list \<Rightarrow> nat" where
  "motion_sum ys olds = (\<Sum>p < length ys. square_diff (ys ! p) (olds ! p))"

definition level_sum :: "u8 list \<Rightarrow> nat" where
  "level_sum ys = (\<Sum>p < length ys. unat (ys ! p))"

section \<open>The inner loop\<close>

lemma square_diff_bound: "square_diff a b \<le> 65536"
proof -
  have "0 \<le> uint a" "0 \<le> uint b" "uint a < 256" "uint b < 256"
    using unsigned_less [of a, where 'a = int] unsigned_less [of b, where 'a = int] by auto
  then have "\<bar>uint a - uint b\<bar> \<le> 256" by linarith
  then have "(uint a - uint b)\<^sup>2 \<le> 256\<^sup>2" by (metis abs_le_square_iff abs_numeral)
  then show ?thesis by (simp add: square_diff_def)
qed

text \<open>The square of the wrapped difference is the square of the difference.\<close>

lemma wrapped_square:
  "ucast ((ucast a - ucast b :: u32) * (ucast a - ucast b)) = (word_of_nat (square_diff a b) :: u64)"
proof -
  let ?d = "uint a - uint b"
  have "(ucast a - ucast b :: u32) * (ucast a - ucast b) = word_of_int (?d * ?d)"
    unfolding ucast_eq by simp
  also have "\<dots> = word_of_int (int (square_diff a b))"
    by (simp add: square_diff_def power2_eq_square)
  also have "\<dots> = word_of_nat (square_diff a b)" by simp
  finally have d: "(ucast a - ucast b :: u32) * (ucast a - ucast b) = word_of_nat (square_diff a b)" .
  have "square_diff a b < 2 ^ 32"
    by (rule le_less_trans [OF square_diff_bound]) simp
  then have "unat (word_of_nat (square_diff a b) :: u32) = square_diff a b"
    by (rule unat_u32_of_nat)
  then show ?thesis unfolding d by (metis of_nat_unat)
qed

lemma store_three:
  assumes "length xs = k" and "3 \<le> length ys"
  shows "(xs @ ys)[k := a, k + 1 := b, k + 2 := c] = xs @ [a, b, c] @ drop 3 ys"
proof -
  obtain x y z zs where "ys = x # y # z # zs"
    using assms(2) by (metis (no_types) Suc_le_length_iff numeral_3_eq_3)
  then show ?thesis using assms(1) by (simp add: list_update_append)
qed

lemma store_one_at:
  assumes "length xs = k" and "0 < length ys"
  shows "(xs @ ys)[k := a] = xs @ [a] @ drop 1 ys"
  using assms by (cases ys) (simp_all add: list_update_append)

lemma length_ycc [simp]: "length (concat (map (ycc_pixel row) xs)) = 3 * length xs"
  by (induction xs) (simp_all add: ycc_pixel_def)

lemma convert_pixels:
  assumes "3 * n \<le> length (out_row c)" and "base + n \<le> length (last_y c)"
    and "n \<le> N" and "2 * N \<le> length in_row" and "even N"
  shows "fold_some (pixel_step in_row base) [0..<n] c = Some (c\<lparr>
    out_row := concat (map (ycc_pixel in_row) [0..<n]) @ drop (3 * n) (out_row c),
    last_y := take base (last_y c) @ map (\<lambda>x. in_row ! (x * 2)) [0..<n] @ drop (base + n) (last_y c),
    square_diff_acc := square_diff_acc c +
      word_of_nat (\<Sum>x < n. square_diff (in_row ! (x * 2)) (last_y c ! (base + x))),
    level_acc := level_acc c + word_of_nat (\<Sum>x < n. unat (in_row ! (x * 2)))\<rparr>)"
  using assms(1-3)
proof (induction n)
  case (Suc n)
  let ?O = "concat (map (ycc_pixel in_row) [0..<n])"
  let ?L = "take base (last_y c) @ map (\<lambda>x. in_row ! (x * 2)) [0..<n]"
  have o: "(?O @ drop (3 * n) (out_row c))[n * 3 := a, n * 3 + 1 := b, n * 3 + 2 := d] =
      ?O @ [a, b, d] @ drop (3 * Suc n) (out_row c)" for a b d
    using store_three [of ?O "n * 3" "drop (3 * n) (out_row c)" a b d] Suc.prems(1) by (simp add: add.commute)
  have l: "(?L @ drop (base + n) (last_y c))[base + n := a] =
      ?L @ [a] @ drop (base + Suc n) (last_y c)" for a
    using store_one_at [of ?L "base + n" "drop (base + n) (last_y c)" a] Suc.prems(2) by simp
  have old: "(?L @ drop (base + n) (last_y c)) ! (base + n) = last_y c ! (base + n)"
    using Suc.prems(2) by (simp add: nth_append)
  obtain c1 where c1_def: "fold_some (pixel_step in_row base) [0..<n] c = Some c1" and IH: "c1 = c\<lparr>
    out_row := ?O @ drop (3 * n) (out_row c), last_y := ?L @ drop (base + n) (last_y c),
    square_diff_acc := square_diff_acc c +
      word_of_nat (\<Sum>x < n. square_diff (in_row ! (x * 2)) (last_y c ! (base + x))),
    level_acc := level_acc c + word_of_nat (\<Sum>x < n. unat (in_row ! (x * 2)))\<rparr>"
    using Suc by simp
  then have c1: "out_row c1 = ?O @ drop (3 * n) (out_row c)"
    "last_y c1 = ?L @ drop (base + n) (last_y c)" by simp_all
  obtain b where b: "N = 2 * b" using assms(5) by (elim evenE)
  then have "n div 2 < b" using Suc.prems(3) by linarith
  then have "n div 2 * 4 + 3 < length in_row" using assms(4) b by linarith
  then have inside: "n * 2 < length in_row \<and> n div 2 * 4 + 3 < length in_row \<and>
      n * 3 + 2 < length (out_row c1) \<and> base + n < length (last_y c1)"
    using Suc.prems assms(4) by (simp add: c1)
  have step: "pixel_step in_row base n c1 = Some (c1\<lparr>
      out_row := ?O @ ycc_pixel in_row n @ drop (3 * Suc n) (out_row c),
      last_y := ?L @ [in_row ! (n * 2)] @ drop (base + Suc n) (last_y c),
      square_diff_acc := square_diff_acc c1 +
        word_of_nat (square_diff (in_row ! (n * 2)) (last_y c ! (base + n))),
      level_acc := level_acc c1 + ucast (in_row ! (n * 2))\<rparr>)"
    using inside unfolding pixel_step_def Let_def c1 o l old wrapped_square by (simp add: ycc_pixel_def)
  have "fold_some (pixel_step in_row base) [0..<Suc n] c = pixel_step in_row base n c1"
    by (simp add: c1_def fold_some_append split: option.split)
  also have "\<dots> = Some (c\<lparr>
    out_row := ?O @ ycc_pixel in_row n @ drop (3 * Suc n) (out_row c),
    last_y := ?L @ [in_row ! (n * 2)] @ drop (base + Suc n) (last_y c),
    square_diff_acc := square_diff_acc c +
      word_of_nat (\<Sum>x < Suc n. square_diff (in_row ! (x * 2)) (last_y c ! (base + x))),
    level_acc := level_acc c + word_of_nat (\<Sum>x < Suc n. unat (in_row ! (x * 2)))\<rparr>)"
    unfolding step unfolding IH by (simp add: add.assoc)
  finally show ?case by simp
qed simp

section \<open>The outer loop\<close>

lemma sum_split: "(\<Sum>p < a + n. f p) = (\<Sum>p < a. f p) + (\<Sum>x < n. f (a + x))" for f :: "nat \<Rightarrow> nat"
  by (induction n) simp_all

lemma map_split: "map f [0..<a + n] = map f [0..<a] @ map (\<lambda>x. f (a + x)) [0..<n]"
  by (induction n) simp_all

lemma in_row_luma:
  "(l + 1) * 2 * WIDTH \<le> length buf \<Longrightarrow> x < WIDTH \<Longrightarrow>
    drop (l * 2 * WIDTH) buf ! (x * 2) = buf ! ((WIDTH * l + x) * 2)"
  by (simp add: algebra_simps)

lemma convert_lines:
  assumes "n * 2 * WIDTH \<le> length buf" and "WIDTH * n \<le> length (last_y c)"
    and "length (out_row c) = 3 * WIDTH"
  shows "\<exists>c'. fold_some (line_step buf) [0..<n] c = Some c' \<and> length (out_row c') = 3 * WIDTH \<and>
    scanlines c' = scanlines c @ map (\<lambda>l. ycc_row (drop (l * 2 * WIDTH) buf)) [0..<n] \<and>
    last_y c' = map (\<lambda>p. buf ! (p * 2)) [0..<WIDTH * n] @ drop (WIDTH * n) (last_y c) \<and>
    square_diff_acc c' = square_diff_acc c +
      word_of_nat (\<Sum>p < WIDTH * n. square_diff (buf ! (p * 2)) (last_y c ! p)) \<and>
    level_acc c' = level_acc c + word_of_nat (\<Sum>p < WIDTH * n. unat (buf ! (p * 2)))"
  using assms
proof (induction n)
  case (Suc n)
  let ?in = "drop (n * 2 * WIDTH) buf"
  let ?ys = "map (\<lambda>x. ?in ! (x * 2)) [0..<WIDTH]"
  have less: "n * 2 * WIDTH \<le> length buf" "WIDTH * n \<le> length (last_y c)"
    using Suc.prems by simp_all
  from Suc.IH [OF less Suc.prems(3)] obtain c1 where c1_def: "fold_some (line_step buf) [0..<n] c = Some c1"
    and IH: "length (out_row c1) = 3 * WIDTH \<and>
    scanlines c1 = scanlines c @ map (\<lambda>l. ycc_row (drop (l * 2 * WIDTH) buf)) [0..<n] \<and>
    last_y c1 = map (\<lambda>p. buf ! (p * 2)) [0..<WIDTH * n] @ drop (WIDTH * n) (last_y c) \<and>
    square_diff_acc c1 = square_diff_acc c +
      word_of_nat (\<Sum>p < WIDTH * n. square_diff (buf ! (p * 2)) (last_y c ! p)) \<and>
    level_acc c1 = level_acc c + word_of_nat (\<Sum>p < WIDTH * n. unat (buf ! (p * 2)))"
    by blast
  then have last_c1: "last_y c1 = map (\<lambda>p. buf ! (p * 2)) [0..<WIDTH * n] @ drop (WIDTH * n) (last_y c)"
    by blast
  have room: "3 * WIDTH \<le> length (out_row c1)" "WIDTH * n + WIDTH \<le> length (last_y c1)"
    using IH Suc.prems(2) less by simp_all
  have old: "last_y c1 ! (WIDTH * n + x) = last_y c ! (WIDTH * n + x)" for x
    using less unfolding last_c1 by (simp add: nth_append)
  have luma: "?in ! (x * 2) = buf ! ((WIDTH * n + x) * 2)" if "x < WIDTH" for x
    using in_row_luma [of n buf x] Suc.prems(1) that by simp
  have even: "even WIDTH" "2 * WIDTH \<le> length ?in" using Suc.prems(1) by (simp_all add: WIDTH_def)
  define c' where "c' = c1\<lparr>out_row := ycc_row ?in,
      last_y := take (WIDTH * n) (last_y c1) @ ?ys @ drop (WIDTH * n + WIDTH) (last_y c1),
      square_diff_acc := square_diff_acc c1 +
        word_of_nat (\<Sum>x < WIDTH. square_diff (?in ! (x * 2)) (last_y c1 ! (WIDTH * n + x))),
      level_acc := level_acc c1 + word_of_nat (\<Sum>x < WIDTH. unat (?in ! (x * 2))),
      scanlines := scanlines c1 @ [ycc_row ?in]\<rparr>"
  have step: "fold_some (line_step buf) [0..<Suc n] c = Some c'"
    using convert_pixels [OF room order_refl even(2,1)] IH
    by (simp add: fold_some_append c1_def c'_def line_step_def Let_def convert_row_def ycc_row_def)
  have sums: "(\<Sum>x < WIDTH. square_diff (?in ! (x * 2)) (last_y c1 ! (WIDTH * n + x))) =
      (\<Sum>x < WIDTH. square_diff (buf ! ((WIDTH * n + x) * 2)) (last_y c ! (WIDTH * n + x)))"
    "(\<Sum>x < WIDTH. unat (?in ! (x * 2))) = (\<Sum>x < WIDTH. unat (buf ! ((WIDTH * n + x) * 2)))"
    using luma old by simp_all
  have ys: "?ys = map (\<lambda>x. buf ! ((WIDTH * n + x) * 2)) [0..<WIDTH]" using luma by simp
  have w: "WIDTH * Suc n = WIDTH * n + WIDTH" by simp
  show ?case
    unfolding step
    by (intro exI [of _ c'] conjI refl)
      (unfold c'_def conv.simps sums ys w sum_split map_split,
        simp_all add: IH ycc_row_def add.assoc add.commute [of WIDTH])
qed simp

text \<open>The accumulators have room for a whole frame.\<close>

lemma sums_bounded:
  "(\<Sum>p < WIDTH * HEIGHT. square_diff (f p) (g p)) < 2 ^ 64"
  "(\<Sum>p < WIDTH * HEIGHT. unat (f p :: u8)) < 2 ^ 32"
proof -
  have "(\<Sum>p < WIDTH * HEIGHT. square_diff (f p) (g p)) \<le> WIDTH * HEIGHT * 65536"
    using sum_bounded_above [of "{..<WIDTH * HEIGHT}" "\<lambda>p. square_diff (f p) (g p)" 65536]
      square_diff_bound by simp
  also have "\<dots> < 2 ^ 64" by (simp add: WIDTH_def HEIGHT_def)
  finally show "(\<Sum>p < WIDTH * HEIGHT. square_diff (f p) (g p)) < 2 ^ 64" .
  have "(\<Sum>p < WIDTH * HEIGHT. unat (f p)) \<le> WIDTH * HEIGHT * 256"
    using sum_bounded_above [of "{..<WIDTH * HEIGHT}" "\<lambda>p. unat (f p)" 256]
    by (simp add: less_imp_le)
  also have "\<dots> < 2 ^ 32" by (simp add: WIDTH_def HEIGHT_def)
  finally show "(\<Sum>p < WIDTH * HEIGHT. unat (f p)) < 2 ^ 32" .
qed

section \<open>A capture replaces the frame\<close>

lemma store_two:
  assumes "length xs = k" and "2 \<le> length ys"
  shows "(xs @ ys)[k := a, k + 1 := b] = xs @ [a, b] @ drop 2 ys"
proof -
  obtain x y zs where "ys = x # y # zs"
    using assms(2) by (metis (no_types) Suc_le_length_iff numeral_2_eq_2)
  then show ?thesis using assms(1) by (simp add: list_update_append)
qed

lemma take_two: "k + 2 \<le> length xs \<Longrightarrow> take (k + 2) xs = take k xs @ [xs ! k, xs ! (k + 1)]"
  by (simp add: take_Suc_conv_app_nth)

lemma add_pixels:
  assumes "n \<le> N" and "2 * N \<le> length src"
  shows "fold_some (add_pixel src) [0..<n] (concat (replicate N [0, 0x80])) =
    Some (take (n * 2) src @ concat (replicate (N - n) [0, 0x80]))"
  using assms(1)
proof (induction n)
  case (Suc n)
  let ?rest = "concat (replicate (N - n) [0, 0x80]) :: u8 list"
  obtain m where m: "N - n = Suc m" using Suc.prems by (metis Suc_diff_le diff_Suc_Suc)
  then have "N - Suc n = m" by simp
  with m have rest: "?rest = [0, 0x80] @ concat (replicate (N - Suc n) [0, 0x80])" by simp
  have len: "length (take (n * 2) src) = n * 2" using assms(2) Suc.prems by simp
  have at: "(take (n * 2) src @ ?rest) ! (n * 2) = 0" "(take (n * 2) src @ ?rest) ! (n * 2 + 1) = 0x80"
    unfolding rest using len by (simp_all add: nth_append)
  have "n * 2 + 1 < length (take (n * 2) src @ ?rest) \<and> n * 2 + 1 < length src"
    unfolding rest using len assms(2) Suc.prems by simp
  then have step: "add_pixel src n (take (n * 2) src @ ?rest) =
      Some ((take (n * 2) src @ ?rest)[n * 2 := src ! (n * 2), n * 2 + 1 := src ! (n * 2 + 1)])"
    unfolding add_pixel_def at by (subst if_P, assumption) simp
  have "fold_some (add_pixel src) [0..<n] (concat (replicate N [0, 0x80])) = Some (take (n * 2) src @ ?rest)"
    using Suc by simp
  then have "fold_some (add_pixel src) [0..<Suc n] (concat (replicate N [0, 0x80])) =
      add_pixel src n (take (n * 2) src @ ?rest)"
    by (simp add: fold_some_append split: option.split)
  also have "\<dots> = Some ((take (n * 2) src @ ?rest)[n * 2 := src ! (n * 2), n * 2 + 1 := src ! (n * 2 + 1)])"
    by (rule step)
  also have "\<dots> = Some (take (n * 2) src @ [src ! (n * 2), src ! (n * 2 + 1)] @ drop 2 ?rest)"
    using store_two [OF len, of ?rest] by (simp add: rest)
  also have "\<dots> = Some (take (n * 2 + 2) src @ concat (replicate (N - Suc n) [0, 0x80]))"
    using take_two [of "n * 2" src] assms(2) Suc.prems by (simp add: rest)
  finally show ?case by (simp add: add.commute)
qed simp

lemma add_capture_copies:
  "WIDTH * HEIGHT * 2 \<le> length src \<Longrightarrow> add_capture src clear_frame = Some (take (WIDTH * HEIGHT * 2) src)"
  using add_pixels [of "WIDTH * HEIGHT" "WIDTH * HEIGHT" src]
  by (simp add: add_capture_def clear_frame_def mult.commute)

text \<open>A shorter capture is read behind its end.\<close>

lemma fold_some_None: "x \<in> set xs \<Longrightarrow> \<forall>s. f x s = None \<Longrightarrow> fold_some f xs s = None"
  by (induction xs arbitrary: s) (auto split: option.split)

lemma add_capture_short:
  assumes "length src < WIDTH * HEIGHT * 2"
  shows "add_capture src f = None"
proof -
  have "WIDTH * HEIGHT - 1 \<in> set [0..<WIDTH * HEIGHT]" by (simp add: WIDTH_def HEIGHT_def)
  then show ?thesis unfolding add_capture_def
    by (rule fold_some_None) (use assms in \<open>auto simp: add_pixel_def WIDTH_def HEIGHT_def\<close>)
qed

section \<open>Frames\<close>

definition yuyv_rows :: "u8 list \<Rightarrow> u8 list list" where
  "yuyv_rows buf = map (\<lambda>l. ycc_row (drop (l * 2 * WIDTH) buf)) [0..<HEIGHT]"

lemma convert_frame_ok:
  assumes "length buf = WIDTH * HEIGHT * 2" and "length olds = WIDTH * HEIGHT"
    and "length row = 3 * WIDTH"
  obtains c where "convert_frame buf
      \<lparr>out_row = row, last_y = olds, square_diff_acc = 0, level_acc = 0, scanlines = []\<rparr> = Some c"
    "scanlines c = yuyv_rows buf" "last_y c = luma buf"
    "unat (square_diff_acc c) = motion_sum (luma buf) olds"
    "unat (level_acc c) = level_sum (luma buf)"
proof -
  let ?c = "\<lparr>out_row = row, last_y = olds, square_diff_acc = 0, level_acc = 0, scanlines = []\<rparr>"
  obtain c where c: "convert_frame buf ?c = Some c" and l: "scanlines c = scanlines ?c @ map (\<lambda>l. ycc_row (drop (l * 2 * WIDTH) buf)) [0..<HEIGHT]"
    "last_y c = map (\<lambda>p. buf ! (p * 2)) [0..<WIDTH * HEIGHT] @ drop (WIDTH * HEIGHT) (last_y ?c)"
    "square_diff_acc c = square_diff_acc ?c +
      word_of_nat (\<Sum>p < WIDTH * HEIGHT. square_diff (buf ! (p * 2)) (last_y ?c ! p))"
    "level_acc c = level_acc ?c + word_of_nat (\<Sum>p < WIDTH * HEIGHT. unat (buf ! (p * 2)))"
    using convert_lines [of HEIGHT buf ?c] assms by (auto simp: convert_frame_def)
  have rows: "scanlines c = yuyv_rows buf" using l(1) by (simp add: yuyv_rows_def)
  have seen: "last_y c = luma buf" using l(2) assms(2) by (simp add: luma_def)
  have "motion_sum (luma buf) olds = (\<Sum>p < WIDTH * HEIGHT. square_diff (buf ! (p * 2)) (olds ! p))"
    "level_sum (luma buf) = (\<Sum>p < WIDTH * HEIGHT. unat (buf ! (p * 2)))"
    by (simp_all add: motion_sum_def level_sum_def luma_def)
  then have "square_diff_acc c = word_of_nat (motion_sum (luma buf) olds)"
    "level_acc c = word_of_nat (level_sum (luma buf))"
    "motion_sum (luma buf) olds < 2 ^ 64" "level_sum (luma buf) < 2 ^ 32"
    using l(3,4) sums_bounded(1) [of "\<lambda>p. buf ! (p * 2)" "\<lambda>p. olds ! p"]
      sums_bounded(2) [of "\<lambda>p. buf ! (p * 2)"] by simp_all
  then have "unat (square_diff_acc c) = motion_sum (luma buf) olds"
    "unat (level_acc c) = level_sum (luma buf)"
    by (simp_all add: unat_of_nat)
  with c rows seen show thesis by (rule that)
qed

text \<open>The two messages for a captured frame, given the luma of the frame before.\<close>

definition image_message :: "stats_lib \<Rightarrow> u8 list \<Rightarrow> u8 list" where
  "image_message lib f = jpeg_image lib (yuyv_rows f)"

definition stats_message :: "stats_lib \<Rightarrow> u8 list \<Rightarrow> u8 list \<Rightarrow> u8 list" where
  "stats_message lib olds f = [1, 0, 0, 0, 128, 2, 224, 1] @
     motion_bytes lib (word_of_nat (motion_sum (luma f) olds)) @
     brightness_bytes lib (word_of_nat (level_sum (luma f)))"

fun stream_messages :: "stats_lib \<Rightarrow> u8 list \<Rightarrow> u8 list list \<Rightarrow> u8 list list" where
  "stream_messages lib olds [] = []"
| "stream_messages lib olds (f # fs) =
     image_message lib f # stats_message lib olds f # stream_messages lib (luma f) fs"

definition good_capture :: "nat \<Rightarrow> capture \<Rightarrow> bool" where
  "good_capture req_count cap \<longleftrightarrow> dq_ok cap \<and> q_ok cap \<and> dq_index cap < req_count \<and>
     WIDTH * HEIGHT * 2 \<le> length (dq_memory cap)"

definition captured :: "capture \<Rightarrow> u8 list" where
  "captured cap = take (WIDTH * HEIGHT * 2) (dq_memory cap)"

definition small_messages :: "stats_lib \<Rightarrow> bool" where
  "small_messages lib \<longleftrightarrow> (\<forall>rows. length (jpeg_image lib rows) < 2 ^ 31) \<and>
     (\<forall>v. length (motion_bytes lib v) = 4) \<and> (\<forall>v. length (brightness_bytes lib v) = 4)"

lemma compress_ok:
  assumes "length f = WIDTH * HEIGHT * 2" and "length (seen_y s) = WIDTH * HEIGHT" and "frame_buf s = f"
  shows "compress lib s = Ok (image_message lib f, stats_message lib (seen_y s) f) (s\<lparr>seen_y := luma f\<rparr>)"
proof -
  obtain c where ok: "convert_frame f \<lparr>out_row = replicate (3 * WIDTH) 0, last_y = seen_y s,
      square_diff_acc = 0, level_acc = 0, scanlines = []\<rparr> = Some c"
    "scanlines c = yuyv_rows f" "last_y c = luma f"
    "unat (square_diff_acc c) = motion_sum (luma f) (seen_y s)" "unat (level_acc c) = level_sum (luma f)"
    using convert_frame_ok [OF assms(1,2), of "replicate (3 * WIDTH) 0"] by auto
  have "square_diff_acc c = word_of_nat (motion_sum (luma f) (seen_y s))"
    "level_acc c = word_of_nat (level_sum (luma f))"
    unfolding ok(4,5) [symmetric] by simp_all
  then have "stats_record lib c = stats_message lib (seen_y s) f"
    by (simp add: stats_record_def stats_message_def le_bytes_def be_bytes_4 be_bytes_2 WIDTH_def HEIGHT_def)
  then show ?thesis
    using ok(1-3) assms(3) by (simp add: compress_def image_message_def)
qed

lemma v4l_more: "posix.more s = posix.more t \<Longrightarrow>
    captures s = captures t \<and> frame_buf s = frame_buf t \<and> seen_y s = seen_y t"
  by (cases s, cases t) simp

lemma same_but_rd_v4l:
  "same_but_rd fd s t \<Longrightarrow> captures t = captures s \<and> frame_buf t = frame_buf s \<and> seen_y t = seen_y s"
  by (auto simp: same_but_rd_def)

lemma capture_frame_ok:
  assumes "captures s = cap # caps" and "good_capture n cap"
  shows "capture_frame n s = Ok () (s\<lparr>captures := caps, frame_buf := captured cap\<rparr>)"
  using assms add_capture_copies [of "dq_memory cap"]
  by (simp add: capture_frame_def good_capture_def captured_def io_simps)

lemma length_captured: "good_capture n cap \<Longrightarrow> length (captured cap) = WIDTH * HEIGHT * 2"
  by (simp add: good_capture_def captured_def)

lemma length_luma [simp]: "length (luma f) = WIDTH * HEIGHT"
  by (simp add: luma_def)

text \<open>One request, one frame: two messages.\<close>

lemma serve_frame_ok:
  assumes "small_messages lib" and "readable 0 s" "writable 1 s"
    and "pending 0 s = frame [] @ rest" and "captures s = cap # caps" and "good_capture n cap"
    and "length (seen_y s) = WIDTH * HEIGHT"
  obtains s' where "serve_frame lib n s = Ok () s'" "pending 0 s' = rest" "readable 0 s'" "writable 1 s'"
    "captures s' = caps" "seen_y s' = luma (captured cap)"
    "out s' 1 = out s 1 @ frame (image_message lib (captured cap)) @
      frame (stats_message lib (seen_y s) (captured cap))"
proof -
  let ?f = "captured cap"
  let ?jpeg = "image_message lib ?f"
  let ?stats = "stats_message lib (seen_y s) ?f"
  have "pending 0 s = be_bytes 4 0 @ rest" using assms(4) by (simp add: frame_def)
  then obtain t where t: "assert_read_u32 0 s = Ok 0 t" "pending 0 t = rest" "readable 0 t"
    "same_but_rd 0 s t"
    using read_u32_data [OF assms(2), of 0 rest] by auto
  let ?t = "t\<lparr>captures := caps, frame_buf := ?f\<rparr>"
  let ?u = "?t\<lparr>seen_y := luma ?f\<rparr>"
  have cap: "capture_frame n t = Ok () ?t"
    using capture_frame_ok [of t cap caps n] assms(5,6) same_but_rd_v4l [OF t(4)] by simp
  have comp: "compress lib ?t = Ok (?jpeg, ?stats) ?u"
    using compress_ok [of ?f ?t lib] length_captured [OF assms(6)] assms(7) same_but_rd_v4l [OF t(4)]
    by simp
  have small: "length ?jpeg < 2 ^ 31" "length ?stats < 2 ^ 31"
    using assms(1) by (simp_all add: small_messages_def image_message_def stats_message_def)
  have "writable 1 ?u" using assms(3) t(4) by (simp add: same_but_rd_fields writable_def)
  then obtain v where v: "assert_write_port32 1 ?jpeg (word_of_nat (length ?jpeg)) ?u = Ok () v"
    "writable 1 v" "wrote 1 (frame ?jpeg) ?u v"
    using assert_write_port32_ok [of 1 ?u ?jpeg] small(1) by (auto simp: frame_def)
  then obtain w where w: "assert_write_port32 1 ?stats (word_of_nat (length ?stats)) v = Ok () w"
    "writable 1 w" "wrote 1 (frame ?stats) v w"
    using assert_write_port32_ok [of 1 v ?stats] small(2) by (auto simp: frame_def)
  have "serve_frame lib n s = Ok () w"
    using t(1) cap comp v(1) w(1) by (simp add: serve_frame_def)
  moreover have "captures w = caps \<and> seen_y w = luma ?f"
    using v4l_more [of w v] v4l_more [of v ?u] v(3) w(3) by (simp add: frame_simps)
  ultimately show thesis
    using t v w by (intro that [of w]) (simp_all add: frame_simps, simp_all add: pending_def readable_def)
qed

lemma stream_ok:
  assumes "small_messages lib" and "readable 0 s" "writable 1 s"
    and "pending 0 s = concat (map (\<lambda>_. frame []) caps) @ rest" and "captures s = caps @ more_caps"
    and "\<forall>cap \<in> set caps. good_capture n cap" and "length (seen_y s) = WIDTH * HEIGHT"
  shows "\<exists>s'. stream_loop (length caps) lib n s = Ok () s' \<and> pending 0 s' = rest \<and>
    captures s' = more_caps \<and>
    out s' 1 = out s 1 @ concat (map frame (stream_messages lib (seen_y s) (map captured caps)))"
  using assms(2-7)
proof (induction caps arbitrary: s)
  case (Cons cap caps)
  obtain t where t: "serve_frame lib n s = Ok () t"
    "pending 0 t = concat (map (\<lambda>_. frame []) caps) @ rest" "readable 0 t" "writable 1 t"
    "captures t = caps @ more_caps" "seen_y t = luma (captured cap)"
    "out t 1 = out s 1 @ frame (image_message lib (captured cap)) @
      frame (stats_message lib (seen_y s) (captured cap))"
    using serve_frame_ok [OF assms(1) Cons.prems(1,2), of "concat (map (\<lambda>_. frame []) caps) @ rest" cap
        "caps @ more_caps" n] Cons.prems by auto
  with Cons.IH [of t] Cons.prems(5) show ?case by auto
qed simp

interpretation camera_loop: packet_loop 0 "stream_loop (Suc n) lib req_count" for n lib req_count
  unfolding stream_loop.simps serve_frame_def
  by (intro packet_loop_then packet_loop_read)

section \<open>The set up\<close>

definition all_set :: "camera \<Rightarrow> string \<Rightarrow> nat \<Rightarrow> bool" where
  "all_set cam dev n \<longleftrightarrow> cam_open cam dev \<noteq> - 1 \<and> cam_querycap cam \<and> cam_video_capture cam \<and>
     cam_streaming cam \<and> cam_s_fmt cam \<and> cam_reqbufs cam = Some n \<and> 2 \<le> n \<and>
     (\<forall>i < n. cam_querybuf cam i \<and> cam_mmap cam i \<and> cam_qbuf cam i) \<and> cam_streamon cam"

lemma queue_buffers:
  "for_each (\<lambda>i. statements
      [assert_that (cam_querybuf cam i) m1, assert_that (cam_mmap cam i) m2,
       assert_that (cam_qbuf cam i) m3]) is' s =
     (case find (\<lambda>i. \<not> (cam_querybuf cam i \<and> cam_mmap cam i \<and> cam_qbuf cam i)) is' of
        None \<Rightarrow> Ok () s
      | Some i \<Rightarrow> Stop (Error (if \<not> cam_querybuf cam i then m1 else if \<not> cam_mmap cam i then m2
          else m3)) s)"
  by (induction is') (auto simp: assert_that_def io_simps)

lemma setup_device_outcome:
  "case setup_device cam dev s of
     Ok n s' \<Rightarrow> s' = s \<and> all_set cam dev n
   | Stop h s' \<Rightarrow> s' = s \<and> (\<exists>msg. h = Error msg) \<and> (\<forall>n. \<not> all_set cam dev n)"
  unfolding setup_device_def queue_buffers all_set_def
  by (auto simp: assert_that_def io_simps find_None_iff find_Some_iff split: option.splits)

section \<open>No access outside a buffer\<close>

text \<open>The arrays of the program have their size, and the driver's mappings hold a whole frame.\<close>

definition v4l_sized :: "v4l \<Rightarrow> bool" where
  "v4l_sized s \<longleftrightarrow> length (frame_buf s) = WIDTH * HEIGHT * 2 \<and> length (seen_y s) = WIDTH * HEIGHT \<and>
     (\<forall>cap \<in> set (captures s). WIDTH * HEIGHT * 2 \<le> length (dq_memory cap))"

lemma sized_more: "posix.more s = posix.more t \<Longrightarrow> v4l_sized s \<Longrightarrow> v4l_sized t"
  using v4l_more [of s t] by (simp add: v4l_sized_def)

lemma keeps_sized: "keeps all_but_rd m \<Longrightarrow> preserves v4l_sized m" "keeps posix.more m' \<Longrightarrow> preserves v4l_sized m'"
  by (erule preserves_keeps, blast intro: sized_more dest: all_but_rd_eq)+

lemma write_port32_sized [pres_intros]: "preserves v4l_sized (assert_write_port32 fd buf n)"
  unfolding assert_write_port32_def by (intro keeps_sized keep_intros)

lemma read_u32_sized [pres_intros]: "preserves v4l_sized (assert_read_u32 fd)"
  by (intro keeps_sized keep_intros)

lemma capture_frame_sized [pres_intros]: "preserves v4l_sized (capture_frame n)"
  by (auto simp: preserves_def capture_frame_def v4l_sized_def assert_that_def add_capture_copies
      io_simps split: list.splits option.splits)

lemma compress_sized [pres_intros]: "preserves v4l_sized (compress lib)"
  by (auto simp: preserves_def v4l_sized_def compress_ok)

lemma serve_frame_sized [pres_intros]: "preserves v4l_sized (serve_frame lib n)"
  unfolding serve_frame_def case_prod_beta by (intro pres_intros)

lemma capture_frame_defined [def_intros]: "defined v4l_sized (capture_frame n)"
  by (auto simp: defined_def capture_frame_def v4l_sized_def assert_that_def add_capture_copies
      io_simps split: list.splits)

lemma compress_defined [def_intros]: "defined v4l_sized (compress lib)"
  by (auto simp: defined_def v4l_sized_def compress_ok)

lemma serve_frame_defined [def_intros]: "defined v4l_sized (serve_frame lib n)"
  unfolding serve_frame_def case_prod_beta by (intro def_intros pres_intros)

lemma stream_loop_defined: "defined v4l_sized (stream_loop n lib m)" "preserves v4l_sized (stream_loop n lib m)"
  by (induction n) (simp_all, (intro def_intros pres_intros | assumption)+)

lemma setup_device_keeps: "preserves P (setup_device cam dev)" "defined P (setup_device cam dev)"
proof -
  have "res_state (setup_device cam dev s) = s \<and> setup_device cam dev s \<noteq> Stop (Undef u) t" for s u t
    using setup_device_outcome [of s cam dev] by (cases "setup_device cam dev s") auto
  then show "preserves P (setup_device cam dev)" "defined P (setup_device cam dev)"
    by (simp_all add: preserves_def defined_def)
qed

section \<open>Properties\<close>

definition toy_stats :: stats_lib where
  "toy_stats = \<lparr>jpeg_image = (\<lambda>rows. [255, 216]), motion_bytes = (\<lambda>_. [0, 0, 0, 0]),
     brightness_bytes = (\<lambda>_. [0, 0, 0, 0])\<rparr>"

definition grey :: "u8 list" where "grey = replicate (WIDTH * HEIGHT * 2) 128"

definition toy_capture :: "u8 list \<Rightarrow> capture" where
  "toy_capture mem = \<lparr>dq_ok = True, dq_index = 1, dq_memory = mem, q_ok = True\<rparr>"

definition toy_v4l :: "rd_event list \<Rightarrow> capture list \<Rightarrow> v4l" where
  "toy_v4l q caps = \<lparr>rd = (\<lambda>_. [])(0 := q), wr = (\<lambda>_. []), out = (\<lambda>_. []), malloc_max = 0,
     live_blocks = 0, captures = caps, frame_buf = [], seen_y = replicate (WIDTH * HEIGHT) 0\<rparr>"

lemma toy_v4l_simps [simp]:
  "readable 0 (toy_v4l q caps) = script_ok q" "writable 1 (toy_v4l q caps)"
  "pending 0 (toy_v4l q caps) = script_bytes q" "out (toy_v4l q caps) fd = []"
  "captures (toy_v4l q caps) = caps" "seen_y (toy_v4l q caps) = replicate (WIDTH * HEIGHT) 0"
  by (simp_all add: toy_v4l_def readable_def writable_def pending_def)

text \<open>C8: The conversion loop computes the reference conversion: each row goes to the JPEG library
  as Y, and the two other samples of its pixel pair; the stored luma becomes that of the frame; and
  the two accumulators hold exactly the sum of the squared differences and the sum of the levels.
  Neither the subtraction in uint32_t nor its square nor the sums over a frame lose anything.\<close>

theorem convert_frame_exact:
  assumes "length buf = WIDTH * HEIGHT * 2" and "length olds = WIDTH * HEIGHT"
    and "length row = 3 * WIDTH"
  shows "\<exists>c. convert_frame buf \<lparr>out_row = row, last_y = olds, square_diff_acc = 0, level_acc = 0,
       scanlines = []\<rparr> = Some c \<and>
     scanlines c = yuyv_rows buf \<and> last_y c = luma buf \<and>
     unat (square_diff_acc c) = motion_sum (luma buf) olds \<and>
     unat (level_acc c) = level_sum (luma buf)"
  by (rule convert_frame_ok [OF assms]) blast

theorem convert_frame_exact_witness:
  "\<exists>c. convert_frame grey \<lparr>out_row = replicate (3 * WIDTH) 0,
     last_y = replicate (WIDTH * HEIGHT) 0, square_diff_acc = 0, level_acc = 0, scanlines = []\<rparr> = Some c \<and>
   unat (level_acc c) = level_sum (luma grey)"
  using convert_frame_exact [of grey "replicate (WIDTH * HEIGHT) 0" "replicate (3 * WIDTH) 0"]
  by (auto simp: grey_def)

text \<open>The set up of the device succeeds exactly when every call of the driver does and there
  are at least two buffers, each of them mapped and queued, and ends the program with an error
  otherwise; it reads and writes nothing on the port.\<close>

lemma setup_device_exact:
  "case setup_device cam dev s of
     Ok n s' \<Rightarrow> s' = s \<and> all_set cam dev n
   | Stop h s' \<Rightarrow> s' = s \<and> (\<exists>msg. h = Error msg) \<and> (\<forall>n. \<not> all_set cam dev n)"
  by (rule setup_device_outcome)

text \<open>C34: A camera session from the start of the program: after the set up every empty request is
  answered by two frames, the image of the next capture and its statistics against the capture
  before, and nothing else is read or written.\<close>

theorem v4l_session:
  assumes "all_set cam (device_name ssh argv) n"
    and "small_messages lib" and "readable 0 s" "writable 1 s"
    and "pending 0 s = concat (map (\<lambda>_. frame []) caps) @ rest" and "captures s = caps @ more_caps"
    and "\<forall>cap \<in> set caps. good_capture n cap" and "length (seen_y s) = WIDTH * HEIGHT"
  shows "\<exists>s'. v4l_main (length caps) lib cam ssh argv s = Ok () s' \<and> pending 0 s' = rest \<and>
    captures s' = more_caps \<and>
    out s' 1 = out s 1 @ concat (map frame (stream_messages lib (seen_y s) (map captured caps)))"
proof -
  have "setup_device cam (device_name ssh argv) s = Ok n s"
    using setup_device_outcome [of s cam "device_name ssh argv"] assms(1)
    by (auto simp: all_set_def split: res.splits)
  then show ?thesis using stream_ok [OF assms(2-8)] by (simp add: v4l_main_def)
qed

definition toy_camera :: camera where
  "toy_camera = \<lparr>cam_open = (\<lambda>d. if d = ''/dev/video0'' then 3 else - 1), cam_querycap = True,
     cam_video_capture = True, cam_streaming = True, cam_s_fmt = True, cam_reqbufs = Some 2,
     cam_querybuf = (\<lambda>_. True), cam_mmap = (\<lambda>_. True), cam_qbuf = (\<lambda>_. True),
     cam_streamon = True\<rparr>"

theorem v4l_session_witness:
  "\<exists>s'. v4l_main (length [toy_capture grey]) toy_stats toy_camera None [''v4l'']
       (toy_v4l [Rd_data (frame [])] [toy_capture grey]) = Ok () s' \<and>
     out s' 1 = frame [255, 216] @ frame (stats_message toy_stats (replicate (WIDTH * HEIGHT) 0) grey)"
proof -
  have "frame [] \<noteq> []" by (simp add: frame_def be_bytes_4)
  moreover have "captured (toy_capture grey) = grey"
    by (simp add: captured_def toy_capture_def grey_def)
  moreover have "all_set toy_camera (device_name None [''v4l'']) 2"
    by (simp add: all_set_def toy_camera_def device_name_def)
  ultimately show ?thesis
    using v4l_session [of toy_camera None "[''v4l'']" 2 toy_stats
        "toy_v4l [Rd_data (frame [])] [toy_capture grey]" "[toy_capture grey]" "[]" "[]"]
    by (auto simp: small_messages_def toy_stats_def good_capture_def toy_capture_def image_message_def
        grey_def)
qed

text \<open>C36: The program never reads or writes outside a buffer, whatever is requested of it, however
  often the driver or a descriptor fails and wherever a run is looked at or ends: not outside the
  frame, the luma of the frame before, the row for the JPEG library or a message, with the two
  arrays as long as they are declared and a driver that maps buffers for a whole frame of 640 by 480
  pixels. The first capture that is shorter is read behind its end.\<close>

theorem v4l_in_bounds:
  assumes "length (frame_buf s) = WIDTH * HEIGHT * 2" and "length (seen_y s) = WIDTH * HEIGHT"
  shows "((\<forall>cap \<in> set (captures s). WIDTH * HEIGHT * 2 \<le> length (dq_memory cap)) \<longrightarrow>
      v4l_main n lib cam ssh argv s \<noteq> Stop (Undef u) t) \<and>
    (captures s = cap # caps \<and> dq_ok cap \<and> dq_index cap < m \<and>
       length (dq_memory cap) < WIDTH * HEIGHT * 2 \<longrightarrow>
      capture_frame m s = Stop (Undef Out_Of_Bounds) (s\<lparr>captures := caps\<rparr>))"
proof (intro conjI impI)
  assume "\<forall>cap \<in> set (captures s). WIDTH * HEIGHT * 2 \<le> length (dq_memory cap)"
  then have "v4l_sized s" using assms by (simp add: v4l_sized_def)
  moreover have "defined v4l_sized (v4l_main n lib cam ssh argv)"
    unfolding v4l_main_def by (intro defined_andthen setup_device_keeps stream_loop_defined)
  ultimately show "v4l_main n lib cam ssh argv s \<noteq> Stop (Undef u) t" by (rule definedD [rotated])
next
  assume "captures s = cap # caps \<and> dq_ok cap \<and> dq_index cap < m \<and>
    length (dq_memory cap) < WIDTH * HEIGHT * 2"
  then show "capture_frame m s = Stop (Undef Out_Of_Bounds) (s\<lparr>captures := caps\<rparr>)"
    by (simp add: capture_frame_def add_capture_short io_simps)
qed

theorem v4l_in_bounds_witness:
  "(\<forall>u t. v4l_main 1 toy_stats toy_camera None [''v4l'']
      ((toy_v4l [Rd_data (frame [])] [toy_capture grey])\<lparr>frame_buf := clear_frame\<rparr>) \<noteq> Stop (Undef u) t) \<and>
    capture_frame 2 ((toy_v4l [] [toy_capture [1, 2]])\<lparr>frame_buf := clear_frame\<rparr>) =
      Stop (Undef Out_Of_Bounds) ((toy_v4l [] [])\<lparr>frame_buf := clear_frame\<rparr>)"
proof -
  let ?s = "\<lambda>rds caps. (toy_v4l rds caps)\<lparr>frame_buf := clear_frame\<rparr>"
  have sizes: "length (frame_buf (?s rds caps)) = WIDTH * HEIGHT * 2"
    "length (seen_y (?s rds caps)) = WIDTH * HEIGHT" for rds caps
    by (simp_all add: toy_v4l_def clear_frame_def length_concat sum_list_replicate)
  have "v4l_main 1 toy_stats toy_camera None [''v4l''] (?s [Rd_data (frame [])] [toy_capture grey]) \<noteq>
      Stop (Undef u) t" for u t
    using conjunct1 [OF v4l_in_bounds [OF sizes]] by (simp add: toy_capture_def toy_v4l_def grey_def)
  moreover have "captures (?s [] [toy_capture [1, 2]]) = [toy_capture [1, 2]]"
    "dq_ok (toy_capture [1, 2])" "dq_index (toy_capture [1, 2]) < 2"
    "length (dq_memory (toy_capture [1, 2])) < WIDTH * HEIGHT * 2"
    by (simp_all add: toy_v4l_def toy_capture_def WIDTH_def HEIGHT_def)
  then have "capture_frame 2 (?s [] [toy_capture [1, 2]]) =
      Stop (Undef Out_Of_Bounds) ((?s [] [toy_capture [1, 2]])\<lparr>captures := []\<rparr>)"
    using conjunct2 [OF v4l_in_bounds [OF sizes [of "[]" "[toy_capture [1, 2]]"]]] by blast
  moreover have "(?s [] [toy_capture [1, 2]])\<lparr>captures := []\<rparr> = ?s [] []"
    by (simp add: toy_v4l_def)
  ultimately show ?thesis by simp
qed

text \<open>A request that is not empty ends the program with an error before a frame is taken.\<close>

lemma v4l_rejects_request:
  assumes "readable 0 s" and "pending 0 s = be_bytes 4 k @ rest" and "0 < k" and "k < 2 ^ 32"
  shows "\<exists>s'. serve_frame lib n s = Stop (Error ''cmd_len == 0'') s' \<and> captures s' = captures s \<and>
    out s' = out s"
proof -
  obtain t where t: "assert_read_u32 0 s = Ok (word_of_nat k) t" "same_but_rd 0 s t"
    using read_u32_data [OF assms(1,2,4)] by metis
  have "unat (word_of_nat k :: u32) = k" by (rule unat_u32_of_nat) fact
  then have "(word_of_nat k :: u32) \<noteq> 0" using assms(3) by (metis less_numeral_extra(3) unat_0)
  then show ?thesis
    using t same_but_rd_v4l [OF t(2)] by (simp add: serve_frame_def io_simps frame_simps)
qed

lemma v4l_rejects_request_witness:
  "\<exists>s'. serve_frame toy_stats 2 (toy_v4l [Rd_data [0, 0, 0, 1]] []) = Stop (Error ''cmd_len == 0'') s'"
  using v4l_rejects_request [of "toy_v4l [Rd_data [0, 0, 0, 1]] []" 1 "[]" toy_stats 2]
  by (auto simp: be_bytes_4)

text \<open>The length of a mapped buffer and the format the driver settled on are never looked at:
  with a buffer shorter than a 640x480 YUYV frame, such as for a smaller resolution, the program
  reads behind the mapping.\<close>

lemma short_capture_overreads:
  assumes "captures s = cap # caps" and "dq_ok cap" and "dq_index cap < n"
    and "length (dq_memory cap) < WIDTH * HEIGHT * 2"
  shows "capture_frame n s = Stop (Undef Out_Of_Bounds) (s\<lparr>captures := caps\<rparr>)"
  using assms by (simp add: capture_frame_def add_capture_short io_simps)

end
