(* ===== verification/Programs_End.thy ===== *)
theory Programs_End
  imports Axo_Usb Ftdi_Command Gpio_Poll V4l_Stream
begin

text \<open>
  The loops of axo_connect.c, ftdi_connect.c, v4l.c and gpio_poll.c come to an end on every input: what a
  turn takes of it bounds the number of turns. (\<open>Sqlite_Robust\<close> has this of sqlite3.c.)
\<close>

section \<open>What a call takes from stdin\<close>

text \<open>A call that takes at least k bytes from stdin when it returns, leaves the value of f as it is, and
  does not run out of turns when it stops.\<close>

definition takes :: "('z posix_scheme \<Rightarrow> 'x) \<Rightarrow> nat \<Rightarrow> ('z posix_scheme, 'a) cm \<Rightarrow> bool" where
  "takes f k m \<longleftrightarrow> (\<forall>s. case m s of
     Ok a t \<Rightarrow> length (pending 0 t) + k \<le> length (pending 0 s) \<and> f t = f s
   | Stop h t \<Rightarrow> h \<noteq> Out_Of_Fuel)"

definition of_more :: "('z posix_scheme \<Rightarrow> 'x) \<Rightarrow> bool" where
  "of_more f \<longleftrightarrow> (\<forall>s t. posix.more s = posix.more t \<longrightarrow> f s = f t)"

named_theorems take_intros \<open>what a call takes\<close>

lemma takes_Ok: "takes f k m \<Longrightarrow> m s = Ok a t \<Longrightarrow> length (pending 0 t) + k \<le> length (pending 0 s) \<and> f t = f s"
  unfolding takes_def by (drule spec [of _ s]) simp

lemma takes_Stop: "takes f k m \<Longrightarrow> m s = Stop h t \<Longrightarrow> h \<noteq> Out_Of_Fuel"
  unfolding takes_def by (drule spec [of _ s]) simp

lemma takesI:
  "(\<And>s a t. m s = Ok a t \<Longrightarrow> length (pending 0 t) + k \<le> length (pending 0 s) \<and> f t = f s) \<Longrightarrow>
    (\<And>s h t. m s = Stop h t \<Longrightarrow> h \<noteq> Out_Of_Fuel) \<Longrightarrow> takes f k m"
  by (auto simp: takes_def split: res.splits)

lemma takes_pure [take_intros]:
  "takes f 0 (ret a)" "takes f 0 skip" "takes f 0 (gets g)" "takes f 0 (assert_that b msg)"
  "takes f 0 (assert_eq x y msg)" "takes f 0 (assert_errno c msg)" "takes f 0 (stop (Error msg))"
  "takes f 0 (stop (Undef u))" "takes f 0 (stop (Exit n))"
  by (simp_all add: takes_def assert_that_def)

lemma takes_modify [take_intros]:
  "(\<And>s. pending 0 (g s) = pending 0 s) \<Longrightarrow> (\<And>s. f (g s) = f s) \<Longrightarrow> takes f 0 (modify g)"
  by (simp add: takes_def)

lemma takes_less: "takes f k m \<Longrightarrow> j \<le> k \<Longrightarrow> takes f j m"
  by (rule takesI) (auto dest: takes_Ok takes_Stop)

lemma takes_first:
  assumes "takes f k m" and "\<And>a. takes f 0 (c a)"
  shows "takes f k (andthen m c)"
proof (rule takesI)
  fix s b u
  assume "andthen m c s = Ok b u"
  then obtain a t where "m s = Ok a t" "c a t = Ok b u" by (cases "m s") auto
  with takes_Ok [OF assms(1)] takes_Ok [OF assms(2)]
  show "length (pending 0 u) + k \<le> length (pending 0 s) \<and> f u = f s" by fastforce
next
  fix s h u
  assume "andthen m c s = Stop h u"
  with takes_Stop [OF assms(1), of s] takes_Stop [OF assms(2)] show "h \<noteq> Out_Of_Fuel" by (cases "m s") auto
qed

lemma takes_andthen [take_intros]: "takes f 0 m \<Longrightarrow> (\<And>a. takes f 0 (c a)) \<Longrightarrow> takes f 0 (andthen m c)"
  by (rule takes_first)

lemma takes_for_each [take_intros]: "(\<And>x. takes f 0 (g x)) \<Longrightarrow> takes f 0 (for_each g xs)"
  by (induction xs) (auto intro: take_intros)

lemma takes_collect [take_intros]: "takes f 0 m \<Longrightarrow> takes f 0 (collect n m)"
  by (induction n) (auto intro: take_intros)

lemma takes_read:
  assumes "keeps all_but_rd m" and "of_more f"
    and "\<And>s. case m s of Ok a t \<Rightarrow> length (pending 0 t) + k \<le> length (pending 0 s) | Stop h t \<Rightarrow> h \<noteq> Out_Of_Fuel"
  shows "takes f k m"
proof (rule takesI)
  fix s a t
  assume m: "m s = Ok a t"
  then have "all_but_rd t = all_but_rd s" by (rule keeps_Ok [OF assms(1)])
  then have "posix.more t = posix.more s" using all_but_rd_eq by blast
  then have "f t = f s" using assms(2) unfolding of_more_def by blast
  with assms(3) [of s] m show "length (pending 0 t) + k \<le> length (pending 0 s) \<and> f t = f s" by simp
next
  fix s h t
  assume "m s = Stop h t"
  with assms(3) [of s] show "h \<noteq> Out_Of_Fuel" by simp
qed

lemma takes_read_fixed: "of_more f \<Longrightarrow> takes f nb (assert_read_fixed 0 cap nb)"
  using assert_read_fixed_consumes [where fd = 0 and cap = cap and nb = nb]
  by (intro takes_read keep_intros) (fastforce split: res.splits)+

lemma takes_read_u32: "of_more f \<Longrightarrow> takes f 4 (assert_read_u32 0)"
  using assert_read_u32_consumes [where fd = 0]
  by (intro takes_read keep_intros) (fastforce split: res.splits)+

lemma of_more_live: "of_more f \<Longrightarrow> f (s\<lparr>live_blocks := n\<rparr>) = f s"
proof -
  have "posix.more (s\<lparr>live_blocks := n\<rparr>) = posix.more s" by simp
  then show "of_more f \<Longrightarrow> f (s\<lparr>live_blocks := n\<rparr>) = f s" unfolding of_more_def by blast
qed

lemma takes_alloc [take_intros]:
  "of_more f \<Longrightarrow> takes f 0 (malloc n)" "of_more f \<Longrightarrow> takes f 0 (free_block p)"
  by (simp_all add: takes_def malloc_def free_block_def of_more_live split: option.split)

lemma takes_packet4: "of_more f \<Longrightarrow> takes f 4 (assert_read_packet4_len 0)"
  unfolding assert_read_packet4_len_def
  by (intro takes_first takes_read_u32)
    (auto intro!: take_intros intro: takes_less [OF takes_read_fixed] split: option.splits)

lemma write_loop_stops: "write_loop fd left s = Stop h t \<Longrightarrow> h \<noteq> Out_Of_Fuel"
proof (induction fd left s rule: write_loop.induct)
  case (1 fd left s)
  then show ?case
    by (auto simp: write_loop.simps [of fd left s] split: if_splits prod.splits sum.splits)
qed

lemma takes_write [take_intros]:
  fixes f :: "'z posix_scheme \<Rightarrow> 'x"
  assumes "of_more f"
  shows "takes f 0 (assert_write fd buf n)"
proof -
  have "takes f 0 (write_loop fd left)" for left
  proof (rule takesI)
    fix s t :: "'z posix_scheme" and a
    assume "write_loop fd left s = Ok a t"
    then have "all_but_wr t = all_but_wr s" using write_loop_rest [of fd left s] by simp
    then have "rd t = rd s" "posix.more t = posix.more s" using all_but_wr_eq by blast+
    moreover from this(2) have "f t = f s" using assms unfolding of_more_def by blast
    ultimately show "length (pending 0 t) + 0 \<le> length (pending 0 s) \<and> f t = f s" by (simp add: pending_def)
  qed (rule write_loop_stops)
  then show ?thesis unfolding assert_write_def by (auto intro!: take_intros)
qed

lemma takes_port32 [take_intros]: "of_more f \<Longrightarrow> takes f 0 (assert_write_port32 fd buf n)"
  unfolding assert_write_port32_def by (intro take_intros)

section \<open>Loops whose turns use something up\<close>

locale using_loop =
  fixes good :: "'s \<Rightarrow> bool" and left :: "'s \<Rightarrow> nat"
    and turn :: "('s, 'a) cm" and loop :: "nat \<Rightarrow> ('s, 'b) cm"
  assumes unfold: "loop (Suc n) = andthen turn (\<lambda>_. loop n)"
    and goes_on: "good s \<Longrightarrow> turn s = Ok a t \<Longrightarrow> good t \<and> left t < left s"
    and stops: "good s \<Longrightarrow> turn s = Stop h t \<Longrightarrow> h \<noteq> Out_Of_Fuel"
begin

lemma comes_to_end: "good s \<Longrightarrow> left s < n \<Longrightarrow> \<exists>h t. loop n s = Stop h t \<and> h \<noteq> Out_Of_Fuel"
proof (induction n arbitrary: s)
  case (Suc n)
  show ?case
  proof (cases "turn s")
    case (Ok a t)
    with goes_on [OF Suc.prems(1)] Suc.prems(2) have "good t" "left t < n" by fastforce+
    with Suc.IH Ok show ?thesis by (simp add: unfold)
  next
    case (Stop h t)
    with stops [OF Suc.prems(1)] show ?thesis by (simp add: unfold)
  qed
qed simp

end

text \<open>The packets left on stdin bound the turns of the loops that are sent packets.\<close>

definition packets_left :: "'z posix_scheme \<Rightarrow> nat" where
  "packets_left s = length (pending 0 s) div 4"

lemma packets_left_less: "length (pending 0 t) + 4 \<le> length (pending 0 s) \<Longrightarrow> packets_left t < packets_left s"
  by (simp add: packets_left_def)

section \<open>axo_connect.c\<close>

lemma main_step_takes: "takes (\<lambda>_. ()) 4 (main_step lib)"
proof -
  have f: "of_more (\<lambda>_. ())" by (simp add: of_more_def)
  have "takes (\<lambda>_. ()) 0 (to_axo lib mem len)" for mem len
  proof (induction lib mem len rule: to_axo.induct)
    case (1 lib mem len)
    have "takes (\<lambda>_. ()) 0 (transfer_out lib e m l)" for e m l
      by (auto simp: takes_def transfer_out_def pending_def split: prod.splits)
    then show ?case
      using 1 by (subst to_axo.simps) (auto intro!: take_intros)
  qed
  then show ?thesis
    unfolding main_step_def
    by (intro takes_first takes_packet4 f) (auto intro!: take_intros f split: prod.splits)
qed

interpretation axo_turns: using_loop "\<lambda>_. True" packets_left "main_step lib" "\<lambda>n. main_loop n lib" for lib
proof
  show "main_loop (Suc n) lib = andthen (main_step lib) (\<lambda>_. main_loop n lib)" for n by simp
next
  fix s t :: "('a, 'b) axo" and a :: unit
  assume "main_step lib s = Ok a t"
  from takes_Ok [OF main_step_takes this] show "True \<and> packets_left t < packets_left s"
    by (simp add: packets_left_less)
next
  fix s t :: "('a, 'b) axo" and h
  assume "main_step lib s = Stop h t"
  then show "h \<noteq> Out_Of_Fuel" by (rule takes_Stop [OF main_step_takes])
qed

section \<open>ftdi_connect.c\<close>

lemma polls_more: "of_more (polls :: 'f ftdi \<Rightarrow> int list)"
  unfolding of_more_def
proof (intro allI impI)
  fix s t :: "'f ftdi"
  assume "posix.more s = posix.more t"
  then show "polls s = polls t" by (cases s, cases t) simp
qed

lemma ftdi_call_takes [take_intros]: "takes polls 0 (ftdi_call f)"
  by (auto simp: takes_def ftdi_call_def pending_def split: prod.splits)

lemma usleep_takes [take_intros]: "takes polls 0 (usleep n)"
  by (simp add: takes_def usleep_def pending_def)

lemma send_byte_takes [take_intros]: "takes polls 0 (send_byte lib b)"
  unfolding send_byte_def by (intro take_intros)

lemma recv_byte_takes [take_intros]: "takes polls 0 (recv_byte lib)"
  by (auto simp: takes_def recv_byte_def recv_turn_def andthen_def Let_def pending_def One_nat_def
      split: prod.splits res.splits list.splits if_splits)

lemma send_spi_takes [take_intros]: "takes polls 0 (send_spi lib data n)"
  unfolding send_spi_def statements.simps by (auto intro!: take_intros)

lemma spi_chunks_takes [take_intros]: "takes polls 0 (spi_chunks lib buf n)"
proof (induction n arbitrary: buf rule: less_induct)
  case (less n)
  then show ?case
    by (subst spi_chunks.simps) (auto intro!: take_intros simp: Let_def)
qed

lemma pins_take [take_intros]: "takes polls 0 (set_gpio lib a b)" "takes polls 0 (log_cdone lib)"
  unfolding set_gpio_def log_cdone_def get_cdone_def statements.simps by (intro take_intros)+

lemma send_spi_chunked_takes [take_intros]: "takes polls 0 (send_spi_chunked lib buf len)"
  unfolding send_spi_chunked_def by (intro take_intros)

lemma ack_takes [take_intros]: "takes polls 0 (ack msg sz)"
  unfolding ack_def by (auto intro!: take_intros polls_more split: option.splits)

lemma dispatch_takes: "takes polls 0 (dispatch lib c len)"
  unfolding dispatch_def Let_def transaction_def raw_spi_write_def prog_sram_write_def
    reset_fpga_def dummy_bits_def append.simps statements.simps
  by (auto intro!: take_intros)

lemma command_takes: "takes polls 4 (command lib)"
  unfolding command_def
  by (intro takes_first takes_packet4 polls_more) (auto intro!: take_intros dispatch_takes split: prod.splits)

text \<open>There have to be as many events on stdin as packets; timeouts may come in between.\<close>

definition polled :: "'f ftdi \<Rightarrow> bool" where
  "polled s \<longleftrightarrow> packets_left s < length (filter (\<lambda>rv. rv \<noteq> 0) (polls s))"

interpretation ftdi_turns: using_loop polled "\<lambda>s. length (polls s)" "loop_turn lib" "\<lambda>n. ftdi_loop n lib" for lib
proof
  show "ftdi_loop (Suc n) lib = andthen (loop_turn lib) (\<lambda>_. ftdi_loop n lib)" for n by simp
next
  fix s t :: "'a ftdi" and a :: unit
  assume g: "polled s" and t: "loop_turn lib s = Ok a t"
  then obtain rv more where p: "polls s = rv # more"
    by (cases "polls s") (simp_all add: polled_def)
  show "polled t \<and> length (polls t) < length (polls s)"
  proof (cases "rv = 0")
    case True
    with t p have "polls t = more" "pending 0 t = pending 0 s"
      by (auto simp: loop_turn_def drain_def assert_that_def pending_def split: prod.splits if_splits)
    with g p True show ?thesis by (simp add: polled_def packets_left_def)
  next
    case False
    with t p have "command lib (s\<lparr>polls := more\<rparr>) = Ok a t"
      by (auto simp: loop_turn_def assert_errno_def assert_that_def split: if_splits)
    from takes_Ok [OF command_takes this] have "length (pending 0 t) + 4 \<le> length (pending 0 s)" "polls t = more"
      by (simp_all add: pending_def)
    with packets_left_less [OF this(1)] g p False show ?thesis by (simp add: polled_def)
  qed
next
  fix s t :: "'a ftdi" and h
  assume g: "polled s" and t: "loop_turn lib s = Stop h t"
  then obtain rv more where p: "polls s = rv # more"
    by (cases "polls s") (simp_all add: polled_def)
  show "h \<noteq> Out_Of_Fuel"
  proof (cases "rv = 0")
    case True
    with t p show ?thesis
      by (auto simp: loop_turn_def drain_def assert_errno_def assert_that_def split: prod.splits if_splits)
  next
    case False
    with t p takes_Stop [OF command_takes, of lib "s\<lparr>polls := more\<rparr>" h t] show ?thesis
      by (auto simp: loop_turn_def assert_errno_def assert_that_def split: if_splits)
  qed
qed

section \<open>v4l.c\<close>

definition captured :: "v4l \<Rightarrow> bool" where
  "captured s \<longleftrightarrow> packets_left s < length (captures s)"

lemma captures_more: "of_more (captures :: v4l \<Rightarrow> capture list)"
  unfolding of_more_def
proof (intro allI impI)
  fix s t :: v4l
  assume "posix.more s = posix.more t"
  then show "captures s = captures t" by (cases s, cases t) simp
qed

lemma frame_written: "takes captures 0 (andthen (compress lib) (\<lambda>(jpeg_buf, stats).
    andthen (assert_write_port32 1 jpeg_buf (word_of_nat (length jpeg_buf))) (\<lambda>_.
    assert_write_port32 1 stats (word_of_nat (length stats)))))"
proof -
  have "takes captures 0 (compress lib)" by (simp add: takes_def compress_def pending_def split: option.split)
  then show ?thesis by (intro take_intros) (auto intro!: take_intros captures_more split: prod.splits)
qed

lemma capture_step:
  "capture_frame n s = Ok a t \<Longrightarrow> pending 0 t = pending 0 s \<and> length (captures s) = Suc (length (captures t))"
  "capture_frame n s = Stop h t \<Longrightarrow> captures s \<noteq> [] \<Longrightarrow> h \<noteq> Out_Of_Fuel"
  by (auto simp: capture_frame_def assert_that_def andthen_def pending_def split: list.splits if_splits option.splits)

lemma serve_frame_steps:
  "serve_frame lib n s = Ok a t \<Longrightarrow> length (pending 0 t) + 4 \<le> length (pending 0 s) \<and>
    length (captures s) = Suc (length (captures t))"
  "serve_frame lib n s = Stop h t \<Longrightarrow> captures s \<noteq> [] \<Longrightarrow> h \<noteq> Out_Of_Fuel"
proof -
  let ?rest = "andthen (compress lib) (\<lambda>(jpeg_buf, stats).
    andthen (assert_write_port32 1 jpeg_buf (word_of_nat (length jpeg_buf))) (\<lambda>_.
    assert_write_port32 1 stats (word_of_nat (length stats))))"
  have serve: "serve_frame lib n s = (case assert_read_u32 0 s of
      Ok len u \<Rightarrow> if len = 0 then andthen (capture_frame n) (\<lambda>_. ?rest) u else Stop (Error ''cmd_len == 0'') u
    | Stop h u \<Rightarrow> Stop h u)"
    by (auto simp: serve_frame_def andthen_def assert_that_def split: res.splits)
  {
    assume ok: "serve_frame lib n s = Ok a t"
    with serve obtain len u where u: "assert_read_u32 0 s = Ok len u" "andthen (capture_frame n) (\<lambda>_. ?rest) u = Ok a t"
      by (auto split: res.splits if_splits)
    then obtain b v where v: "capture_frame n u = Ok b v" "?rest v = Ok a t"
      by (cases "capture_frame n u") auto
    from takes_Ok [OF takes_read_u32 [OF captures_more] u(1)] capture_step(1) [OF v(1)] takes_Ok [OF frame_written v(2)]
    show "length (pending 0 t) + 4 \<le> length (pending 0 s) \<and> length (captures s) = Suc (length (captures t))"
      by simp
  next
    assume st: "serve_frame lib n s = Stop h t" and c: "captures s \<noteq> []"
    show "h \<noteq> Out_Of_Fuel"
    proof (cases "assert_read_u32 0 s")
      case (Ok len u)
      then have cu: "captures u \<noteq> []" using takes_Ok [OF takes_read_u32 [OF captures_more]] c by metis
      show ?thesis
      proof (cases "capture_frame n u")
        case (Ok b v)
        with \<open>assert_read_u32 0 s = Ok len u\<close> st serve show ?thesis
          using takes_Stop [OF frame_written] by (auto split: if_splits)
      next
        case (Stop h' v)
        with \<open>assert_read_u32 0 s = Ok len u\<close> st serve capture_step(2) [OF Stop cu] show ?thesis
          by (auto split: if_splits)
      qed
    next
      case (Stop h' u)
      with st serve takes_Stop [OF takes_read_u32 [OF captures_more] Stop] show ?thesis by simp
    qed
  }
qed

interpretation camera_turns: using_loop captured packets_left "serve_frame lib n" "\<lambda>k. stream_loop k lib n" for lib n
proof
  show "stream_loop (Suc k) lib n = andthen (serve_frame lib n) (\<lambda>_. stream_loop k lib n)" for k by simp
next
  fix s t :: v4l and a :: unit
  assume "captured s" "serve_frame lib n s = Ok a t"
  with serve_frame_steps(1) [of lib n s a t] packets_left_less [of t s]
  show "captured t \<and> packets_left t < packets_left s" by (auto simp: captured_def)
next
  fix s t :: v4l and h
  assume "captured s" "serve_frame lib n s = Stop h t"
  moreover from this(1) have "captures s \<noteq> []" by (auto simp: captured_def)
  ultimately show "h \<noteq> Out_Of_Fuel" using serve_frame_steps(2) by blast
qed

section \<open>gpio_poll.c\<close>

text \<open>Some event is one of stdin.\<close>

definition stdin_polled :: "int list \<Rightarrow> gpio \<Rightarrow> bool" where
  "stdin_polled fds s \<longleftrightarrow> (\<exists>e\<in>set (events s). pe_revents e (length fds) AND STDIN_EVENTS \<noteq> 0)"

lemma report_events: "keeps events (for_each (report_pin e fds) is)" "ends (\<lambda>_. True) (for_each (report_pin e fds) is)"
proof -
  have "keeps events (report_pin e fds i)" for i
    by (auto simp: report_pin_def Let_def print_def intro!: keep_intros)
  then show "keeps events (for_each (report_pin e fds) is)" by (intro keep_intros)
  have "ends (\<lambda>_. True) (report_pin e fds i)" for i
    by (auto simp: report_pin_def Let_def print_def preserves_def intro!: end_intros)
  then show "ends (\<lambda>_. True) (for_each (report_pin e fds) is)" by (intro end_intros) (simp_all add: preserves_def)
qed

interpretation gpio_turns: using_loop "stdin_polled fds" "\<lambda>s. length (events s)" "poll_turn fds" "\<lambda>n. poll_loop n fds" for fds
proof
  show "poll_loop (Suc n) fds = andthen (poll_turn fds) (\<lambda>_. poll_loop n fds)" for n by simp
next
  fix s t :: gpio and a :: unit
  assume g: "stdin_polled fds s" and t: "poll_turn fds s = Ok a t"
  then obtain e es where p: "events s = e # es" by (cases "events s") (simp_all add: stdin_polled_def)
  from t p obtain b u where u: "for_each (report_pin e fds) [0..<length fds] (s\<lparr>events := es\<rparr>) = Ok b u"
      "flush_stdout u = Ok a t" "pe_revents e (length fds) AND STDIN_EVENTS = 0"
    by (auto simp: poll_turn_def andthen_def assert_errno_def assert_that_def Let_def split: if_splits res.splits)
  have "events u = es" using keeps_Ok [OF report_events(1) u(1)] by simp
  then have "events t = es" using u(2) by (auto simp: flush_stdout_def)
  with g p u(3) show "stdin_polled fds t \<and> length (events t) < length (events s)" by (auto simp: stdin_polled_def)
next
  fix s t :: gpio and h
  assume g: "stdin_polled fds s" and t: "poll_turn fds s = Stop h t"
  then obtain e es where p: "events s = e # es" by (cases "events s") (simp_all add: stdin_polled_def)
  with t endsD [OF report_events(2)] show "h \<noteq> Out_Of_Fuel"
    by (auto simp: poll_turn_def andthen_def assert_errno_def assert_that_def flush_stdout_def Let_def
        split: if_splits res.splits)
qed

section \<open>Every loop comes to an end\<close>

text \<open>C19: No input keeps a program going for ever. The loops that are sent packets are over after at
  most one turn for every four bytes of stdin, whatever these bytes are and however they arrive, and
  one turn more; so are the loops on poll, given what it reports: for ftdi_connect.c an event for each packet,
  with any number of timeouts in between, for gpio_poll.c one event of stdin; v4l.c gets a frame for
  each request. They stop by an exit, an assertion or undefined behaviour, never for want of turns.\<close>

theorem loops_come_to_end:
  assumes "packets_left ax < n"
    and "packets_left vi < n" and "n \<le> length (captures vi)"
    and "packets_left ft < length (filter (\<lambda>rv. rv \<noteq> 0) (polls ft))" and "length (polls ft) < n"
    and "\<exists>e\<in>set (events gp). pe_revents e (length fds) AND STDIN_EVENTS \<noteq> 0" and "length (events gp) < n"
  shows "(\<exists>h t. main_loop n libusb ax = Stop h t \<and> h \<noteq> Out_Of_Fuel) \<and>
    (\<exists>h t. stream_loop n jpeg req_count vi = Stop h t \<and> h \<noteq> Out_Of_Fuel) \<and>
    (\<exists>h t. ftdi_loop n libftdi ft = Stop h t \<and> h \<noteq> Out_Of_Fuel) \<and>
    (\<exists>h t. poll_loop n fds gp = Stop h t \<and> h \<noteq> Out_Of_Fuel)"
proof (intro conjI)
  show "\<exists>h t. main_loop n libusb ax = Stop h t \<and> h \<noteq> Out_Of_Fuel"
    by (rule axo_turns.comes_to_end) (use assms(1) in simp_all)
  show "\<exists>h t. stream_loop n jpeg req_count vi = Stop h t \<and> h \<noteq> Out_Of_Fuel"
    by (rule camera_turns.comes_to_end) (use assms(2,3) in \<open>simp_all add: captured_def\<close>)
  show "\<exists>h t. ftdi_loop n libftdi ft = Stop h t \<and> h \<noteq> Out_Of_Fuel"
    by (rule ftdi_turns.comes_to_end) (use assms(4,5) in \<open>simp_all add: polled_def\<close>)
  show "\<exists>h t. poll_loop n fds gp = Stop h t \<and> h \<noteq> Out_Of_Fuel"
    by (rule gpio_turns.comes_to_end) (use assms(6,7) in \<open>simp_all add: stdin_polled_def\<close>)
qed

theorem loops_come_to_end_witness:
  "(\<exists>h t. main_loop 3 toy_usb (toy_axo [Rd_data [0, 0, 0, 9, 1, 2]] []) = Stop h t \<and> h \<noteq> Out_Of_Fuel) \<and>
   (\<exists>h t. stream_loop 3 toy_stats 2 (toy_v4l [Rd_data [0, 0, 0, 0, 7]] (replicate 3 (toy_capture []))) = Stop h t \<and>
      h \<noteq> Out_Of_Fuel) \<and>
   (\<exists>h t. ftdi_loop 3 toy_chip (toy_port [Rd_data [0, 0]] [0, 1]) = Stop h t \<and> h \<noteq> Out_Of_Fuel) \<and>
   (\<exists>h t. poll_loop 3 [5] (toy_gpio [toy_event 2 0, toy_event 0 16]) = Stop h t \<and> h \<noteq> Out_Of_Fuel)"
  by (rule loops_come_to_end) (simp_all add: packets_left_def pending_def STDIN_EVENTS_def toy_axo_def toy_port_def toy_v4l_def toy_gpio_def)

end
