(* ===== verification/Bert_Build.thy ===== *)
theory Bert_Build
  imports Bert_Fold
begin

text \<open>
  A second client of the BERT parser: constructors for every kind of object, which build the
  Erlang value a term stands for. It shows the parser of bert.c at work on all its types
  (numbers, strings and both tuples included, which the client of sqlite3.c does not use), and
  is the reading of a message on which the models of the Erlang ends of the ports rest.
\<close>

section \<open>Erlang values\<close>

text \<open>A list is built of cells; a string is the list of its bytes; small and large numbers,
  atoms and tuples are the same values.\<close>

datatype evalue =
    E_int int
  | E_atom "u8 list"
  | E_binary "u8 list"
  | E_tuple "evalue list"
  | E_nil
  | E_cons evalue evalue

definition E_list :: "evalue list \<Rightarrow> evalue \<Rightarrow> evalue" where
  "E_list vs tail = foldr E_cons vs tail"

definition E_string :: "u8 list \<Rightarrow> evalue" where
  "E_string bs = E_list (map (\<lambda>b. E_int (uint b)) bs) E_nil"

text \<open>The value a term of the external format denotes.\<close>

fun value_of :: "bterm \<Rightarrow> evalue"
  and values_of :: "bterm list \<Rightarrow> evalue list" where
  "value_of T_nil = E_nil"
| "value_of (T_small_int v) = E_int (uint v)"
| "value_of (T_int v) = E_int (sint v)"
| "value_of (T_small_atom bs) = E_atom bs"
| "value_of (T_atom bs) = E_atom bs"
| "value_of (T_binary bs) = E_binary bs"
| "value_of (T_string bs) = E_string bs"
| "value_of (T_small_tuple ts) = E_tuple (values_of ts)"
| "value_of (T_large_tuple ts) = E_tuple (values_of ts)"
| "value_of (T_list ts q) = E_list (values_of ts) (value_of q)"
| "values_of [] = []"
| "values_of (t # ts) = value_of t # values_of ts"

lemma values_of_map [simp]: "values_of ts = map value_of ts"
  by (induction ts) simp_all

section \<open>The building client\<close>

text \<open>Its state is what is left of the message. A constructor looks at the bytes the reader
  points at, wind moves behind them; both stop where the message ends.\<close>

definition b_pop :: "(u8 list, u8) cm" where
  "b_pop bs = (case bs of [] \<Rightarrow> Stop (Error ''truncated'') bs | b # q \<Rightarrow> Ok b q)"

definition b_wind :: "u32 \<Rightarrow> (u8 list, unit) cm" where
  "b_wind n bs = (if length bs < unat n then Stop (Error ''truncated'') bs
     else Ok () (drop (unat n) bs))"

definition b_slice :: "(u8 list \<Rightarrow> evalue) \<Rightarrow> u32 \<Rightarrow> (u8 list, evalue option) cm" where
  "b_slice mk n bs = (if length bs < unat n then Stop (Error ''truncated'') bs
     else Ok (Some (mk (take (unat n) bs))) bs)"

definition b_tuple :: "u32 \<Rightarrow> evalue option list \<Rightarrow> (u8 list, evalue option) cm" where
  "b_tuple n el = ret (map_option E_tuple (those el))"

definition b_list :: "evalue option \<Rightarrow> evalue option \<Rightarrow> (u8 list, evalue option) cm" where
  "b_list tup tail = ret (case (tup, tail) of
     (Some (E_tuple vs), Some q) \<Rightarrow> Some (E_list vs q) | _ \<Rightarrow> None)"

definition b_integer :: "u32 \<Rightarrow> (u8 list, evalue option) cm" where
  "b_integer v = ret (Some (E_int (sint v)))"

definition build_reader :: "(u8 list, evalue) bert_reader" where
  "build_reader = \<lparr>r_pop = b_pop, r_wind = b_wind, r_tuple_cb = Some b_tuple,
     r_list_cb = Some b_list, r_binary_cb = Some (b_slice E_binary),
     r_atom_cb = Some (b_slice E_atom), r_string_cb = Some (b_slice E_string),
     r_integer_cb = Some b_integer, r_nil = Some E_nil, r_error = (\<lambda>msg bs. (Error msg, bs))\<rparr>"

text \<open>The fold it follows has no state of its own.\<close>

definition build :: "(unit, evalue) bert_fold" where
  "build = \<lparr>f_tuple = (\<lambda>n el. ret (map_option E_tuple (those el))),
     f_list = (\<lambda>tup tail. ret (case (tup, tail) of
       (Some (E_tuple vs), Some q) \<Rightarrow> Some (E_list vs q) | _ \<Rightarrow> None)),
     f_binary = (\<lambda>d. ret (Some (E_binary d))), f_atom = (\<lambda>d. ret (Some (E_atom d))),
     f_string = (\<lambda>d. ret (Some (E_string d))), f_integer = (\<lambda>v. ret (Some (E_int (sint v)))),
     f_nil = Some E_nil\<rparr>"

lemma sint_ucast_u8: "sint (ucast (v :: u8) :: u32) = uint v"
proof -
  have "unat (ucast v :: u32) = unat v"
    by (simp add: unsigned_ucast_eq take_bit_nat_eq_self_iff less_trans [OF unat_u8_less])
  moreover from this have "sint (ucast v :: u32) = int (unat (ucast v :: u32))"
    using less_trans [OF unat_u8_less [of v], of "2 ^ 31"] by (intro sint_u32_small) simp
  ultimately show ?thesis by simp
qed

lemma those_map_SomeI: "those (map (\<lambda>t. Some (f t)) ts) = Some (map f ts)"
  by (induction ts) simp_all

lemma fold_build:
  "fold_term build t u = Ok (Some (value_of t)) ()"
  "fold_terms build ts u = Ok (map (\<lambda>t. Some (value_of t)) ts) ()"
  by (induction t and ts rule: value_of_values_of.induct)
    (simp_all add: build_def sint_ucast_u8 those_map_SomeI)

lemma slice_builds:
  assumes "length d < 2 ^ 32"
  shows "slice_op build_reader (b_slice mk) (word_of_nat (length d)) (d @ q) = Ok (Some (mk d)) q"
  using unat_u32_of_nat [OF assms]
  by (simp add: slice_op_def b_slice_def b_wind_def build_reader_def io_simps)

interpretation build_stream: bert_stream build_reader build "\<lambda>_. ()" "\<lambda>bs. bs" "\<lambda>_. True"
  b_tuple b_list "b_slice E_binary" "b_slice E_atom" "b_slice E_string" b_integer
proof unfold_locales
  fix s d q :: "u8 list"
  assume "s = d @ q" "length d < 2 ^ 32"
  then show "tracks (\<lambda>_. ()) (\<lambda>bs. bs) (\<lambda>_. True) q
      (slice_op build_reader (b_slice E_binary) (word_of_nat (length d)) s) (f_binary build d ())"
    using slice_builds [of d E_binary q] by (simp add: tracks_def build_def)
next
  fix s d q :: "u8 list"
  assume "s = d @ q" "length d < 2 ^ 16"
  then show "tracks (\<lambda>_. ()) (\<lambda>bs. bs) (\<lambda>_. True) q
      (slice_op build_reader (b_slice E_atom) (word_of_nat (length d)) s) (f_atom build d ())"
    using slice_builds [of d E_atom q] by (simp add: tracks_def build_def)
next
  fix s d q :: "u8 list"
  assume "s = d @ q" "length d < 2 ^ 16"
  then show "tracks (\<lambda>_. ()) (\<lambda>bs. bs) (\<lambda>_. True) q
      (slice_op build_reader (b_slice E_string) (word_of_nat (length d)) s) (f_string build d ())"
    using slice_builds [of d E_string q] by (simp add: tracks_def build_def)
qed (auto simp: build_reader_def build_def b_pop_def b_tuple_def b_list_def b_integer_def tracks_def)

section \<open>Messages\<close>

text \<open>A message as a value: what \<open>bert_decode\<close> builds from it when it is one term, version byte
  included. The length of the message is enough as recursion depth.\<close>

definition read_term :: "u8 list \<Rightarrow> evalue option" where
  "read_term msg = (case bert_decode (length msg) build_reader msg of
     Ok (Some v) [] \<Rightarrow> Some v | _ \<Rightarrow> None)"

lemma depth_encode:
  "depth t \<le> length (encode t)" "max_depth ts \<le> length (encode_all ts)"
  by (induction t and ts rule: depth_max_depth.induct) (auto simp: le_max_iff_disj)

lemma build_full: "default_callbacks build_reader = build_reader"
  by (simp add: default_callbacks_def build_reader_def or_null_def)

lemma decode_builds:
  assumes "fits t" and "depth t \<le> fuel"
  shows "bert_decode fuel build_reader (BERT_START # encode t @ junk) = Ok (Some (value_of t)) junk"
proof -
  have "tracks (\<lambda>_. ()) (\<lambda>bs. bs) (\<lambda>_. True) junk (r_object fuel build_reader (encode t @ junk))
      (fold_term build t ())"
    using build_stream.object_stream [OF _ _ assms, of "encode t @ junk" junk] by simp
  moreover have "r_pop build_reader (BERT_START # q) = Ok BERT_START q" for q
    by (simp add: build_reader_def b_pop_def)
  ultimately show ?thesis
    by (auto simp: bert_decode_def build_full Let_def fold_build tracks_def split: res.splits)
qed

lemma read_term_encode: "fits t \<Longrightarrow> read_term (BERT_START # encode t) = Some (value_of t)"
  using decode_builds [of t "Suc (length (encode t))" "[]"] depth_encode(1) [of t]
  by (simp add: read_term_def)

section \<open>Properties\<close>

text \<open>C35: The parser of bert.c is a complete decoder: with constructors that build the term, from
  the encoding of any term, whatever follows it, it builds exactly the Erlang value the term
  denotes and stops behind it. Small and large integers, strings, atoms with either length,
  tuples with either size and improper lists are all covered.\<close>

theorem bert_decode_builds:
  assumes "fits t" and "depth t \<le> fuel"
  shows "bert_decode fuel build_reader (BERT_START # encode t @ junk) = Ok (Some (value_of t)) junk"
  by (rule decode_builds [OF assms])

theorem bert_decode_builds_witness:
  "bert_decode 3 build_reader ([131, 104, 2, 97, 7, 107, 0, 2, 104, 105] @ [9]) =
     Ok (Some (E_tuple [E_int 7, E_cons (E_int 104) (E_cons (E_int 105) E_nil)])) [9]"
  using bert_decode_builds [of "T_small_tuple [T_small_int 7, T_string [104, 105]]" 3 "[9]"]
  by (simp add: be_bytes_2 bert_tags E_string_def E_list_def)

end
