(* ===== verification/Erl_Port.thy ===== *)
theory Erl_Port
  imports Bert_Build Port
begin

text \<open>
  The Erlang side of a port: how open_port cuts the output of a program into messages under
  {packet,4}, and the sinks of src/sink.erl, through which the modules of this repository pass
  the messages on. A message to the port is one \<open>frame\<close>, the header added by the runtime.
\<close>

section \<open>Messages from a {packet,4} port\<close>

text \<open>The complete messages of a byte stream, and the bytes of the incomplete one.\<close>

function cut_packets :: "u8 list \<Rightarrow> u8 list list \<times> u8 list" where
  "cut_packets bs =
     (if length bs < 4 then ([], bs)
      else let n = be_value (take 4 bs) in
        if length bs < 4 + n then ([], bs)
        else case cut_packets (drop (4 + n) bs) of (ps, r) \<Rightarrow> (take n (drop 4 bs) # ps, r))"
  by pat_completeness auto
termination by (relation "measure length") auto

declare cut_packets.simps [simp del]

lemma cut_packets_short: "length bs < 4 \<Longrightarrow> cut_packets bs = ([], bs)"
  by (simp add: cut_packets.simps)

lemma cut_packets_frame:
  assumes "length p < 2 ^ 32"
  shows "cut_packets (frame p @ bs) = (case cut_packets bs of (ps, r) \<Rightarrow> (p # ps, r))"
  using assms by (subst cut_packets.simps) (simp add: frame_def be_value_be_bytes)

lemma cut_packets_frames:
  "\<forall>p \<in> set ps. length p < 2 ^ 32 \<Longrightarrow>
    cut_packets (concat (map frame ps) @ bs) = (case cut_packets bs of (qs, r) \<Rightarrow> (ps @ qs, r))"
  by (induction ps) (simp_all add: cut_packets_frame split: prod.splits)

section \<open>A program at the other end\<close>

text \<open>A message on its way to the program's standard input, and the messages cut from what the
  program has written between two of its states.\<close>

definition deliver :: "u8 list \<Rightarrow> 'z posix_scheme \<Rightarrow> 'z posix_scheme" where
  "deliver bin s = s\<lparr>rd := (rd s)(0 := rd s 0 @ [Rd_data (frame bin)])\<rparr>"

definition arrived :: "'z posix_scheme \<Rightarrow> 'z posix_scheme \<Rightarrow> u8 list list" where
  "arrived s t = fst (cut_packets (drop (length (out s 1)) (out t 1)))"

lemma script_append [simp]:
  "script_ok (q @ q') \<longleftrightarrow> script_ok q \<and> script_ok q'"
  "script_bytes (q @ q') = script_bytes q @ script_bytes q'"
  by (induction q rule: script_ok.induct) auto

lemma deliver_simps [simp]:
  "readable 0 (deliver bin s) = readable 0 s" "pending 0 (deliver bin s) = pending 0 s @ frame bin"
  "writable fd (deliver bin s) = writable fd s" "out (deliver bin s) = out s"
  "malloc_max (deliver bin s) = malloc_max s" "live_blocks (deliver bin s) = live_blocks s"
  "posix.more (deliver bin s) = posix.more s"
  by (simp_all add: deliver_def readable_def pending_def writable_def frame_def be_bytes_4)

lemma arrived_frames:
  assumes "out t 1 = out s 1 @ concat (map frame ps)" and "\<forall>p \<in> set ps. length p < 2 ^ 32"
  shows "arrived s t = ps"
  using cut_packets_frames [OF assms(2), of "[]"] by (simp add: arrived_def assms(1) cut_packets_short)

text \<open>The contract of a server at the other end: waiting in an abstract state d it takes a turn for
  a message it has an answer to, writes the messages of the answer and waits again.\<close>

locale packet_server =
  fixes turn :: "'z posix_scheme \<Rightarrow> 'z posix_scheme option"
    and ready :: "'d \<Rightarrow> 'z posix_scheme \<Rightarrow> bool"
    and replies :: "'d \<Rightarrow> u8 list \<Rightarrow> u8 list list \<Rightarrow> 'd \<Rightarrow> bool"
  assumes turn_replies: "ready d s \<Longrightarrow> replies d bin ms d' \<Longrightarrow>
      \<exists>t. turn (deliver bin s) = Some t \<and> out t 1 = out s 1 @ concat (map frame ms) \<and> ready d' t"
    and replies_small: "replies d bin ms d' \<Longrightarrow> m \<in> set ms \<Longrightarrow> length m < 2 ^ 32"
begin

text \<open>What arrives is then the answer, message by message.\<close>

lemma exchange:
  assumes "ready d s" and "replies d bin ms d'"
  obtains t where "turn (deliver bin s) = Some t" "arrived s t = ms" "ready d' t"
proof -
  obtain t where t: "turn (deliver bin s) = Some t" "out t 1 = out s 1 @ concat (map frame ms)" "ready d' t"
    using turn_replies [OF assms] by blast
  then have "arrived s t = ms" using replies_small [OF assms(2)] by (intro arrived_frames) auto
  with t that show thesis by blast
qed

end

section \<open>Sinks\<close>

text \<open>A generator calls its sink with data and, at its end, eof. \<open>gen_to_list\<close> runs a process that
  gathers them: the result is there once eof is.\<close>

datatype 'a sink_msg = Data 'a | Eof

fun gather :: "'a list \<Rightarrow> 'a sink_msg list \<Rightarrow> 'a list option" where
  "gather stack [] = None"
| "gather stack (Eof # ms) = Some (rev stack)"
| "gather stack (Data d # ms) = gather (d # stack) ms"

definition gen_to_list :: "'a sink_msg list \<Rightarrow> 'a list option" where
  "gen_to_list ms = gather [] ms"

lemma gather_data: "gather stack (map Data ds @ Eof # ms) = Some (rev stack @ ds)"
  by (induction ds arbitrary: stack) simp_all

lemma gen_to_list_data: "gen_to_list (map Data ds @ Eof # ms) = Some ds"
  by (simp add: gen_to_list_def gather_data)

end
