(* ===== verification/Erl_Types.thy ===== *)
theory Erl_Types
  imports Erl_Port C_Stdlib
begin

text \<open>
  Typed values as binaries, src/type_base.erl: an encoder and a decoder for each type, the types
  themselves being Erlang terms. The printing of terms (\<open>~p\<close>) and their parsing
  (\<open>erl_scan\<close>, \<open>erl_parse\<close>) belong to the runtime and are an argument, the record
  \<open>erl_syntax\<close>; so are the types on floating point numbers, on dates and on the external format,
  as the types a user's module adds. An atom here is the UTF-8 of its name.
\<close>

section \<open>Results of Erlang functions\<close>

text \<open>A value, or an exception of class throw or error.\<close>

datatype 'a erl = Value 'a | Throw evalue | Raise evalue

definition erl_then :: "'a erl \<Rightarrow> ('a \<Rightarrow> 'b erl) \<Rightarrow> 'b erl" where
  "erl_then r f = (case r of Value a \<Rightarrow> f a | Throw e \<Rightarrow> Throw e | Raise e \<Rightarrow> Raise e)"

lemma erl_then_simps [simp]:
  "erl_then (Value a) f = f a" "erl_then (Throw e) f = Throw e" "erl_then (Raise e) f = Raise e"
  by (simp_all add: erl_then_def)

lemma erl_then_Value:
  "erl_then r f = Value b \<longleftrightarrow> (\<exists>a. r = Value a \<and> f a = Value b)"
  by (cases r) simp_all

text \<open>A call for each element, in order, up to the first exception.\<close>

fun erl_map :: "('a \<Rightarrow> 'b erl) \<Rightarrow> 'a list \<Rightarrow> 'b list erl" where
  "erl_map f [] = Value []"
| "erl_map f (x # xs) = erl_then (f x) (\<lambda>y. erl_then (erl_map f xs) (\<lambda>ys. Value (y # ys)))"

lemma erl_map_Value: "erl_map f xs = Value ys \<longleftrightarrow> list_all2 (\<lambda>x y. f x = Value y) xs ys"
proof (induction xs arbitrary: ys)
  case (Cons x xs)
  then show ?case by (cases ys) (auto simp: erl_then_Value)
qed auto

abbreviation e_atom :: "string \<Rightarrow> evalue" where "e_atom a \<equiv> E_atom (bytes_of a)"

text \<open>The errors of a match and of a call that no clause is for.\<close>

definition badmatch :: "'a erl" where "badmatch = Raise (e_atom ''badmatch'')"

definition no_clause :: "'a erl" where "no_clause = Raise (e_atom ''function_clause'')"

section \<open>Calls with a state behind them\<close>

text \<open>None is a call that waits for ever.\<close>

type_synonym ('s, 'a) act = "'s \<Rightarrow> ('a erl \<times> 's) option"

definition act_of :: "'a erl \<Rightarrow> ('s, 'a) act" where
  "act_of r s = Some (r, s)"

definition act_then :: "('s, 'a) act \<Rightarrow> ('a \<Rightarrow> ('s, 'b) act) \<Rightarrow> ('s, 'b) act" where
  "act_then m f s =
     (case m s of
        None \<Rightarrow> None
      | Some (Value a, s') \<Rightarrow> f a s'
      | Some (Throw e, s') \<Rightarrow> Some (Throw e, s')
      | Some (Raise e, s') \<Rightarrow> Some (Raise e, s'))"

lemma act_of_apply [simp]: "act_of r s = Some (r, s)"
  by (simp add: act_of_def)

lemma act_then_simps [simp]:
  "m s = Some (Value a, s') \<Longrightarrow> act_then m f s = f a s'"
  "m s = Some (Throw e, s') \<Longrightarrow> act_then m f s = Some (Throw e, s')"
  "m s = Some (Raise e, s') \<Longrightarrow> act_then m f s = Some (Raise e, s')"
  "m s = None \<Longrightarrow> act_then m f s = None"
  by (simp_all add: act_then_def)

section \<open>Terms and text\<close>

record erl_syntax =
  pp :: "evalue \<Rightarrow> u8 list"
  parse_term :: "u8 list \<Rightarrow> evalue option"

text \<open>What \<open>~p\<close> does with integers and booleans.\<close>

definition prints_plain :: "erl_syntax \<Rightarrow> bool" where
  "prints_plain syn \<longleftrightarrow> (\<forall>v. pp syn (E_int v) = int_bytes v) \<and>
     (\<forall>b \<in> {bytes_of ''true'', bytes_of ''false''}. pp syn (E_atom b) = b)"

text \<open>An iolist as a binary.\<close>

fun iolist_to_binary :: "evalue \<Rightarrow> u8 list option" where
  "iolist_to_binary (E_binary bs) = Some bs"
| "iolist_to_binary E_nil = Some []"
| "iolist_to_binary (E_cons x xs) =
     (case (case x of
              E_int v \<Rightarrow> if 0 \<le> v \<and> v < 256 then Some [word_of_int v] else None
            | _ \<Rightarrow> iolist_to_binary x, iolist_to_binary xs) of
        (Some a, Some b) \<Rightarrow> Some (a @ b)
      | _ \<Rightarrow> None)"
| "iolist_to_binary _ = None"

text \<open>\<open>binary_to_integer\<close>: a sign or none, and digits only.\<close>

definition all_digits :: "u8 list \<Rightarrow> int option" where
  "all_digits bs =
     (if bs \<noteq> [] \<and> list_all is_digit bs then Some (int (digits_value 0 bs)) else None)"

definition binary_to_integer :: "u8 list \<Rightarrow> int option" where
  "binary_to_integer bs =
     (case bs of
        [] \<Rightarrow> None
      | b # ds \<Rightarrow>
          if b = 45 then map_option uminus (all_digits ds)
          else if b = 43 then all_digits ds
          else all_digits bs)"

lemma binary_to_integer_int_bytes [simp]: "binary_to_integer (int_bytes v) = Some v"
proof (cases "v < 0")
  case True
  then show ?thesis
    using dec_bytes_read_back [of "nat (- v)"]
    by (simp add: int_bytes_def binary_to_integer_def all_digits_def list_all_iff)
next
  case False
  obtain b ds where b: "dec_bytes (nat v) = b # ds"
    using dec_bytes_read_back [of "nat v"] by (cases "dec_bytes (nat v)") auto
  then have "is_digit b" using dec_bytes_read_back [of "nat v"] by auto
  have "all_digits (b # ds) = Some v"
    using False dec_bytes_read_back [of "nat v"]
    by (simp add: b [symmetric] all_digits_def list_all_iff)
  with \<open>is_digit b\<close> show ?thesis
    using False b digit_not_sign [of b] by (simp add: int_bytes_def binary_to_integer_def)
qed

text \<open>The number of characters of a UTF-8 text; \<open>binary_to_atom\<close> takes up to 255.\<close>

definition utf8_tail :: "u8 \<Rightarrow> bool" where
  "utf8_tail b \<longleftrightarrow> 0x80 \<le> b \<and> b \<le> 0xBF"

fun utf8_chars :: "u8 list \<Rightarrow> nat option" where
  "utf8_chars [] = Some 0"
| "utf8_chars (b # bs) =
     (if b < 0x80 then map_option Suc (utf8_chars bs)
      else case bs of
        [] \<Rightarrow> None
      | c # cs \<Rightarrow>
          if 0xC2 \<le> b \<and> b \<le> 0xDF \<and> utf8_tail c then map_option Suc (utf8_chars cs)
          else case cs of
            [] \<Rightarrow> None
          | d # ds \<Rightarrow>
              if 0xE0 \<le> b \<and> b \<le> 0xEF \<and> utf8_tail c \<and> utf8_tail d \<and> (b = 0xE0 \<longrightarrow> 0xA0 \<le> c) \<and>
                (b = 0xED \<longrightarrow> c < 0xA0)
              then map_option Suc (utf8_chars ds)
              else case ds of
                [] \<Rightarrow> None
              | e # es \<Rightarrow>
                  if 0xF0 \<le> b \<and> b \<le> 0xF4 \<and> utf8_tail c \<and> utf8_tail d \<and> utf8_tail e \<and>
                    (b = 0xF0 \<longrightarrow> 0x90 \<le> c) \<and> (b = 0xF4 \<longrightarrow> c < 0x90)
                  then map_option Suc (utf8_chars es)
                  else None)"

definition binary_to_atom :: "u8 list \<Rightarrow> evalue option" where
  "binary_to_atom bs =
     (case utf8_chars bs of None \<Rightarrow> None | Some n \<Rightarrow> if n \<le> 255 then Some (E_atom bs) else None)"

text \<open>\<open>re:split\<close> on a pattern of one character.\<close>

fun split_on :: "u8 \<Rightarrow> u8 list \<Rightarrow> u8 list list" where
  "split_on c [] = [[]]"
| "split_on c (b # bs) =
     (if b = c then [] # split_on c bs
      else case split_on c bs of [] \<Rightarrow> [[b]] | x # xs \<Rightarrow> (b # x) # xs)"

lemma split_on_last: "c \<notin> set xs \<Longrightarrow> split_on c xs = [xs]"
  by (induction xs) auto

lemma split_on_append: "c \<notin> set xs \<Longrightarrow> split_on c (xs @ c # ys) = xs # split_on c ys"
  by (induction xs) auto

text \<open>\<open>proplists:get_value\<close>.\<close>

fun get_value :: "evalue \<Rightarrow> evalue \<Rightarrow> evalue erl" where
  "get_value k E_nil = Value (e_atom ''undefined'')"
| "get_value k (E_cons p ps) =
     (case p of
        E_atom a \<Rightarrow> if p = k then Value (e_atom ''true'') else get_value k ps
      | E_tuple (x # r) \<Rightarrow>
          if x = k then Value (case r of [v] \<Rightarrow> v | _ \<Rightarrow> e_atom ''undefined'') else get_value k ps
      | _ \<Rightarrow> get_value k ps)"
| "get_value k _ = Raise (e_atom ''function_clause'')"

definition pair_term :: "evalue \<times> evalue \<Rightarrow> evalue" where
  "pair_term = (\<lambda>(a, b). E_tuple [a, b])"

definition pair_list :: "(evalue \<times> evalue) list \<Rightarrow> evalue" where
  "pair_list ps = E_list (map pair_term ps) E_nil"

lemma pair_list_simps [simp]:
  "pair_list [] = E_nil" "pair_list (p # ps) = E_cons (pair_term p) (pair_list ps)"
  by (simp_all add: pair_list_def E_list_def)

lemma get_value_pair:
  "get_value k (E_cons (pair_term p) ps) = (if fst p = k then Value (snd p) else get_value k ps)"
  by (cases p) (simp add: pair_term_def)

lemma get_value_pairs:
  "get_value k (pair_list ps) = Value (case map_of ps k of None \<Rightarrow> e_atom ''undefined'' | Some v \<Rightarrow> v)"
  by (induction ps) (simp_all add: get_value_pair del: get_value.simps(2))

text \<open>The generator \<open>{A,B} <- List\<close> of a comprehension.\<close>

fun pairs_of :: "evalue \<Rightarrow> (evalue \<times> evalue) list erl" where
  "pairs_of E_nil = Value []"
| "pairs_of (E_cons x xs) = erl_then (pairs_of xs) (\<lambda>ps.
     Value (case x of E_tuple [a, b] \<Rightarrow> (a, b) # ps | _ \<Rightarrow> ps))"
| "pairs_of _ = Raise (e_atom ''bad_generator'')"

lemma pairs_of_list [simp]: "pairs_of (pair_list ps) = Value ps"
  by (induction ps) (auto simp: pair_term_def)

section \<open>Encoders and decoders\<close>

type_synonym type_encoder = "evalue \<Rightarrow> evalue erl"

type_synonym type_decoder = "u8 list \<Rightarrow> evalue erl"

datatype type_impl = Finite evalue | Codec type_encoder type_decoder

datatype type_name = Named evalue | Impl evalue type_impl

definition type_stop :: "evalue \<Rightarrow> evalue \<Rightarrow> u8 list \<Rightarrow> 'a erl" where
  "type_stop T v msg = Throw (E_tuple [e_atom ''type'', E_tuple [T, v, E_binary msg]])"

definition enc_id :: type_encoder where "enc_id v = Value v"

definition dec_id :: type_decoder where "dec_id bin = Value (E_binary bin)"

definition fb_p :: "erl_syntax \<Rightarrow> type_encoder" where
  "fb_p syn v = Value (E_binary (pp syn v))"

definition enc_atom :: type_encoder where
  "enc_atom v = (case v of E_atom a \<Rightarrow> Value (E_binary a) | _ \<Rightarrow> Raise (e_atom ''function_clause''))"

definition dec_atom :: type_decoder where
  "dec_atom bin =
     (case binary_to_atom bin of
        Some a \<Rightarrow> Value a
      | None \<Rightarrow> type_stop (e_atom ''atom'') (E_binary bin) (bytes_of ''Bad Atom''))"

definition dec_int :: type_decoder where
  "dec_int bin =
     (case binary_to_integer bin of
        Some v \<Rightarrow> Value (E_int v)
      | None \<Rightarrow> type_stop (e_atom ''int'') (E_binary bin) (bytes_of ''Bad Integer''))"

definition dec_pterm :: "erl_syntax \<Rightarrow> type_decoder" where
  "dec_pterm syn bin =
     (case parse_term syn (bin @ bytes_of ''.'') of
        Some t \<Rightarrow> Value t
      | None \<Rightarrow> type_stop (e_atom ''pterm'') (E_binary bin) (bytes_of ''Syntax Error''))"

text \<open>The encoder of terms looks whether it can be undone.\<close>

definition enc_pterm :: "erl_syntax \<Rightarrow> type_encoder" where
  "enc_pterm syn t =
     (let bin = pp syn t in
      if dec_pterm syn bin = Value t then Value (E_binary bin)
      else type_stop (e_atom ''pterm'') t (bytes_of (''Can'' @ [CHR 39] @ ''t represent'')))"

definition dec_boolean :: type_decoder where
  "dec_boolean bin = erl_then (dec_atom bin) (\<lambda>a.
     if a = e_atom ''true'' \<or> a = e_atom ''false'' then Value a
     else type_stop (e_atom ''boolean'') (E_binary bin) (bytes_of ''Bad boolean''))"

text \<open>Integers compare with any term: numbers come before all others.\<close>

fun int_ge :: "int \<Rightarrow> evalue \<Rightarrow> bool" where
  "int_ge v (E_int m) = (m \<le> v)"
| "int_ge v _ = False"

fun int_le :: "int \<Rightarrow> evalue \<Rightarrow> bool" where
  "int_le v (E_int m) = (v \<le> m)"
| "int_le v _ = True"

definition int_type :: "evalue \<Rightarrow> evalue \<Rightarrow> evalue" where
  "int_type mn mx = E_tuple [e_atom ''int'', mn, mx]"

definition dec_range :: "erl_syntax \<Rightarrow> evalue \<Rightarrow> evalue \<Rightarrow> type_decoder" where
  "dec_range syn mn mx bin = erl_then (dec_int bin) (\<lambda>i.
     case i of
       E_int v \<Rightarrow>
         if int_ge v mn \<and> int_le v mx then Value i
         else type_stop (int_type mn mx) i
           (bytes_of ''Outside of range: ['' @ pp syn mn @ bytes_of '','' @ pp syn mx @ bytes_of '']'')
     | _ \<Rightarrow> Raise (e_atom ''badarg''))"

text \<open>\<open>tools:unhex\<close> and \<open>tools:hex8\<close>: pairs of characters, which \<open>list_to_integer\<close> reads in base 16
  (a sign and a digit is a number, too).\<close>

definition hex_value :: "u8 \<Rightarrow> int option" where
  "hex_value b =
     (if is_digit b then Some (uint b - 48)
      else if 65 \<le> b \<and> b \<le> 70 then Some (uint b - 55)
      else if 97 \<le> b \<and> b \<le> 102 then Some (uint b - 87)
      else None)"

definition hex_pair :: "u8 \<Rightarrow> u8 \<Rightarrow> int option" where
  "hex_pair h l =
     (case hex_value l of
        None \<Rightarrow> None
      | Some y \<Rightarrow>
          if h = 45 then Some (- y) else if h = 43 then Some y
          else map_option (\<lambda>x. 16 * x + y) (hex_value h))"

fun unhex :: "u8 list \<Rightarrow> int list option" where
  "unhex [] = Some []"
| "unhex (h # l # t) =
     (case (hex_pair h l, unhex t) of (Some v, Some vs) \<Rightarrow> Some (v # vs) | _ \<Rightarrow> None)"
| "unhex [h] = None"

definition hex_char :: "nat \<Rightarrow> u8" where
  "hex_char n = word_of_nat (if n < 10 then 48 + n else 55 + n)"

definition hex8 :: "int \<Rightarrow> u8 list" where
  "hex8 v = (let n = nat (v mod 256) in [hex_char (n div 16), hex_char (n mod 16)])"

definition dec_hex :: type_decoder where
  "dec_hex bin =
     (case unhex bin of
        Some [v] \<Rightarrow> Value (E_int v)
      | _ \<Rightarrow> type_stop (e_atom ''hex'') (E_binary bin) (bytes_of ''Bad HEX value''))"

text \<open>MAC and IP addresses.\<close>

fun join_with :: "u8 \<Rightarrow> u8 list list \<Rightarrow> u8 list" where
  "join_with c [] = []"
| "join_with c [x] = x"
| "join_with c (x # y # ys) = x @ c # join_with c (y # ys)"

fun ints_of :: "evalue list \<Rightarrow> int list option" where
  "ints_of [] = Some []"
| "ints_of (E_int v # vs) = map_option ((#) v) (ints_of vs)"
| "ints_of _ = None"

definition enc_mac :: type_encoder where
  "enc_mac v =
     (case v of
        E_tuple vs \<Rightarrow>
          if length vs = 6 then
            (case ints_of vs of
               Some is \<Rightarrow> Value (E_binary (join_with 58 (map hex8 is)))
             | None \<Rightarrow> Raise (e_atom ''badarith''))
          else Raise (e_atom ''function_clause'')
      | _ \<Rightarrow> Raise (e_atom ''function_clause''))"

definition dec_mac :: type_decoder where
  "dec_mac bin =
     (let parts = split_on 58 bin in
      if length parts = 6 then erl_then (erl_map dec_hex parts) (\<lambda>vs. Value (E_tuple vs))
      else type_stop (e_atom ''mac'') (E_binary bin) (bytes_of ''Bad MAC''))"

definition enc_ip :: "erl_syntax \<Rightarrow> type_encoder" where
  "enc_ip syn v =
     (case v of
        E_tuple vs \<Rightarrow>
          if length vs = 4 then Value (E_binary (join_with 46 (map (pp syn) vs)))
          else Raise (e_atom ''function_clause'')
      | _ \<Rightarrow> Raise (e_atom ''function_clause''))"

definition dec_ip :: "erl_syntax \<Rightarrow> type_decoder" where
  "dec_ip syn bin =
     (let parts = split_on 46 bin in
      if length parts = 4
      then erl_then (erl_map (dec_range syn (E_int 0) (E_int 255)) parts) (\<lambda>vs. Value (E_tuple vs))
      else type_stop (e_atom ''ip'') (E_binary bin) (bytes_of ''Bad IP''))"

definition enc_ip_nm :: "erl_syntax \<Rightarrow> type_encoder" where
  "enc_ip_nm syn v =
     (case v of
        E_tuple [ip, nm] \<Rightarrow> erl_then (enc_ip syn ip) (\<lambda>a.
          case a of
            E_binary bs \<Rightarrow> Value (E_binary (bs @ bytes_of ''/'' @ pp syn nm))
          | _ \<Rightarrow> Raise (e_atom ''badarg''))
      | _ \<Rightarrow> Raise (e_atom ''function_clause''))"

definition dec_ip_nm :: "erl_syntax \<Rightarrow> type_decoder" where
  "dec_ip_nm syn bin =
     (case split_on 47 bin of
        [ip, nm] \<Rightarrow> erl_then (dec_ip syn ip) (\<lambda>i.
          erl_then (dec_range syn (E_int 0) (E_int 24) nm) (\<lambda>n. Value (E_tuple [i, n])))
      | _ \<Rightarrow> type_stop (e_atom ''ip_nm'') (E_binary bin) (bytes_of ''Bad IP/NM pair''))"

section \<open>Types by name\<close>

definition si_prefixes :: "(evalue \<times> evalue) list" where
  "si_prefixes =
     [(E_binary (bytes_of ''n''), E_int (- 3)), (E_binary (bytes_of ''u''), E_int (- 2)),
      (E_binary (bytes_of ''m''), E_int (- 1)), (E_binary [], E_int 0),
      (E_binary (bytes_of ''k''), E_int 1), (E_binary (bytes_of ''M''), E_int 2),
      (E_binary (bytes_of ''G''), E_int 3)]"

text \<open>The types that are not modelled are an argument; a type in neither has no clause.\<close>

type_synonym more_types = "evalue \<Rightarrow> type_impl option"

definition other_type :: "more_types \<Rightarrow> evalue \<Rightarrow> type_impl erl" where
  "other_type others T =
     (case others T of Some i \<Rightarrow> Value i | None \<Rightarrow> Raise (E_tuple [e_atom ''case_clause'', T]))"

definition atom_types :: "erl_syntax \<Rightarrow> (u8 list \<times> type_impl) list" where
  "atom_types syn =
     [(bytes_of ''si_prefix'', Finite (pair_list si_prefixes)),
      (bytes_of ''binary'', Codec enc_id dec_id),
      (bytes_of ''button'', Codec enc_id dec_id),
      (bytes_of ''clickable'', Codec enc_id dec_id),
      (bytes_of ''int'', Codec (fb_p syn) dec_int),
      (bytes_of ''atom'', Codec enc_atom dec_atom),
      (bytes_of ''pterm'', Codec (enc_pterm syn) (dec_pterm syn)),
      (bytes_of ''boolean'', Codec (fb_p syn) dec_boolean),
      (bytes_of ''hex'', Codec (fb_p syn) dec_hex),
      (bytes_of ''mac'', Codec enc_mac dec_mac),
      (bytes_of ''ip'', Codec (enc_ip syn) (dec_ip syn)),
      (bytes_of ''ip_nm'', Codec (enc_ip_nm syn) (dec_ip_nm syn))]"

definition type_spec :: "erl_syntax \<Rightarrow> more_types \<Rightarrow> evalue \<Rightarrow> type_impl erl" where
  "type_spec syn others T =
     (case T of
        E_atom a \<Rightarrow>
          (case map_of (atom_types syn) a of Some i \<Rightarrow> Value i | None \<Rightarrow> other_type others T)
      | E_tuple [E_atom a, al] \<Rightarrow>
          if a = bytes_of ''finite'' then Value (Finite al) else other_type others T
      | E_tuple [E_atom a, mn, mx] \<Rightarrow>
          if a = bytes_of ''int'' then Value (Codec (fb_p syn) (dec_range syn mn mx))
          else other_type others T
      | _ \<Rightarrow> other_type others T)"

text \<open>\<open>convert_finite\<close>: the other side of a pair, or the options that there are.\<close>

definition option_text :: "erl_syntax \<Rightarrow> evalue \<Rightarrow> u8 list" where
  "option_text syn v = (case v of E_binary b \<Rightarrow> b | _ \<Rightarrow> pp syn v)"

definition convert_finite :: "erl_syntax \<Rightarrow> evalue \<Rightarrow> evalue \<Rightarrow> evalue \<Rightarrow> evalue erl" where
  "convert_finite syn T pl v = erl_then (get_value v pl) (\<lambda>el.
     if el \<noteq> e_atom ''undefined'' then Value el
     else erl_then (pairs_of pl) (\<lambda>ps.
       let vals = map (\<lambda>(k, _). option_text syn k) ps in
       if vals = [] then Raise (e_atom ''badarg'')
       else type_stop T v (bytes_of ''Bad '' @ pp syn T @ bytes_of '', options are: '' @
         join_with 44 vals)))"

definition type_encoder_of :: "erl_syntax \<Rightarrow> evalue \<Rightarrow> type_impl \<Rightarrow> type_encoder erl" where
  "type_encoder_of syn T i =
     (case i of
        Finite al \<Rightarrow> erl_then (pairs_of al) (\<lambda>ps.
          Value (convert_finite syn T (pair_list (map (\<lambda>(a, b). (b, a)) ps))))
      | Codec e _ \<Rightarrow> Value e)"

definition type_decoder_of :: "erl_syntax \<Rightarrow> evalue \<Rightarrow> type_impl \<Rightarrow> type_decoder" where
  "type_decoder_of syn T i =
     (case i of
        Finite al \<Rightarrow> (\<lambda>bin. convert_finite syn T al (E_binary bin))
      | Codec _ d \<Rightarrow> d)"

definition encoder :: "erl_syntax \<Rightarrow> more_types \<Rightarrow> type_name \<Rightarrow> type_encoder erl" where
  "encoder syn others T =
     (case T of
        Impl t i \<Rightarrow> type_encoder_of syn t i
      | Named t \<Rightarrow> erl_then (type_spec syn others t) (type_encoder_of syn t))"

definition decoder :: "erl_syntax \<Rightarrow> more_types \<Rightarrow> type_name \<Rightarrow> type_decoder erl" where
  "decoder syn others T =
     (case T of
        Impl t i \<Rightarrow> Value (type_decoder_of syn t i)
      | Named t \<Rightarrow> erl_then (type_spec syn others t) (\<lambda>i. Value (type_decoder_of syn t i)))"

definition type_encode :: "erl_syntax \<Rightarrow> more_types \<Rightarrow> type_name \<times> evalue \<Rightarrow> u8 list erl" where
  "type_encode syn others = (\<lambda>(T, v).
     erl_then (encoder syn others T) (\<lambda>enc. erl_then (enc v) (\<lambda>io.
       case iolist_to_binary io of Some b \<Rightarrow> Value b | None \<Rightarrow> Raise (e_atom ''badarg''))))"

definition type_decode :: "erl_syntax \<Rightarrow> more_types \<Rightarrow> type_name \<times> u8 list \<Rightarrow> evalue erl" where
  "type_decode syn others = (\<lambda>(T, bin). erl_then (decoder syn others T) (\<lambda>dec. dec bin))"

text \<open>\<open>decode_try\<close>: ok or error; other exceptions go through.\<close>

definition decode_try ::
    "erl_syntax \<Rightarrow> more_types \<Rightarrow> type_name \<times> u8 list \<Rightarrow> (evalue + evalue) erl" where
  "decode_try syn others arg =
     (case type_decode syn others arg of
        Value v \<Rightarrow> Value (Inr v)
      | Raise e \<Rightarrow>
          (case e of
             E_tuple [E_atom a, T] \<Rightarrow>
               if a = bytes_of ''case_clause''
               then Value (Inl (E_tuple [E_tuple [e_atom ''bad_type'', T],
                 E_binary (bytes_of ''bad type: '' @ pp syn T)]))
               else Raise e
           | _ \<Rightarrow> Raise e)
      | Throw e \<Rightarrow>
          (case e of
             E_tuple [E_atom a, info] \<Rightarrow>
               if a = bytes_of ''type'' then Value (Inl info) else Throw e
           | _ \<Rightarrow> Throw e))"

text \<open>\<open>valid\<close> compares what \<open>decode\<close> returns with a pair.\<close>

definition type_valid :: "erl_syntax \<Rightarrow> more_types \<Rightarrow> type_name \<times> evalue \<Rightarrow> bool erl" where
  "type_valid syn others = (\<lambda>(T, v).
     erl_then (type_encode syn others (T, v)) (\<lambda>bin.
     erl_then (type_decode syn others (T, bin)) (\<lambda>w.
       Value (E_tuple [e_atom ''ok'', v] = w))))"

text \<open>\<open>format_error\<close>: \<open>~s\<close> takes atoms and iolists.\<close>

definition string_format :: "evalue \<Rightarrow> u8 list erl" where
  "string_format v =
     (case v of
        E_atom a \<Rightarrow> Value a
      | _ \<Rightarrow> (case iolist_to_binary v of Some b \<Rightarrow> Value b | None \<Rightarrow> Raise (e_atom ''badarg'')))"

definition format_error :: "erl_syntax \<Rightarrow> evalue \<Rightarrow> u8 list erl" where
  "format_error syn err =
     (case err of
        E_tuple [E_atom a, E_tuple [_, inp, msg]] \<Rightarrow>
          if a = bytes_of ''type''
          then erl_then (string_format msg) (\<lambda>m. erl_then (string_format inp) (\<lambda>i.
            Value (m @ bytes_of '' in '' @ [39] @ i @ [39])))
          else Value (pp syn err)
      | _ \<Rightarrow> Value (pp syn err))"

section \<open>Stepping through the values of a finite type\<close>

datatype direction = Next_value | Prev_value

fun next_el :: "evalue \<Rightarrow> evalue list \<Rightarrow> evalue" where
  "next_el key [] = key"
| "next_el key [x] = key"
| "next_el key (x # y # l) = (if x = key then y else next_el key (y # l))"

definition next_finite :: "(evalue \<times> evalue) list \<Rightarrow> evalue \<Rightarrow> direction \<Rightarrow> bool \<Rightarrow> evalue" where
  "next_finite name2val current dir twice =
     (let vals0 = map snd name2val;
          vals = (case dir of Next_value \<Rightarrow> vals0 | Prev_value \<Rightarrow> rev vals0) in
      next_el current (if twice then vals @ vals else vals))"

definition rotate_finite :: "direction \<Rightarrow> (evalue \<times> evalue) list \<Rightarrow> evalue \<Rightarrow> evalue" where
  "rotate_finite dir name2val v = next_finite name2val v dir True"

definition skip_finite :: "direction \<Rightarrow> (evalue \<times> evalue) list \<Rightarrow> evalue \<Rightarrow> evalue" where
  "skip_finite dir name2val v = next_finite name2val v dir False"

lemma next_el_at: "v \<notin> set xs \<Longrightarrow> next_el v (xs @ v # y # ys) = y"
proof (induction xs)
  case (Cons x xs)
  then show ?case by (cases xs) auto
qed simp

lemma next_el_end: "v \<notin> set xs \<Longrightarrow> next_el v (xs @ [v]) = v"
proof (induction xs)
  case (Cons x xs)
  then show ?case by (cases xs) auto
qed simp

text \<open>One step on and one step back is no step, in both directions, at the ends of the list too.\<close>

lemma next_el_rotates:
  assumes "distinct (xs @ v # ys)"
  shows "next_el v ((xs @ v # ys) @ (xs @ v # ys)) = hd (ys @ xs @ [v])"
proof (cases "ys @ xs")
  case Nil
  then show ?thesis by simp
next
  case (Cons w ws)
  then have "(xs @ v # ys) @ (xs @ v # ys) = xs @ v # w # tl (ys @ xs @ v # ys)"
    by (cases ys) auto
  then have "next_el v ((xs @ v # ys) @ (xs @ v # ys)) = w"
    using assms next_el_at [of v xs w "tl (ys @ xs @ v # ys)"] by simp
  moreover have "hd (ys @ xs @ [v]) = w" using Cons by (cases ys) auto
  ultimately show ?thesis by simp
qed

lemma rotate_in_list:
  assumes "distinct vals" and "v \<in> set vals"
  obtains w where "next_el v (vals @ vals) = w" "w \<in> set vals" "next_el w (rev vals @ rev vals) = v"
proof -
  obtain xs ys where vals: "vals = xs @ v # ys" using assms(2) by (meson split_list)
  show thesis
  proof (cases ys)
    case (Cons w zs)
    have "next_el v (vals @ vals) = w"
      using next_el_rotates [of xs v ys] assms(1) by (simp add: vals Cons)
    moreover have "next_el w (rev vals @ rev vals) = v"
      using next_el_rotates [of "rev zs" w "v # rev xs"] assms(1) by (auto simp: vals Cons)
    ultimately show thesis using that by (simp add: vals Cons)
  next
    case Nil
    show thesis
    proof (cases xs)
      case Nil
      then show thesis using that [of v] \<open>ys = []\<close> by (simp add: vals)
    next
      case (Cons w zs)
      have "next_el v (vals @ vals) = w"
        using next_el_rotates [of xs v ys] assms(1) by (simp add: vals Cons \<open>ys = []\<close>)
      moreover have "next_el w (rev vals @ rev vals) = v"
        using next_el_rotates [of "v # rev zs" w "[]"] assms(1) by (auto simp: vals Cons \<open>ys = []\<close>)
      ultimately show thesis using that by (simp add: vals Cons)
    qed
  qed
qed

lemma rotate_back:
  assumes "distinct (map snd ps)" and "v \<in> set (map snd ps)"
  shows "rotate_finite Prev_value ps (rotate_finite Next_value ps v) = v"
    and "rotate_finite Next_value ps (rotate_finite Prev_value ps v) = v"
proof -
  have "distinct (rev (map snd ps))" "v \<in> set (rev (map snd ps))" using assms by simp_all
  then show "rotate_finite Prev_value ps (rotate_finite Next_value ps v) = v"
    "rotate_finite Next_value ps (rotate_finite Prev_value ps v) = v"
    using rotate_in_list [OF assms] rotate_in_list [of "rev (map snd ps)" v]
    by (auto simp: rotate_finite_def next_finite_def Let_def)
qed

text \<open>Without rotation the last value stays where it is.\<close>

lemma skip_stays:
  "distinct (map snd (ps @ [(n, v)])) \<Longrightarrow> skip_finite Next_value (ps @ [(n, v)]) v = v"
  "distinct (map snd ((n, v) # ps)) \<Longrightarrow> skip_finite Prev_value ((n, v) # ps) v = v"
  by (simp_all add: skip_finite_def next_finite_def Let_def next_el_end)

section \<open>Values of a type\<close>

text \<open>The values that belong to a type, as far as its decoder tells.\<close>

definition ints_between :: "int \<Rightarrow> int \<Rightarrow> nat \<Rightarrow> evalue \<Rightarrow> bool" where
  "ints_between mn mx n v =
     (case v of
        E_tuple vs \<Rightarrow>
          (case ints_of vs of
             Some is \<Rightarrow> length is = n \<and> list_all (\<lambda>i. mn \<le> i \<and> i \<le> mx) is
           | None \<Rightarrow> False)
      | _ \<Rightarrow> False)"

text \<open>Of a finite type: names that are binaries and values that can be told apart, but not \<open>undefined\<close>,
  which \<open>convert_finite\<close> takes for a name that is not there.\<close>

definition one_of :: "(evalue \<times> evalue) list \<Rightarrow> evalue \<Rightarrow> bool" where
  "one_of ps v \<longleftrightarrow> distinct (map fst ps) \<and> distinct (map snd ps) \<and> v \<in> set (map snd ps) \<and>
     e_atom ''undefined'' \<notin> set (map snd ps) \<and>
     list_all (\<lambda>(a, _). case a of E_binary _ \<Rightarrow> True | _ \<Rightarrow> False) ps"

fun is_binary :: "evalue \<Rightarrow> bool" where
  "is_binary (E_binary b) = True"
| "is_binary v = False"

fun is_int :: "evalue \<Rightarrow> bool" where
  "is_int (E_int i) = True"
| "is_int v = False"

fun is_si_power :: "evalue \<Rightarrow> bool" where
  "is_si_power (E_int i) = (- 3 \<le> i \<and> i \<le> 3)"
| "is_si_power v = False"

fun is_atom :: "evalue \<Rightarrow> bool" where
  "is_atom (E_atom a) = (binary_to_atom a = Some (E_atom a))"
| "is_atom v = False"

fun is_ip_nm :: "evalue \<Rightarrow> bool" where
  "is_ip_nm (E_tuple [ip, E_int nm]) = (ints_between 0 255 4 ip \<and> 0 \<le> nm \<and> nm \<le> 24)"
| "is_ip_nm v = False"

definition typed_atoms :: "erl_syntax \<Rightarrow> (u8 list \<times> (evalue \<Rightarrow> bool)) list" where
  "typed_atoms syn =
     [(bytes_of ''si_prefix'', is_si_power),
      (bytes_of ''binary'', is_binary), (bytes_of ''button'', is_binary),
      (bytes_of ''clickable'', is_binary),
      (bytes_of ''int'', is_int),
      (bytes_of ''atom'', is_atom),
      (bytes_of ''pterm'', \<lambda>v. dec_pterm syn (pp syn v) = Value v),
      (bytes_of ''boolean'', \<lambda>v. v = e_atom ''true'' \<or> v = e_atom ''false''),
      (bytes_of ''mac'', ints_between 0 255 6),
      (bytes_of ''ip'', ints_between 0 255 4),
      (bytes_of ''ip_nm'', is_ip_nm)]"

fun typed :: "erl_syntax \<Rightarrow> evalue \<Rightarrow> evalue \<Rightarrow> bool" where
  "typed syn (E_atom a) v = (case map_of (typed_atoms syn) a of Some p \<Rightarrow> p v | None \<Rightarrow> False)"
| "typed syn (E_tuple [E_atom a, al]) v =
     (a = bytes_of ''finite'' \<and>
      (case pairs_of al of Value ps \<Rightarrow> al = pair_list ps \<and> one_of ps v | _ \<Rightarrow> False))"
| "typed syn (E_tuple [E_atom a, mn, mx]) v =
     (a = bytes_of ''int'' \<and> (case v of E_int i \<Rightarrow> int_ge i mn \<and> int_le i mx | _ \<Rightarrow> False))"
| "typed syn _ v = False"

text \<open>What an encoder and a decoder should do with a value.\<close>

definition codes :: "type_encoder \<Rightarrow> type_decoder \<Rightarrow> evalue \<Rightarrow> bool" where
  "codes e d v \<longleftrightarrow> (\<exists>b. e v = Value (E_binary b) \<and> d b = Value v)"

lemma codesI [intro?]: "e v = Value (E_binary b) \<Longrightarrow> d b = Value v \<Longrightarrow> codes e d v"
  unfolding codes_def by blast

lemma pp_simps:
  assumes "prints_plain syn"
  shows "pp syn (E_int v) = int_bytes v" "pp syn (e_atom ''true'') = bytes_of ''true''"
    "pp syn (e_atom ''false'') = bytes_of ''false''"
  using assms by (simp_all add: prints_plain_def)

lemma codes_id: "codes enc_id dec_id (E_binary b)"
  by (simp add: codes_def enc_id_def dec_id_def)

lemma dec_int_text [simp]: "dec_int (int_bytes v) = Value (E_int v)"
  by (simp add: dec_int_def)

lemma codes_int: "prints_plain syn \<Longrightarrow> codes (fb_p syn) dec_int (E_int v)"
  by (simp add: codes_def fb_p_def pp_simps)

lemma dec_range_text:
  "int_ge v mn \<Longrightarrow> int_le v mx \<Longrightarrow> dec_range syn mn mx (int_bytes v) = Value (E_int v)"
  by (simp add: dec_range_def)

lemma codes_range:
  "prints_plain syn \<Longrightarrow> int_ge v mn \<Longrightarrow> int_le v mx \<Longrightarrow>
    codes (fb_p syn) (dec_range syn mn mx) (E_int v)"
  by (simp add: codes_def fb_p_def pp_simps dec_range_text)

lemma codes_atom: "binary_to_atom a = Some (E_atom a) \<Longrightarrow> codes enc_atom dec_atom (E_atom a)"
  by (simp add: codes_def enc_atom_def dec_atom_def)

lemma codes_pterm: "dec_pterm syn (pp syn v) = Value v \<Longrightarrow> codes (enc_pterm syn) (dec_pterm syn) v"
  by (simp add: codes_def enc_pterm_def)

lemma boolean_texts:
  "utf8_chars (bytes_of ''true'') = Some 4" "utf8_chars (bytes_of ''false'') = Some 5"
  by (simp_all add: bytes_of_def)

lemma codes_boolean:
  "prints_plain syn \<Longrightarrow> v = e_atom ''true'' \<or> v = e_atom ''false'' \<Longrightarrow>
    codes (fb_p syn) dec_boolean v"
  by (elim disjE)
    (simp_all add: codes_def fb_p_def pp_simps dec_boolean_def dec_atom_def binary_to_atom_def boolean_texts)

lemma split_join:
  "xs \<noteq> [] \<Longrightarrow> \<forall>x \<in> set xs. c \<notin> set x \<Longrightarrow> split_on c (join_with c xs) = xs"
  by (induction c xs rule: join_with.induct) (auto simp: split_on_last split_on_append)

lemma not_in_int_bytes: "\<not> is_digit c \<Longrightarrow> c \<noteq> 45 \<Longrightarrow> c \<notin> set (int_bytes v)"
  using dec_bytes_read_back [of "nat v"] dec_bytes_read_back [of "nat (- v)"]
  by (auto simp: int_bytes_def)

lemma separators [simp]: "\<not> is_digit 46" "\<not> is_digit 47" "\<not> is_digit 58"
  by (simp_all add: is_digit_def word_le_nat_alt)

lemma ints_of_map: "ints_of vs = Some is \<longleftrightarrow> vs = map E_int is"
proof (induction vs arbitrary: "is" rule: ints_of.induct)
  case (2 v vs)
  then show ?case by (cases "is") auto
qed auto

lemma erl_map_ok:
  "\<forall>x \<in> set xs. f (g x) = Value (h x) \<Longrightarrow> erl_map f (map g xs) = Value (map h xs)"
  by (induction xs) simp_all

lemma codes_ip:
  assumes "prints_plain syn" and "ints_between 0 255 4 v"
  shows "codes (enc_ip syn) (dec_ip syn) v"
    and "enc_ip syn v = Value (E_binary b) \<Longrightarrow> 47 \<notin> set b"
proof -
  obtain vs where v: "v = E_tuple (map E_int vs)" "length vs = 4" "\<forall>i \<in> set vs. 0 \<le> i \<and> i \<le> 255"
    using assms(2)
    by (auto simp: ints_between_def ints_of_map list_all_iff split: evalue.splits option.splits)
  let ?b = "join_with 46 (map int_bytes vs)"
  have e: "enc_ip syn v = Value (E_binary ?b)"
    using v(1,2) pp_simps [OF assms(1)] by (simp add: enc_ip_def comp_def)
  have "split_on 46 ?b = map int_bytes vs"
    using v(2) not_in_int_bytes [of 46] by (intro split_join) auto
  moreover have "erl_map (dec_range syn (E_int 0) (E_int 255)) (map int_bytes vs) = Value (map E_int vs)"
    using v(3) by (intro erl_map_ok) (simp add: dec_range_text)
  ultimately have "dec_ip syn ?b = Value v" using v(1,2) by (simp add: dec_ip_def)
  with e show "codes (enc_ip syn) (dec_ip syn) v" by (rule codesI)
  have "set (join_with c xs) \<subseteq> insert c (\<Union> (set ` set xs))" for c and xs :: "u8 list list"
    by (induction c xs rule: join_with.induct) auto
  from this [of 46 "map int_bytes vs"] have "47 \<notin> set ?b"
    using not_in_int_bytes [of 47] by auto
  then show "enc_ip syn v = Value (E_binary b) \<Longrightarrow> 47 \<notin> set b" using e by simp
qed

lemma codes_ip_nm:
  assumes "prints_plain syn" and "ints_between 0 255 4 ip" and "0 \<le> nm" "nm \<le> 24"
  shows "codes (enc_ip_nm syn) (dec_ip_nm syn) (E_tuple [ip, E_int nm])"
proof -
  obtain b where b: "enc_ip syn ip = Value (E_binary b)" "dec_ip syn b = Value ip"
    using codes_ip(1) [OF assms(1,2)] by (auto simp: codes_def)
  have "47 \<notin> set (int_bytes nm)" by (rule not_in_int_bytes) simp_all
  then have s: "split_on 47 (b @ 47 # int_bytes nm) = [b, int_bytes nm]"
    using codes_ip(2) [OF assms(1,2) b(1)] by (simp add: split_on_append split_on_last)
  show ?thesis
  proof
    show "enc_ip_nm syn (E_tuple [ip, E_int nm]) = Value (E_binary (b @ 47 # int_bytes nm))"
      using b(1) pp_simps [OF assms(1)] by (simp add: enc_ip_nm_def bytes_of_def)
    show "dec_ip_nm syn (b @ 47 # int_bytes nm) = Value (E_tuple [ip, E_int nm])"
      using s b(2) assms(3,4) by (simp add: dec_ip_nm_def dec_range_text)
  qed
qed

lemma hex_char_value:
  assumes "n < 16"
  shows "hex_value (hex_char n) = Some (int n)" and "hex_char n \<noteq> 45" "hex_char n \<noteq> 43" "hex_char n \<noteq> 58"
proof -
  have "n \<in> set [0..<16]" using assms by simp
  then have "hex_value (hex_char n) = Some (int n) \<and> hex_char n \<noteq> 45 \<and> hex_char n \<noteq> 43 \<and>
      hex_char n \<noteq> 58"
    unfolding upt_conv_Cons [of 0, simplified]
    by (simp add: upt_rec) (elim disjE; simp add: hex_char_def hex_value_def is_digit_def word_le_nat_alt)
  then show "hex_value (hex_char n) = Some (int n)" "hex_char n \<noteq> 45" "hex_char n \<noteq> 43" "hex_char n \<noteq> 58"
    by blast+
qed

lemma hex8_value:
  assumes "0 \<le> v" and "v \<le> 255"
  shows "dec_hex (hex8 v) = Value (E_int v)" and "58 \<notin> set (hex8 v)"
proof -
  define n where "n = nat v"
  then have n: "v = int n" "n < 256" using assms by simp_all
  have d: "n div 16 < 16" "n mod 16 < 16" using n(2) by auto
  have h: "hex8 v = [hex_char (n div 16), hex_char (n mod 16)]"
    using n by (simp add: hex8_def Let_def nat_mod_distrib)
  have "16 * int (n div 16) + int (n mod 16) = int n" by presburger
  then show "dec_hex (hex8 v) = Value (E_int v)"
    using hex_char_value [OF d(1)] hex_char_value [OF d(2)]
    unfolding h dec_hex_def by (simp add: n(1) hex_pair_def)
  show "58 \<notin> set (hex8 v)"
    using hex_char_value(4) [OF d(1)] hex_char_value(4) [OF d(2)] by (simp add: h)
qed

lemma codes_mac:
  assumes "ints_between 0 255 6 v"
  shows "codes enc_mac dec_mac v"
proof -
  obtain vs where v: "v = E_tuple (map E_int vs)" "length vs = 6" "\<forall>i \<in> set vs. 0 \<le> i \<and> i \<le> 255"
    using assms
    by (auto simp: ints_between_def ints_of_map list_all_iff split: evalue.splits option.splits)
  let ?b = "join_with 58 (map hex8 vs)"
  have "ints_of (map E_int vs) = Some vs" by (simp add: ints_of_map)
  then have e: "enc_mac v = Value (E_binary ?b)" using v(1,2) by (simp add: enc_mac_def)
  have "split_on 58 ?b = map hex8 vs"
    using v(2,3) hex8_value(2) by (intro split_join) auto
  moreover have "erl_map dec_hex (map hex8 vs) = Value (map E_int vs)"
    using v(3) by (intro erl_map_ok) (simp add: hex8_value)
  ultimately have "dec_mac ?b = Value v" using v(1,2) by (simp add: dec_mac_def)
  with e show ?thesis by (rule codesI)
qed

lemma finite_decodes:
  assumes "one_of ps v"
  shows "\<exists>b. convert_finite syn T (pair_list (map (\<lambda>(a, b). (b, a)) ps)) v = Value (E_binary b) \<and>
    convert_finite syn T (pair_list ps) (E_binary b) = Value v"
proof -
  obtain a where a: "(a, v) \<in> set ps" using assms by (auto simp: one_of_def)
  then obtain b where b: "a = E_binary b"
    using assms by (auto simp: one_of_def list_all_iff split: evalue.splits)
  have "map fst (map (\<lambda>(a, b). (b, a)) ps) = map snd ps" by auto
  moreover have "(v, a) \<in> set (map (\<lambda>(a, b). (b, a)) ps)" using a by force
  moreover have "distinct (map snd ps)" using assms by (simp add: one_of_def)
  ultimately have "map_of (map (\<lambda>(a, b). (b, a)) ps) v = Some a" by (metis map_of_is_SomeI)
  moreover have "map_of ps a = Some v"
    using a assms by (intro map_of_is_SomeI) (simp_all add: one_of_def)
  moreover have "v \<noteq> e_atom ''undefined''" using a assms by (force simp: one_of_def)
  ultimately show ?thesis
    by (intro exI [of _ b]) (simp add: convert_finite_def get_value_pairs b)
qed

text \<open>The types of one name each, as a table of what was shown.\<close>

lemma si_values:
  assumes "- 3 \<le> i" and "i \<le> 3"
  shows "one_of si_prefixes (E_int i)"
proof -
  have "i = - 3 \<or> i = - 2 \<or> i = - 1 \<or> i = 0 \<or> i = 1 \<or> i = 2 \<or> i = 3" using assms by presburger
  then show ?thesis
    by (auto simp: si_prefixes_def one_of_def bytes_of_def)
qed

definition spec_codes :: "erl_syntax \<Rightarrow> evalue \<Rightarrow> type_impl \<Rightarrow> evalue \<Rightarrow> bool" where
  "spec_codes syn T i v \<longleftrightarrow> (\<exists>e b. type_encoder_of syn T i = Value e \<and> e v = Value (E_binary b) \<and>
     type_decoder_of syn T i b = Value v)"

lemma spec_codes_Codec: "codes e d v \<Longrightarrow> spec_codes syn T (Codec e d) v"
  by (auto simp: spec_codes_def codes_def type_encoder_of_def type_decoder_of_def)

lemma spec_codes_Finite: "one_of ps v \<Longrightarrow> spec_codes syn T (Finite (pair_list ps)) v"
  using finite_decodes [of ps v syn T]
  by (auto simp: spec_codes_def type_encoder_of_def type_decoder_of_def)

lemma atom_types_at:
  "map_of (atom_types syn) (bytes_of ''si_prefix'') = Some (Finite (pair_list si_prefixes))"
  "map_of (atom_types syn) (bytes_of ''binary'') = Some (Codec enc_id dec_id)"
  "map_of (atom_types syn) (bytes_of ''button'') = Some (Codec enc_id dec_id)"
  "map_of (atom_types syn) (bytes_of ''clickable'') = Some (Codec enc_id dec_id)"
  "map_of (atom_types syn) (bytes_of ''int'') = Some (Codec (fb_p syn) dec_int)"
  "map_of (atom_types syn) (bytes_of ''atom'') = Some (Codec enc_atom dec_atom)"
  "map_of (atom_types syn) (bytes_of ''pterm'') = Some (Codec (enc_pterm syn) (dec_pterm syn))"
  "map_of (atom_types syn) (bytes_of ''boolean'') = Some (Codec (fb_p syn) dec_boolean)"
  "map_of (atom_types syn) (bytes_of ''mac'') = Some (Codec enc_mac dec_mac)"
  "map_of (atom_types syn) (bytes_of ''ip'') = Some (Codec (enc_ip syn) (dec_ip syn))"
  "map_of (atom_types syn) (bytes_of ''ip_nm'') = Some (Codec (enc_ip_nm syn) (dec_ip_nm syn))"
  by (simp_all add: atom_types_def bytes_of_def)

lemma atom_spec:
  assumes "prints_plain syn" and "map_of (typed_atoms syn) a = Some p" and "p v"
  shows "\<exists>i. map_of (atom_types syn) a = Some i \<and> spec_codes syn T i v"
proof -
  have 1: "spec_codes syn T (Finite (pair_list si_prefixes)) v" if "is_si_power v"
    using that by (cases v) (auto intro: spec_codes_Finite si_values)
  have 2: "spec_codes syn T (Codec enc_id dec_id) v" if "is_binary v"
    using that by (cases v) (auto intro: spec_codes_Codec codes_id)
  have 3: "spec_codes syn T (Codec (fb_p syn) dec_int) v" if "is_int v"
    using that assms(1) by (cases v) (auto intro: spec_codes_Codec codes_int)
  have 4: "spec_codes syn T (Codec enc_atom dec_atom) v" if "is_atom v"
    using that by (cases v) (auto intro: spec_codes_Codec codes_atom)
  have 5: "spec_codes syn T (Codec (enc_ip_nm syn) (dec_ip_nm syn)) v" if "is_ip_nm v"
    using that assms(1) by (cases v rule: is_ip_nm.cases) (auto intro: spec_codes_Codec codes_ip_nm)
  note specs = 1 2 3 4 5 spec_codes_Codec [OF codes_pterm] spec_codes_Codec [OF codes_mac]
    spec_codes_Codec [OF codes_boolean [OF assms(1)]] spec_codes_Codec [OF codes_ip(1) [OF assms(1)]]
  have "list_all (\<lambda>(n, p). p v \<longrightarrow> (\<exists>i. map_of (atom_types syn) n = Some i \<and>
      spec_codes syn T i v)) (typed_atoms syn)"
    unfolding typed_atoms_def list.pred_inject prod.case atom_types_at option.inject simp_thms
    by (intro conjI impI list.pred_inject(1); rule specs; assumption)
  then show ?thesis
    using map_of_SomeD [OF assms(2)] assms(3) by (auto simp: list_all_iff)
qed

lemma typed_spec:
  assumes "prints_plain syn" and "typed syn T v"
  shows "\<exists>i. type_spec syn others T = Value i \<and> spec_codes syn T i v"
proof -
  consider (named) a p where "T = E_atom a" "map_of (typed_atoms syn) a = Some p" "p v"
    | (choice) al ps where "T = E_tuple [e_atom ''finite'', al]" "al = pair_list ps" "one_of ps v"
    | (range) mn mx i where "T = int_type mn mx" "v = E_int i" "int_ge i mn" "int_le i mx"
    using assms(2) by (elim typed.elims) (auto simp: int_type_def split: evalue.splits option.splits erl.splits)
  then show ?thesis
  proof cases
    case choice
    then show ?thesis using spec_codes_Finite [of ps v] by (simp add: type_spec_def)
  next
    case range
    then show ?thesis
      using codes_range [OF assms(1) range(3,4)] spec_codes_Codec by (simp add: type_spec_def int_type_def bytes_of_def)
  next
    case named
    obtain i where "map_of (atom_types syn) a = Some i" "spec_codes syn T i v"
      using atom_spec [OF assms(1) named(2,3)] by blast
    then show ?thesis by (simp add: type_spec_def named(1))
  qed
qed

section \<open>Keys, types and values as rows\<close>

text \<open>A user's type module: \<open>encode\<close> and \<open>decode\<close>. The module type\_base is one.\<close>

record type_module =
  tm_encode :: "evalue \<times> evalue \<Rightarrow> u8 list erl"
  tm_decode :: "evalue \<times> u8 list \<Rightarrow> evalue erl"

definition base_module :: "erl_syntax \<Rightarrow> more_types \<Rightarrow> type_module" where
  "base_module syn others = \<lparr>tm_encode = (\<lambda>(T, v). type_encode syn others (Named T, v)),
     tm_decode = (\<lambda>(T, b). type_decode syn others (Named T, b))\<rparr>"

definition encode_key :: "erl_syntax \<Rightarrow> more_types \<Rightarrow> evalue \<Rightarrow> u8 list erl" where
  "encode_key syn others k = type_encode syn others (Named (e_atom ''pterm''), k)"

definition decode_key :: "erl_syntax \<Rightarrow> more_types \<Rightarrow> u8 list \<Rightarrow> evalue erl" where
  "decode_key syn others b = type_decode syn others (Named (e_atom ''pterm''), b)"

definition encode_type :: "erl_syntax \<Rightarrow> more_types \<Rightarrow> evalue \<Rightarrow> u8 list erl" where
  "encode_type syn others T = type_encode syn others (Named (e_atom ''pterm''), T)"

definition decode_type :: "erl_syntax \<Rightarrow> more_types \<Rightarrow> u8 list \<Rightarrow> evalue erl" where
  "decode_type syn others b = type_decode syn others (Named (e_atom ''pterm''), b)"

type_synonym type_val = "evalue \<times> evalue"

definition encode_ktv ::
    "erl_syntax \<Rightarrow> more_types \<Rightarrow> type_module \<Rightarrow> evalue \<times> type_val \<Rightarrow> u8 list list erl" where
  "encode_ktv syn others tm = (\<lambda>(k, (T, v)).
     erl_then (encode_key syn others k) (\<lambda>bk.
     erl_then (encode_type syn others T) (\<lambda>bt.
     erl_then (tm_encode tm (T, v)) (\<lambda>bv. Value [bk, bt, bv]))))"

text \<open>A row from the database is a list of binaries.\<close>

fun decode_tv :: "erl_syntax \<Rightarrow> more_types \<Rightarrow> type_module \<Rightarrow> evalue \<Rightarrow> type_val erl" where
  "decode_tv syn others tm (E_cons (E_binary bt) (E_cons (E_binary bv) E_nil)) =
     erl_then (decode_type syn others bt) (\<lambda>T.
     erl_then (tm_decode tm (T, bv)) (\<lambda>v. Value (T, v)))"
| "decode_tv syn others tm _ = Raise (e_atom ''function_clause'')"

fun decode_ktv :: "erl_syntax \<Rightarrow> more_types \<Rightarrow> type_module \<Rightarrow> evalue \<Rightarrow> (evalue \<times> type_val) erl" where
  "decode_ktv syn others tm (E_cons (E_binary bk) tv) =
     erl_then (decode_key syn others bk) (\<lambda>k.
     erl_then (decode_tv syn others tm tv) (\<lambda>v. Value (k, v)))"
| "decode_ktv syn others tm _ = Raise (e_atom ''function_clause'')"

text \<open>Rows and tables whose columns have types; \<open>lists:zip\<close> takes lists of one length only.\<close>

definition decode_row :: "type_module \<Rightarrow> evalue list \<Rightarrow> u8 list list \<Rightarrow> evalue list erl" where
  "decode_row tm types row =
     (if length types = length row then erl_map (tm_decode tm) (zip types row) else no_clause)"

definition encode_row :: "type_module \<Rightarrow> evalue list \<Rightarrow> evalue list \<Rightarrow> u8 list list erl" where
  "encode_row tm types row =
     (if length types = length row then erl_map (tm_encode tm) (zip types row) else no_clause)"

definition decode_table :: "type_module \<Rightarrow> evalue list \<Rightarrow> u8 list list list \<Rightarrow> evalue list list erl" where
  "decode_table tm types tab = erl_map (decode_row tm types) tab"

definition encode_table :: "type_module \<Rightarrow> evalue list \<Rightarrow> evalue list list \<Rightarrow> u8 list list list erl" where
  "encode_table tm types tab = erl_map (encode_row tm types) tab"

definition binary_row :: "u8 list list \<Rightarrow> evalue" where
  "binary_row cols = E_list (map E_binary cols) E_nil"

lemma binary_row_simps [simp]:
  "binary_row [] = E_nil" "binary_row (b # bs) = E_cons (E_binary b) (binary_row bs)"
  by (simp_all add: binary_row_def E_list_def)

lemma pterm_codec:
  "type_encode syn others (Named (e_atom ''pterm''), t) = Value b \<longleftrightarrow>
     b = pp syn t \<and> dec_pterm syn b = Value t"
  "type_decode syn others (Named (e_atom ''pterm''), b) = dec_pterm syn b"
  by (auto simp: type_encode_def type_decode_def encoder_def decoder_def type_spec_def atom_types_at
      type_encoder_of_def type_decoder_of_def enc_pterm_def Let_def type_stop_def)

text \<open>Keys and types are read back as they were, and no two of them share their text.\<close>

lemma key_read_back:
  "encode_key syn others k = Value b \<Longrightarrow> decode_key syn others b = Value k"
  "encode_type syn others T = Value b \<Longrightarrow> decode_type syn others b = Value T"
  by (auto simp: encode_key_def decode_key_def encode_type_def decode_type_def pterm_codec)

lemma key_unique:
  "encode_key syn others k = Value b \<Longrightarrow> encode_key syn others k' = Value b \<Longrightarrow> k' = k"
  using key_read_back(1) [of syn others k b] key_read_back(1) [of syn others k' b] by simp

lemma encode_ktv_Value:
  "encode_ktv syn others tm (k, (T, v)) = Value cols \<longleftrightarrow>
     (\<exists>bk bt bv. encode_key syn others k = Value bk \<and> encode_type syn others T = Value bt \<and>
        tm_encode tm (T, v) = Value bv \<and> cols = [bk, bt, bv])"
  by (auto simp: encode_ktv_def erl_then_Value)

text \<open>The contract of a type module, for the values that it says belong to a type.\<close>

locale type_codec =
  fixes tm :: type_module and belongs :: "evalue \<Rightarrow> evalue \<Rightarrow> bool"
  assumes coded: "belongs T v \<Longrightarrow> \<exists>b. tm_encode tm (T, v) = Value b \<and> tm_decode tm (T, b) = Value v"
begin

lemma ktv_roundtrip:
  assumes "belongs T v" and "encode_key syn others k = Value bk" and "encode_type syn others T = Value bt"
  shows "\<exists>bv. encode_ktv syn others tm (k, (T, v)) = Value [bk, bt, bv] \<and>
    decode_ktv syn others tm (binary_row [bk, bt, bv]) = Value (k, (T, v))"
  using coded [OF assms(1)] assms(2,3) key_read_back by (auto simp: encode_ktv_def)

lemma row_roundtrip:
  assumes "list_all2 belongs types row"
  shows "\<exists>bs. encode_row tm types row = Value bs \<and> decode_row tm types bs = Value row"
proof -
  have "\<exists>bs. erl_map (tm_encode tm) (zip types row) = Value bs \<and> length bs = length types \<and>
      erl_map (tm_decode tm) (zip types bs) = Value row"
    using assms
  proof (induction types row rule: list_all2_induct)
    case (Cons T types v row)
    then obtain b bs where "tm_encode tm (T, v) = Value b" "tm_decode tm (T, b) = Value v"
      "erl_map (tm_encode tm) (zip types row) = Value bs" "length bs = length types"
      "erl_map (tm_decode tm) (zip types bs) = Value row"
      using coded by blast
    then show ?case by (intro exI [of _ "b # bs"]) simp
  qed simp
  then show ?thesis
    using list_all2_lengthD [OF assms] by (auto simp: encode_row_def decode_row_def)
qed

lemma table_roundtrip:
  assumes "\<forall>row \<in> set tab. list_all2 belongs types row"
  shows "\<exists>bs. encode_table tm types tab = Value bs \<and> decode_table tm types bs = Value tab"
  using assms
proof (induction tab)
  case (Cons row tab)
  then obtain b bs where "encode_row tm types row = Value b" "decode_row tm types b = Value row"
    "encode_table tm types tab = Value bs" "decode_table tm types bs = Value tab"
    using row_roundtrip [of types row] by auto
  then show ?case
    unfolding encode_table_def decode_table_def by (intro exI [of _ "b # bs"]) simp
qed (simp add: encode_table_def decode_table_def)

end

lemma base_codes:
  assumes "prints_plain syn" and "typed syn T v"
  shows "\<exists>b. type_encode syn others (Named T, v) = Value b \<and> type_decode syn others (Named T, b) = Value v"
proof -
  obtain i e b where "type_spec syn others T = Value i" "type_encoder_of syn T i = Value e"
    "e v = Value (E_binary b)" "type_decoder_of syn T i b = Value v"
    using typed_spec [OF assms, of others] by (auto simp: spec_codes_def)
  then show ?thesis by (auto simp: type_encode_def type_decode_def encoder_def decoder_def)
qed

interpretation base_types: type_codec "base_module syn others" "\<lambda>T v. prints_plain syn \<and> typed syn T v"
  for syn others
  by unfold_locales (use base_codes in \<open>auto simp: base_module_def\<close>)

section \<open>Properties\<close>

text \<open>A printer and a parser for the witnesses: integers, atoms without quotes, and one range.\<close>

definition toy_range :: evalue where
  "toy_range = int_type (E_int 0) (E_int 255)"

definition toy_syntax :: erl_syntax where
  "toy_syntax = \<lparr>
     pp = (\<lambda>t. if t = toy_range then bytes_of ''{int,0,255}''
       else case t of E_int v \<Rightarrow> int_bytes v | E_atom a \<Rightarrow> a | _ \<Rightarrow> []),
     parse_term = (\<lambda>bs.
       let b = butlast bs in
       if b = bytes_of ''{int,0,255}'' then Some toy_range
       else if list_all (\<lambda>c. 97 \<le> c \<and> c \<le> 122) b \<and> b \<noteq> [] then Some (E_atom b)
       else map_option E_int (binary_to_integer b))\<rparr>"

lemma toy_plain: "prints_plain toy_syntax"
  by (simp add: prints_plain_def toy_syntax_def toy_range_def int_type_def)

lemma toy_keys:
  "encode_key toy_syntax others (e_atom ''red'') = Value (bytes_of ''red'')"
  "encode_key toy_syntax others (e_atom ''blue'') = Value (bytes_of ''blue'')"
  "encode_type toy_syntax others toy_range = Value (bytes_of ''{int,0,255}'')"
  "encode_type toy_syntax others (e_atom ''int'') = Value (bytes_of ''int'')"
  unfolding encode_key_def encode_type_def pterm_codec(1)
  by (simp_all add: toy_syntax_def toy_range_def int_type_def dec_pterm_def bytes_of_def word_le_nat_alt)

text \<open>C31: A value that belongs to its type is read back from its text as it was: this holds for
  binaries, integers, ranges of integers, atoms, booleans, terms that the parser reads back,
  MAC and IP addresses, networks up to /24, the prefixes of units, and every finite type whose
  names are distinct binaries and whose values are distinct and none of them \<open>undefined\<close> (which
  is encoded, but stands for a name that is not there when it is decoded).\<close>

theorem type_roundtrip:
  assumes "prints_plain syn" and "typed syn T v"
  shows "\<exists>b. type_encode syn others (Named T, v) = Value b \<and>
    type_decode syn others (Named T, b) = Value v"
  by (rule base_codes [OF assms])

theorem type_roundtrip_witness:
  "\<exists>b. type_encode toy_syntax (\<lambda>_. None) (Named (e_atom ''ip''),
      E_tuple [E_int 192, E_int 168, E_int 0, E_int 7]) = Value b \<and>
    type_decode toy_syntax (\<lambda>_. None) (Named (e_atom ''ip''), b) =
      Value (E_tuple [E_int 192, E_int 168, E_int 0, E_int 7])"
proof (rule type_roundtrip [OF toy_plain])
  have "map_of (typed_atoms toy_syntax) (bytes_of ''ip'') = Some (ints_between 0 255 4)"
    by (simp add: typed_atoms_def bytes_of_def)
  then show "typed toy_syntax (e_atom ''ip'') (E_tuple [E_int 192, E_int 168, E_int 0, E_int 7])"
    by (simp add: ints_between_def)
qed

text \<open>The value \<open>undefined\<close> of a finite type is encoded by its name, and the decoder of the same type
  refuses the name.\<close>

lemma undefined_not_read:
  assumes "distinct (map fst ps)" and "distinct (map snd ps)" and "(E_binary b, e_atom ''undefined'') \<in> set ps"
  shows "type_encode syn others (Named (E_tuple [e_atom ''finite'', pair_list ps]), e_atom ''undefined'') = Value b"
    and "\<exists>e. type_decode syn others (Named (E_tuple [e_atom ''finite'', pair_list ps]), b) = Throw e"
proof -
  let ?u = "e_atom ''undefined''" and ?inv = "map (\<lambda>(a, b). (b, a)) ps"
  have "map fst ?inv = map snd ps" by auto
  moreover have "(?u, E_binary b) \<in> set ?inv" using assms(3) by force
  ultimately have "map_of ?inv ?u = Some (E_binary b)" using assms(2) by (metis map_of_is_SomeI)
  then show "type_encode syn others (Named (E_tuple [e_atom ''finite'', pair_list ps]), ?u) = Value b"
    by (simp add: type_encode_def encoder_def type_spec_def type_encoder_of_def convert_finite_def get_value_pairs)
  have "map_of ps (E_binary b) = Some ?u" using assms(1,3) by simp
  moreover have "ps \<noteq> []" using assms(3) by auto
  ultimately show "\<exists>e. type_decode syn others (Named (E_tuple [e_atom ''finite'', pair_list ps]), b) = Throw e"
    by (simp add: type_decode_def decoder_def type_spec_def type_decoder_of_def convert_finite_def
        get_value_pairs type_stop_def)
qed

text \<open>The encoder of a range does not look at the range, other than the encoder of terms, which
  decodes what it has printed: an integer outside is encoded as its decimal text, which the
  decoder of the same type refuses.\<close>

lemma range_not_checked:
  assumes "prints_plain syn" and "\<not> (int_ge i mn \<and> int_le i mx)"
  shows "type_encode syn others (Named (int_type mn mx), E_int i) = Value (int_bytes i) \<and>
    (\<exists>msg. type_decode syn others (Named (int_type mn mx), int_bytes i) =
       Throw (E_tuple [e_atom ''type'', E_tuple [int_type mn mx, E_int i, E_binary msg]]))"
proof -
  have "type_spec syn others (int_type mn mx) = Value (Codec (fb_p syn) (dec_range syn mn mx))"
    by (simp add: type_spec_def int_type_def bytes_of_def)
  then show ?thesis
    using assms(2) pp_simps [OF assms(1)]
    by (simp add: type_encode_def type_decode_def encoder_def decoder_def type_encoder_of_def
        type_decoder_of_def fb_p_def dec_range_def type_stop_def)
qed

lemma range_not_checked_witness:
  "type_encode toy_syntax (\<lambda>_. None) (Named toy_range, E_int 300) = Value (int_bytes 300) \<and>
   (\<exists>e. type_decode toy_syntax (\<lambda>_. None) (Named toy_range, int_bytes 300) = Throw e)"
  using range_not_checked [OF toy_plain, of 300 "E_int 0" "E_int 255"]
  by (auto simp: toy_range_def)

text \<open>The error of a range has the integer in it, which \<open>~s\<close> does not print: to make a text of it is
  an error of its own.\<close>

lemma range_error_not_printed:
  "format_error syn (E_tuple [e_atom ''type'', E_tuple [int_type mn mx, E_int i, E_binary msg]]) =
    Raise (e_atom ''badarg'')"
  by (simp add: format_error_def string_format_def)

text \<open>\<open>valid\<close> says no for every value that is read back as it was, since \<open>decode\<close> returns the
  value alone.\<close>

lemma valid_rejects:
  assumes "prints_plain syn" and "typed syn T v"
  shows "type_valid syn others (Named T, v) = Value False"
proof -
  have "E_tuple [e_atom ''ok'', v] \<noteq> v"
  proof
    assume "E_tuple [e_atom ''ok'', v] = v"
    then have "size (E_tuple [e_atom ''ok'', v]) = size v" by simp
    then show False by simp
  qed
  then show ?thesis using base_codes [OF assms, of others] by (auto simp: type_valid_def)
qed

end
