(* ===== verification/Erl_Sqlite.thy ===== *)
theory Erl_Sqlite
  imports Erl_Port Sqlite_Port
begin

text \<open>
  The Erlang end of the SQLite port, src/sqlite3.erl, and its composition with the C program: a
  query is sent as a term in a frame, its rows are collected up to the empty message, and a
  transaction runs a list of queries one by one. The transaction code is parametric in the
  function that runs a query, as the source is; the locale \<open>query_runner\<close> says what it needs of
  that function, and the interpretation gives it the C program at the other end of the pipe.
\<close>

section \<open>Transactions\<close>

type_synonym sql_query = "u8 list \<times> sql_arg list"

text \<open>What a check answers: ok, or a message that fails it; it runs in the server, which ends when
  it raises an exception.\<close>

datatype check_answer = Check_ok | Check_failed evalue | Check_crash

text \<open>An element of a transaction: a query, a check of the results so far, or a step of a
  fold over them (Inr is the answer next, Inl the answer stop). The results are a stack of tables,
  the last one on top.\<close>

datatype 'z tx_step =
    Tx_query sql_query
  | Tx_check "evalue list list \<Rightarrow> check_answer"
  | Tx_pfold "evalue list list \<Rightarrow> 'z \<Rightarrow> evalue + 'z"

datatype tx_result = Tables "evalue list list" | Tx_error evalue

type_synonym 's runner = "sql_query \<Rightarrow> 's \<Rightarrow> (evalue list \<times> 's) option"

definition rollback_query :: sql_query where
  "rollback_query = (bytes_of ''rollback transaction'', [])"

definition begin_query :: sql_query where
  "begin_query = (bytes_of ''begin transaction'', [])"

definition end_query :: sql_query where
  "end_query = (bytes_of ''end transaction'', [])"

text \<open>Any row can be an error, a pair, instead.\<close>

fun throw_if_error :: "evalue list \<Rightarrow> evalue option" where
  "throw_if_error [] = None"
| "throw_if_error (row # rows) =
     (case row of E_tuple [_, _] \<Rightarrow> Some row | _ \<Rightarrow> throw_if_error rows)"

definition sqlite3_abort :: "evalue \<Rightarrow> evalue" where
  "sqlite3_abort msg = E_tuple [E_atom (bytes_of ''sqlite3_abort''), msg]"

definition abort_transaction :: "'s runner \<Rightarrow> evalue \<Rightarrow> 's \<Rightarrow> (tx_result \<times> 's) option" where
  "abort_transaction run msg s =
     (case run rollback_query s of
        None \<Rightarrow> None
      | Some (_, s') \<Rightarrow> Some (Tx_error (sqlite3_abort msg), s'))"

fun run_until_error ::
    "'s runner \<Rightarrow> 'z tx_step list \<Rightarrow> evalue list list \<Rightarrow> 'z \<Rightarrow> 's \<Rightarrow> (tx_result \<times> 's) option" where
  "run_until_error run [] acc z s = Some (Tables (rev acc), s)"
| "run_until_error run (q # qs) acc z s =
     (case q of
        Tx_check check \<Rightarrow>
          (case check acc of
             Check_ok \<Rightarrow> run_until_error run qs acc z s
           | Check_failed msg \<Rightarrow> abort_transaction run msg s
           | Check_crash \<Rightarrow> None)
      | Tx_pfold fn \<Rightarrow>
          (case fn acc z of
             Inr z' \<Rightarrow> run_until_error run qs acc z' s
           | Inl v \<Rightarrow> abort_transaction run (E_tuple [E_atom (bytes_of ''stop''), v]) s)
      | Tx_query q \<Rightarrow>
          (case run q s of
             None \<Rightarrow> None
           | Some (rows, s') \<Rightarrow>
               (case throw_if_error rows of
                  None \<Rightarrow> run_until_error run qs (rows # acc) z s'
                | Some err \<Rightarrow> Some (Tx_error err, s'))))"

definition run_transaction ::
    "'s runner \<Rightarrow> 'z tx_step list \<Rightarrow> 'z \<Rightarrow> 's \<Rightarrow> (tx_result \<times> 's) option" where
  "run_transaction run qs z s =
     (case run rollback_query s of
        None \<Rightarrow> None
      | Some (_, s1) \<Rightarrow>
          (case run begin_query s1 of
             None \<Rightarrow> None
           | Some (_, s2) \<Rightarrow>
               (case run_until_error run qs [] z s2 of
                  None \<Rightarrow> None
                | Some (rv, s3) \<Rightarrow>
                    (case run end_query s3 of
                       None \<Rightarrow> None
                     | Some (_, s4) \<Rightarrow> Some (rv, s4)))))"

text \<open>The answer of \<open>sql_transaction\<close>: ok with the tables, or error; an exception of another kind
  goes through to the caller (None).\<close>

definition sql_transaction :: "tx_result \<Rightarrow> (evalue + evalue list list) option" where
  "sql_transaction r =
     (case r of
        Tables ts \<Rightarrow> Some (Inr ts)
      | Tx_error e \<Rightarrow>
          (case e of
             E_tuple [E_atom tag, _] \<Rightarrow>
               if tag = bytes_of ''sqlite3_errmsg'' \<or> tag = bytes_of ''sqlite3_abort'' then Some (Inl e)
               else None
           | _ \<Rightarrow> None))"

section \<open>What a transaction needs of the runner\<close>

text \<open>A chain of queries, their tables and the database states between them.\<close>

fun chain ::
    "('q \<Rightarrow> 'd \<Rightarrow> evalue list \<Rightarrow> 'd \<Rightarrow> bool) \<Rightarrow> 'q list \<Rightarrow> evalue list list \<Rightarrow> 'd \<Rightarrow> 'd \<Rightarrow> bool" where
  "chain ans [] [] d d' \<longleftrightarrow> d' = d"
| "chain ans (q # qs) (t # ts) d d' \<longleftrightarrow> (\<exists>d1. ans q d t d1 \<and> chain ans qs ts d1 d')"
| "chain ans _ _ d d' \<longleftrightarrow> False"

lemma chain_append:
  "length qs = length ts \<Longrightarrow>
    chain ans (qs @ qs') (ts @ ts') d d' \<longleftrightarrow> (\<exists>d1. chain ans qs ts d d1 \<and> chain ans qs' ts' d1 d')"
  by (induction qs ts arbitrary: d rule: list_induct2) auto

locale query_runner =
  fixes run :: "'s runner"
    and ans :: "sql_query \<Rightarrow> 'd \<Rightarrow> evalue list \<Rightarrow> 'd \<Rightarrow> bool"
    and linked :: "'s \<Rightarrow> 'd \<Rightarrow> bool"
  assumes run_ans: "linked s d \<Longrightarrow> ans q d rows d' \<Longrightarrow> \<exists>s'. run q s = Some (rows, s') \<and> linked s' d'"
begin

text \<open>Queries without errors leave their tables on the stack.\<close>

lemma queries_pass:
  assumes "chain ans qs ts d d'" and "linked s d" and "\<forall>t \<in> set ts. throw_if_error t = None"
  shows "\<exists>s'. linked s' d' \<and>
    run_until_error run (map Tx_query qs @ rest) acc z s = run_until_error run rest (rev ts @ acc) z s'"
  using assms
proof (induction qs arbitrary: ts s d acc)
  case Nil
  then show ?case by (cases ts) auto
next
  case (Cons q qs)
  then obtain t ts' d1 where ts: "ts = t # ts'" "ans q d t d1" "chain ans qs ts' d1 d'"
    by (cases ts) auto
  then obtain s1 where s1: "run q s = Some (t, s1)" "linked s1 d1"
    using run_ans [OF Cons.prems(2)] by blast
  with Cons.IH [OF ts(3) s1(2), of "t # acc"] Cons.prems(3) ts(1) show ?case by simp
qed

text \<open>A transaction is its body between three queries.\<close>

lemma transaction_body:
  assumes "ans rollback_query d t0 d0" "ans begin_query d0 t1 d1" and "linked s d"
    and body: "\<And>s1. linked s1 d1 \<Longrightarrow> \<exists>s2. run_until_error run qs [] z s1 = Some (r, s2) \<and> linked s2 d2"
    and "ans end_query d2 t2 d'"
  shows "\<exists>s'. run_transaction run qs z s = Some (r, s') \<and> linked s' d'"
proof -
  obtain s0 where s0: "run rollback_query s = Some (t0, s0)" "linked s0 d0"
    using run_ans [OF assms(3,1)] by blast
  obtain s1 where s1: "run begin_query s0 = Some (t1, s1)" "linked s1 d1"
    using run_ans [OF s0(2) assms(2)] by blast
  obtain s2 where s2: "run_until_error run qs [] z s1 = Some (r, s2)" "linked s2 d2"
    using body [OF s1(2)] by blast
  obtain s3 where "run end_query s2 = Some (t2, s3)" "linked s3 d'"
    using run_ans [OF s2(2) assms(5)] by blast
  with s0 s1 s2 show ?thesis by (simp add: run_transaction_def)
qed

lemma transaction_ok:
  assumes "chain ans (rollback_query # begin_query # qs @ [end_query]) (t0 # t1 # ts @ [t2]) d d'"
    and "length qs = length ts" and "\<forall>t \<in> set ts. throw_if_error t = None" and "linked s d"
  shows "\<exists>s'. run_transaction run (map Tx_query qs) z s = Some (Tables ts, s') \<and> linked s' d'"
proof -
  obtain d0 d1 d2 where d: "ans rollback_query d t0 d0" "ans begin_query d0 t1 d1" "chain ans qs ts d1 d2"
    "ans end_query d2 t2 d'"
    using assms(1) by (auto simp: chain_append [OF assms(2)])
  have "\<exists>s2. run_until_error run (map Tx_query qs) [] z s1 = Some (Tables ts, s2) \<and> linked s2 d2"
    if "linked s1 d1" for s1
    using queries_pass [OF d(3) that assms(3), of "[]" "[]" z] by auto
  from transaction_body [OF d(1,2) assms(4) this d(4)] show ?thesis by blast
qed

lemma transaction_error:
  assumes "chain ans (rollback_query # begin_query # qs @ [q, end_query]) (t0 # t1 # ts @ [t, t2]) d d'"
    and "length qs = length ts" and "\<forall>t \<in> set ts. throw_if_error t = None"
    and "throw_if_error t = Some err" and "linked s d"
  shows "\<exists>s'. run_transaction run (map Tx_query (qs @ q # rest)) z s = Some (Tx_error err, s') \<and>
    linked s' d'"
proof -
  obtain d0 d1 d2 d3 where d: "ans rollback_query d t0 d0" "ans begin_query d0 t1 d1"
    "chain ans qs ts d1 d2" "ans q d2 t d3" "ans end_query d3 t2 d'"
    using assms(1) by (auto simp: chain_append [OF assms(2)])
  have "\<exists>s3. run_until_error run (map Tx_query (qs @ q # rest)) [] z s1 = Some (Tx_error err, s3) \<and>
      linked s3 d3" if s1: "linked s1 d1" for s1
  proof -
    obtain s2 where s2: "linked s2 d2" "run_until_error run (map Tx_query (qs @ q # rest)) [] z s1 =
        run_until_error run (map Tx_query (q # rest)) (rev ts @ []) z s2"
      using queries_pass [OF d(3) s1 assms(3), of "Tx_query q # map Tx_query rest" "[]" z] by auto
    obtain s3 where "run q s2 = Some (t, s3)" "linked s3 d3"
      using run_ans [OF s2(1) d(4)] by blast
    with s2(2) assms(4) show ?thesis by simp
  qed
  from transaction_body [OF d(1,2) assms(5) this d(5)] show ?thesis by blast
qed

lemma transaction_check:
  assumes "chain ans (rollback_query # begin_query # qs @ [rollback_query, end_query])
      (t0 # t1 # ts @ [t, t2]) d d'"
    and "length qs = length ts" and "\<forall>t \<in> set ts. throw_if_error t = None"
    and "check (rev ts) = Check_failed msg" and "linked s d"
  shows "\<exists>s'. run_transaction run (map Tx_query qs @ Tx_check check # rest) z s =
    Some (Tx_error (sqlite3_abort msg), s') \<and> linked s' d'"
proof -
  obtain d0 d1 d2 d3 where d: "ans rollback_query d t0 d0" "ans begin_query d0 t1 d1"
    "chain ans qs ts d1 d2" "ans rollback_query d2 t d3" "ans end_query d3 t2 d'"
    using assms(1) by (auto simp: chain_append [OF assms(2)])
  have "\<exists>s3. run_until_error run (map Tx_query qs @ Tx_check check # rest) [] z s1 =
      Some (Tx_error (sqlite3_abort msg), s3) \<and> linked s3 d3" if s1: "linked s1 d1" for s1
  proof -
    obtain s2 where s2: "linked s2 d2"
      "run_until_error run (map Tx_query qs @ Tx_check check # rest) [] z s1 =
        run_until_error run (Tx_check check # rest) (rev ts) z s2"
      using queries_pass [OF d(3) s1 assms(3), of "Tx_check check # rest" "[]" z] by auto
    obtain s3 where "run rollback_query s2 = Some (t, s3)" "linked s3 d3"
      using run_ans [OF s2(1) d(4)] by blast
    with s2(2) assms(4) show ?thesis by (simp add: abort_transaction_def)
  qed
  from transaction_body [OF d(1,2) assms(5) this d(5)] show ?thesis by blast
qed

end

section \<open>A query over the port\<close>

text \<open>The port program and the messages the runtime has cut from its output and not delivered
  yet. While the other side waits, the program runs: it serves the message it is sent up to where
  it would read the next one. None stands for a caller that waits for ever, or crashes.\<close>

record ('d, 'st) port_link =
  program :: "('d, 'st) sq_port"
  inbox :: "u8 list list"

definition sq_turn ::
    "nat \<Rightarrow> ('d, 'st) sqlite_lib \<Rightarrow> ('d, 'st) sq_port \<Rightarrow> ('d, 'st) sq_port option" where
  "sq_turn fuel lib s =
     (case message_loop 1 fuel lib s of
        Ok _ _ \<Rightarrow> None
      | Stop h t \<Rightarrow> if h = Out_Of_Fuel then Some t else None)"

definition port_send ::
    "nat \<Rightarrow> ('d, 'st) sqlite_lib \<Rightarrow> u8 list \<Rightarrow> ('d, 'st) port_link \<Rightarrow> ('d, 'st) port_link option" where
  "port_send fuel lib bin l =
     map_option (\<lambda>t. \<lparr>program = t, inbox = inbox l @ arrived (program l) t\<rparr>)
       (sq_turn fuel lib (deliver bin (program l)))"

text \<open>\<open>port_sync\<close>: what the sink is called with, and the messages left.\<close>

fun port_sync :: "u8 list list \<Rightarrow> (evalue sink_msg list \<times> u8 list list) option" where
  "port_sync [] = None"
| "port_sync (bin # q) =
     (if bin = [] then Some ([Eof], q)
      else case read_term bin of
        None \<Rightarrow> None
      | Some v \<Rightarrow>
          (case v of
             E_tuple [E_atom a, msg] \<Rightarrow>
               if a = bytes_of ''error'' then Some ([Data v, Eof], q)
               else map_option (\<lambda>(ms, r). (Data v # ms, r)) (port_sync q)
           | _ \<Rightarrow> map_option (\<lambda>(ms, r). (Data v # ms, r)) (port_sync q)))"

definition port_query ::
    "bool \<Rightarrow> nat \<Rightarrow> ('d, 'st) sqlite_lib \<Rightarrow> sql_query \<Rightarrow> ('d, 'st) port_link \<Rightarrow>
      (evalue sink_msg list \<times> ('d, 'st) port_link) option" where
  "port_query small fuel lib q l =
     (case port_send fuel lib (request small q) l of
        None \<Rightarrow> None
      | Some l1 \<Rightarrow>
          (case port_sync (inbox l1) of
             None \<Rightarrow> None
           | Some (ms, r) \<Rightarrow> Some (ms, l1\<lparr>inbox := r\<rparr>)))"

text \<open>\<open>port_shutdown\<close> sends the empty message and waits for the exit status, passing over what
  else is there; a status other than 0 ends the caller.\<close>

definition port_shutdown ::
    "nat \<Rightarrow> ('d, 'st) sqlite_lib \<Rightarrow> ('d, 'st) port_link \<Rightarrow> (int + 'd) option" where
  "port_shutdown fuel lib l =
     (case message_loop 1 fuel lib (deliver [] (program l)) of
        Ok rc t \<Rightarrow> Some (if rc = 0 then Inr (db t) else Inl rc)
      | Stop (Exit rc) t \<Rightarrow> Some (if rc = 0 then Inr (db t) else Inl rc)
      | Stop (Error msg) t \<Rightarrow> Some (Inl 1)
      | Stop _ t \<Rightarrow> None)"

text \<open>The function \<open>db_handle\<close> runs a query with.\<close>

definition run_query ::
    "bool \<Rightarrow> nat \<Rightarrow> ('d, 'st) sqlite_lib \<Rightarrow> ('d, 'st) port_link runner" where
  "run_query small fuel lib q l =
     (case port_query small fuel lib q l of
        None \<Rightarrow> None
      | Some (ms, l') \<Rightarrow>
          (case gen_to_list ms of None \<Rightarrow> None | Some rows \<Rightarrow> Some (rows, l')))"

definition db_handle_queries ::
    "bool \<Rightarrow> nat \<Rightarrow> ('d, 'st) sqlite_lib \<Rightarrow> 'z tx_step list \<Rightarrow> 'z \<Rightarrow> ('d, 'st) port_link \<Rightarrow>
      (tx_result \<times> ('d, 'st) port_link) option" where
  "db_handle_queries small fuel lib qs z l = run_transaction (run_query small fuel lib) qs z l"

section \<open>Rows on both sides\<close>

text \<open>The value of a row: the list of its columns; of an error: a pair.\<close>

definition row_value :: "('d, 'st) sqlite_lib \<Rightarrow> 'st option \<Rightarrow> 'd \<Rightarrow> evalue" where
  "row_value lib st d = E_list
     (map (\<lambda>c. E_binary (lib_column_blob lib st c d)) [0..<lib_column_count lib st d]) E_nil"

definition error_value :: "('d, 'st) sqlite_lib \<Rightarrow> 'd \<Rightarrow> evalue" where
  "error_value lib d = E_tuple [E_atom (bytes_of ''sqlite3_errmsg''),
     E_binary (takeWhile (\<lambda>b. b \<noteq> 0) (lib_errmsg lib d))]"

lemma read_row:
  assumes "lib_ok lib"
  shows "read_term (row_payload lib st d) = Some (row_value lib st d)"
proof -
  have "all_fit (map (\<lambda>c. T_binary (lib_column_blob lib st c d)) cs)" for cs
  proof (induction cs)
    case (Cons c cs)
    have "length (lib_column_blob lib st c d) < 2 ^ 31"
      using assms unfolding lib_ok_def by metis
    with Cons show ?case by simp
  qed simp
  moreover have "lib_column_count lib st d < 2 ^ 31" using assms unfolding lib_ok_def by blast
  ultimately have "fits (T_list (map (\<lambda>c. T_binary (lib_column_blob lib st c d))
      [0..<lib_column_count lib st d]) T_nil)"
    by simp
  from read_term_encode [OF this] show ?thesis
    by (simp add: row_payload_def row_value_def comp_def)
qed

lemma read_error:
  assumes "lib_ok lib"
  shows "read_term (error_payload lib d) = Some (error_value lib d)"
proof -
  obtain cs where cs: "lib_errmsg lib d = cs @ [0]" "0 \<notin> set cs" "length cs < 2 ^ 30"
    using assms unfolding lib_ok_def by blast
  then have "takeWhile (\<lambda>b. b \<noteq> 0) (lib_errmsg lib d) = cs"
    by (simp only:) (subst takeWhile_append2, auto)
  then have "fits (T_small_tuple [T_atom (bytes_of ''sqlite3_errmsg''),
      T_binary (takeWhile (\<lambda>b. b \<noteq> 0) (lib_errmsg lib d))])"
    using cs(3) by simp
  from read_term_encode [OF this] show ?thesis
    by (simp add: error_payload_def error_value_def)
qed

text \<open>What \<open>port_sync\<close> passes on as it is: a term that is not \<open>{error, _}\<close>.\<close>

definition plain_value :: "evalue \<Rightarrow> bool" where
  "plain_value v \<longleftrightarrow> (\<forall>msg. v \<noteq> E_tuple [E_atom (bytes_of ''error''), msg])"

lemma plain_row: "plain_value (row_value lib st d)"
  by (simp add: plain_value_def row_value_def E_list_def)
    (cases "lib_column_count lib st d"; simp add: upt_rec)

lemma plain_error: "plain_value (error_value lib d)"
  by (simp add: plain_value_def error_value_def bytes_of_def)

definition reads_as :: "u8 list \<Rightarrow> evalue \<Rightarrow> bool" where
  "reads_as f v \<longleftrightarrow> f \<noteq> [] \<and> read_term f = Some v \<and> plain_value v"

lemma payload_not_empty: "row_payload lib st d \<noteq> []" "error_payload lib d \<noteq> []"
  by (simp_all add: row_payload_def error_payload_def)

lemma reads_row: "lib_ok lib \<Longrightarrow> reads_as (row_payload lib st d) (row_value lib st d)"
  by (simp only: reads_as_def payload_not_empty plain_row read_row) simp

lemma reads_error: "lib_ok lib \<Longrightarrow> reads_as (error_payload lib d) (error_value lib d)"
  by (simp only: reads_as_def payload_not_empty plain_error read_error) simp

lemma port_sync_plain:
  assumes "reads_as f v"
  shows "port_sync (f # q) = map_option (\<lambda>(ms, r). (Data v # ms, r)) (port_sync q)"
  using assms
  by (auto simp: reads_as_def plain_value_def split: evalue.splits list.splits)

lemma port_sync_rows:
  "list_all2 reads_as fs vs \<Longrightarrow> port_sync (fs @ [] # q) = Some (map Data vs @ [Eof], q)"
  by (induction fs vs rule: list_all2_induct) (simp_all del: port_sync.simps(2) add: port_sync_plain, simp)

lemma steps_to_reads:
  assumes "steps_to lib st d fs ok d'" and "lib_ok lib"
  shows "\<exists>vs. list_all2 reads_as fs vs"
  using assms
  by (induction rule: steps_to.induct) (blast intro: list.rel_intros reads_row reads_error)+

lemma serves_reads:
  assumes "serves lib d q fs d'" and "lib_ok lib"
  shows "\<exists>vs. list_all2 reads_as fs vs"
  using assms(1)
proof (cases rule: serves.cases)
  case (rejected sql st d1 args)
  then show ?thesis using reads_error [OF assms(2)] by (blast intro: list.rel_intros)
qed (blast intro: steps_to_reads [OF _ assms(2)])

section \<open>Both ends together\<close>

text \<open>The answer promised for a query at a database state, for requests and answers within the
  limits of the program: its frames, read by Erlang.\<close>

definition query_answers ::
    "bool \<Rightarrow> nat \<Rightarrow> nat \<Rightarrow> ('d, 'st) sqlite_lib \<Rightarrow> sql_query \<Rightarrow> 'd \<Rightarrow> evalue list \<Rightarrow> 'd \<Rightarrow> bool" where
  "query_answers small fuel room lib q d rows d' \<longleftrightarrow>
     request_ok small q \<and> length (request small q) \<le> room \<and>
     (\<exists>fs. serves lib d q fs d' \<and> sendable fuel fs \<and> list_all2 reads_as fs rows)"

text \<open>The program waits for a request; and no message is on its way.\<close>

definition sq_ready :: "nat \<Rightarrow> nat \<Rightarrow> 'd \<Rightarrow> ('d, 'st) sq_port \<Rightarrow> bool" where
  "sq_ready room blocks d s \<longleftrightarrow> db s = d \<and> readable 0 s \<and> pending 0 s = [] \<and> writable 1 s \<and>
     malloc_max s = room \<and> live_blocks s = blocks"

definition idle_link :: "nat \<Rightarrow> nat \<Rightarrow> ('d, 'st) port_link \<Rightarrow> 'd \<Rightarrow> bool" where
  "idle_link room blocks l d \<longleftrightarrow> sq_ready room blocks d (program l) \<and> inbox l = []"

text \<open>Its answer to a request is that of the library, and the empty message.\<close>

definition sq_replies ::
    "bool \<Rightarrow> nat \<Rightarrow> nat \<Rightarrow> ('d, 'st) sqlite_lib \<Rightarrow> 'd \<Rightarrow> u8 list \<Rightarrow> u8 list list \<Rightarrow> 'd \<Rightarrow> bool" where
  "sq_replies small fuel room lib d bin ms d' \<longleftrightarrow> lib_ok lib \<and>
     (\<exists>q fs. bin = request small q \<and> request_ok small q \<and> length bin \<le> room \<and>
        serves lib d q fs d' \<and> sendable fuel fs \<and> ms = fs @ [[]])"

lemma sq_turn_serves:
  assumes "serves lib d q fs d'" and "lib_ok lib" and "request_ok small q"
    and "length (request small q) \<le> room" and "sendable fuel fs" and "sq_ready room blocks d s"
  shows "\<exists>t. sq_turn fuel lib (deliver (request small q) s) = Some t \<and>
    out t 1 = out s 1 @ concat (map frame (fs @ [[]])) \<and> sq_ready room blocks d' t"
proof -
  let ?s1 = "deliver (request small q) s"
  have s: "db s = d" "readable 0 s" "pending 0 s = []" "writable 1 s" "malloc_max s = room"
    "live_blocks s = blocks"
    using assms(6) by (simp_all add: sq_ready_def)
  have "db ?s1 = d" using sq_more [of ?s1 s] s(1) by simp
  then have "session lib (db ?s1) [q] [fs] d'"
    using session.next_request [OF assms(1) session.idle_session] by simp
  then have "\<exists>t. message_loop (length [q] + 0) fuel lib ?s1 = message_loop 0 fuel lib t \<and>
      progressed ?s1 [] (concat (map responses [fs])) d' t"
    using assms(2-5) s by (intro requests_served [where small = small]) auto
  then obtain t where "message_loop 1 fuel lib ?s1 = Stop Out_Of_Fuel t"
    "progressed ?s1 [] (responses fs) d' t"
    by auto
  then show ?thesis
    using s(5,6) by (auto simp: sq_turn_def sq_ready_def progressed_def responses_def simp del: message_loop.simps)
qed

interpretation sq_server: packet_server "sq_turn fuel lib" "sq_ready room blocks"
  "sq_replies small fuel room lib"
  for small fuel and lib :: "('d, 'st) sqlite_lib" and room blocks
proof unfold_locales
  fix d :: 'd and s :: "('d, 'st) sq_port" and bin ms d'
  assume "sq_ready room blocks d s" "sq_replies small fuel room lib d bin ms d'"
  then show "\<exists>t. sq_turn fuel lib (deliver bin s) = Some t \<and>
      out t 1 = out s 1 @ concat (map frame ms) \<and> sq_ready room blocks d' t"
    unfolding sq_replies_def by (elim conjE exE) (simp only: sq_turn_serves)
qed (fastforce simp: sq_replies_def sendable_def)

lemma run_query_answers:
  assumes "lib_ok lib" and "idle_link room blocks l d" and "query_answers small fuel room lib q d rows d'"
  shows "\<exists>l'. run_query small fuel lib q l = Some (rows, l') \<and> idle_link room blocks l' d'"
proof -
  obtain fs where fs: "request_ok small q" "length (request small q) \<le> room" "serves lib d q fs d'"
    "sendable fuel fs" "list_all2 reads_as fs rows"
    using assms(3) unfolding query_answers_def by blast
  have r: "sq_replies small fuel room lib d (request small q) (fs @ [[]]) d'"
    using fs assms(1) unfolding sq_replies_def by blast
  have l: "sq_ready room blocks d (program l)" "inbox l = []"
    using assms(2) by (simp_all add: idle_link_def)
  obtain t where "sq_turn fuel lib (deliver (request small q) (program l)) = Some t"
    "arrived (program l) t = fs @ [[]]" "sq_ready room blocks d' t"
    using sq_server.exchange [OF l(1) r] .
  then have "port_query small fuel lib q l = Some (map Data rows @ [Eof], \<lparr>program = t, inbox = []\<rparr>)"
    using port_sync_rows [OF fs(5), of "[]"] l(2) by (simp add: port_query_def port_send_def)
  then show ?thesis
    using gen_to_list_data [of rows "[]"] \<open>sq_ready room blocks d' t\<close>
    by (simp add: run_query_def idle_link_def)
qed

interpretation c_server: query_runner "run_query small fuel lib" "query_answers small fuel room lib"
  "\<lambda>l d. lib_ok lib \<and> idle_link room blocks l d" for small fuel lib room blocks
  by unfold_locales (metis run_query_answers)

section \<open>Properties\<close>

definition toy_row :: evalue where "toy_row = E_cons (E_binary [42]) E_nil"

definition toy_errmsg :: evalue where
  "toy_errmsg = E_tuple [E_atom (bytes_of ''sqlite3_errmsg''), E_binary [66]]"

lemma toy_error_row [simp]: "throw_if_error [toy_row] = None" "throw_if_error [toy_errmsg] = Some toy_errmsg"
  by (simp_all add: toy_row_def toy_errmsg_def)

lemma toy_answers:
  assumes "sql \<noteq> []" and "length sql < 100"
  shows "query_answers False 5 1000 toy_lib (sql, []) (0, 0) [toy_row] (0, 0)"
proof -
  have end_of_rows: "steps_to toy_lib (Some sql) (0, 1) [] True (0, 1)"
    by (rule steps_to.finished) simp
  have "steps_to toy_lib (Some sql) (1, 1) [row_payload toy_lib (Some sql) (0, 1)] True (0, 1)"
    by (rule steps_to.a_row [OF _ _ end_of_rows]) simp_all
  then have "serves toy_lib (0, 0) (sql, []) [row_payload toy_lib (Some sql) (0, 1)]
      (lib_finalize toy_lib (Some sql) (0, 1))"
    using assms(1) by (intro serves.executed [where ?d1.0 = "(1, 1)" and ok = True]) simp_all
  moreover have "reads_as (row_payload toy_lib (Some sql) (0, 1)) toy_row"
    using reads_row [OF toy_lib_ok, of "Some sql" "(0, 1)"]
    by (simp add: row_value_def E_list_def toy_row_def)
  moreover have "request_ok False (sql, [])" "length (request False (sql, [])) \<le> 1000"
    using assms(2) by (simp_all add: request_ok_def request_def query_term_def MAX_NB_SLICES_def)
  moreover have "sendable 5 [row_payload toy_lib (Some sql) (0, 1)]"
    by (simp add: sendable_def row_payload_def)
  ultimately show ?thesis unfolding query_answers_def by (auto intro!: exI)
qed

lemma toy_answers_error: "query_answers False 5 1000 toy_lib ([], []) (0, 0) [toy_errmsg] (0, 0)"
proof -
  have "serves toy_lib (0, 0) ([], []) [error_payload toy_lib (0, 0)] (lib_finalize toy_lib None (0, 0))"
    by (intro serves.rejected) simp
  moreover have "reads_as (error_payload toy_lib (0, 0)) toy_errmsg"
    using reads_error [OF toy_lib_ok, of "(0, 0)"] by (simp add: error_value_def toy_errmsg_def)
  moreover have "request_ok False ([], [])" "length (request False ([], [])) \<le> 1000"
    by (simp_all add: request_ok_def request_def query_term_def MAX_NB_SLICES_def)
  moreover have "sendable 5 [error_payload toy_lib (0, 0)]"
    by (simp add: sendable_def error_payload_def bytes_of_def)
  ultimately show ?thesis unfolding query_answers_def by (auto intro!: exI)
qed

lemma toy_control:
  "query_answers False 5 1000 toy_lib rollback_query (0, 0) [toy_row] (0, 0)"
  "query_answers False 5 1000 toy_lib begin_query (0, 0) [toy_row] (0, 0)"
  "query_answers False 5 1000 toy_lib end_query (0, 0) [toy_row] (0, 0)"
  unfolding rollback_query_def begin_query_def end_query_def
  by (rule toy_answers; simp add: bytes_of_def)+

definition toy_link :: "(nat \<times> int, u8 list) port_link" where
  "toy_link = \<lparr>program = toy_state [], inbox = []\<rparr>"

lemma toy_link_idle: "idle_link 1000 0 toy_link (0, 0)"
  by (simp add: idle_link_def sq_ready_def toy_link_def)

text \<open>C11: Both ends of the SQLite port together are a database client: a transaction of queries
  that all succeed runs a rollback of whatever was left open, begin, the queries in their order
  and end, each once; its result is their tables, row for row the columns the library gave, in
  the order of the queries; and the program is again waiting, with nothing under way, no message
  on the heap.\<close>

theorem sql_transaction_refines:
  assumes "lib_ok lib" and "idle_link room blocks l d"
    and "chain (query_answers small fuel room lib) (rollback_query # begin_query # qs @ [end_query])
      (t0 # t1 # ts @ [t2]) d d'"
    and "length qs = length ts" and "\<forall>t \<in> set ts. throw_if_error t = None"
  shows "\<exists>l'. db_handle_queries small fuel lib (map Tx_query qs) z l = Some (Tables ts, l') \<and>
    idle_link room blocks l' d' \<and> sql_transaction (Tables ts) = Some (Inr ts)"
  using c_server.transaction_ok [where s = l and blocks = blocks and z = z, OF assms(3-5)] assms(1,2)
  by (simp add: db_handle_queries_def sql_transaction_def)

theorem sql_transaction_refines_witness:
  "\<exists>l'. db_handle_queries False 5 toy_lib (map Tx_query [([113], []), ([114], [])]) () toy_link =
     Some (Tables [[toy_row], [toy_row]], l') \<and> live_blocks (program l') = 0"
proof -
  have "chain (query_answers False 5 1000 toy_lib) (rollback_query # begin_query # [([113], []), ([114], [])] @ [end_query])
      ([toy_row] # [toy_row] # [[toy_row], [toy_row]] @ [[toy_row]]) (0, 0) (0, 0)"
    using toy_control toy_answers [of "[113]"] toy_answers [of "[114]"]
    by (auto intro!: exI [of _ "0 :: nat"] exI [of _ "0 :: int"])
  from sql_transaction_refines [OF toy_lib_ok toy_link_idle this, of "()"] show ?thesis
    by (auto simp: idle_link_def sq_ready_def simp del: throw_if_error.simps(2))
qed

text \<open>C37: A query that fails ends its transaction: its error is the result, the queries behind it
  are not run, and what is sent next is the end, not a rollback as
  after a failing check: in SQL that commits the statements before it.\<close>

theorem sql_transaction_error:
  assumes "lib_ok lib" and "idle_link room blocks l d"
    and "chain (query_answers small fuel room lib) (rollback_query # begin_query # qs @ [q, end_query])
      (t0 # t1 # ts @ [t, t2]) d d'"
    and "length qs = length ts" and "\<forall>t \<in> set ts. throw_if_error t = None"
    and "throw_if_error t = Some err"
  shows "\<exists>l'. db_handle_queries small fuel lib (map Tx_query (qs @ q # rest)) z l =
    Some (Tx_error err, l') \<and> idle_link room blocks l' d'"
  using c_server.transaction_error
    [where s = l and blocks = blocks and z = z and rest = rest, OF assms(3-6)] assms(1,2)
  by (simp add: db_handle_queries_def)

theorem sql_transaction_error_witness:
  "\<exists>l'. db_handle_queries False 5 toy_lib (map Tx_query ([([113], [])] @ ([], []) # [([114], [])])) ()
     toy_link = Some (Tx_error toy_errmsg, l') \<and> inbox l' = []"
proof -
  have "chain (query_answers False 5 1000 toy_lib) (rollback_query # begin_query # [([113], [])] @ [([], []), end_query])
      ([toy_row] # [toy_row] # [[toy_row]] @ [[toy_errmsg], [toy_row]]) (0, 0) (0, 0)"
    using toy_control toy_answers [of "[113]"] toy_answers_error
    by (auto intro!: exI [of _ "0 :: nat"] exI [of _ "0 :: int"])
  from sql_transaction_error [OF toy_lib_ok toy_link_idle this, of toy_errmsg "[([114], [])]" "()"]
  show ?thesis
    by (auto simp: idle_link_def sq_ready_def simp del: throw_if_error.simps(2))
qed

text \<open>A check that fails rolls the transaction back before it ends it, and runs nothing behind.\<close>

lemma sql_transaction_check:
  assumes "lib_ok lib" and "idle_link room blocks l d"
    and "chain (query_answers small fuel room lib)
      (rollback_query # begin_query # qs @ [rollback_query, end_query]) (t0 # t1 # ts @ [t, t2]) d d'"
    and "length qs = length ts" and "\<forall>t \<in> set ts. throw_if_error t = None"
    and "check (rev ts) = Check_failed msg"
  shows "\<exists>l'. db_handle_queries small fuel lib (map Tx_query qs @ Tx_check check # rest) z l =
    Some (Tx_error (sqlite3_abort msg), l') \<and> idle_link room blocks l' d'"
  using c_server.transaction_check [where s = l and blocks = blocks and z = z and rest = rest and
      check = check and msg = msg, OF assms(3-5) assms(6)] assms(1,2)
  by (simp add: db_handle_queries_def)

text \<open>An orderly end: the database is closed and \<open>port_shutdown\<close> returns ok.\<close>

lemma port_shutdown_closes:
  assumes "idle_link room blocks l d"
  shows "port_shutdown fuel lib l = Some (Inr (lib_close lib d))"
proof -
  let ?s = "deliver [] (program l)"
  have s: "readable 0 ?s" "pending 0 ?s = be_bytes 4 0 @ []" "db ?s = d"
    using assms sq_more [of ?s "program l"] by (simp_all add: idle_link_def sq_ready_def frame_def)
  obtain t where t: "assert_read_u32 0 ?s = Ok 0 t" "same_but_rd 0 ?s t"
    using read_u32_data [OF s(1,2)] by auto
  then show ?thesis
    using same_but_rd_sq [OF t(2)] s(3) by (simp add: port_shutdown_def io_simps)
qed

text \<open>A program that ended leaves the caller of \<open>port_query\<close> waiting: \<open>port_sync\<close> has no clause
  for the exit status.\<close>

lemma query_hangs:
  assumes "message_loop 1 fuel lib (deliver (request small q) (program l)) = Stop h t"
    and "h \<noteq> Out_Of_Fuel"
  shows "run_query small fuel lib q l = None"
  using assms by (simp add: run_query_def port_query_def port_send_def sq_turn_def del: message_loop.simps)

end
