(* ===== verification/Erl_Kvstore.thy ===== *)
theory Erl_Kvstore
  imports Erl_Types Erl_Sqlite "HOL-Library.AList"
begin

text \<open>
  Key value stores, src/kvstore.erl: an object is a function from the name of a method to the
  method, and the module's functions are written against it. The state behind an object, a
  database say, is passed through; the locale \<open>kv_cells\<close> is the contract of single entries, the
  locale \<open>kv_store\<close> that of a whole store, both against a map from keys to typed values. The last
  section lets a store play the part of a process of src/obj.erl, whose state is a map.
\<close>

section \<open>Maps\<close>

text \<open>Erlang's maps: pairs with distinct keys, in the order \<open>maps:to_list\<close> gives them.\<close>

type_synonym key_val = "evalue \<times> type_val"

type_synonym 'v emap = "(evalue \<times> 'v) list"

definition maps_from_list :: "(evalue \<times> 'v) list \<Rightarrow> 'v emap" where
  "maps_from_list l = foldl (\<lambda>m (k, v). AList.update k v m) [] l"

definition maps_merge :: "'v emap \<Rightarrow> 'v emap \<Rightarrow> 'v emap" where
  "maps_merge a b = foldl (\<lambda>m (k, v). AList.update k v m) a b"

definition same_map :: "'v emap \<Rightarrow> 'v emap \<Rightarrow> bool" where
  "same_map a b \<longleftrightarrow> list_all (\<lambda>k. map_of a k = map_of b k) (map fst a @ map fst b)"

lemma foldl_update:
  "map_of (foldl (\<lambda>m (k, v). AList.update k v m) a b) = map_of a ++ map_of (rev b)"
  "distinct (map fst a) \<Longrightarrow> distinct (map fst (foldl (\<lambda>m (k, v). AList.update k v m) a b))"
proof -
  show "map_of (foldl (\<lambda>m (k, v). AList.update k v m) a b) = map_of a ++ map_of (rev b)"
    by (induction b arbitrary: a) (auto simp: update_conv' map_add_def fun_eq_iff split: option.split)
  show "distinct (map fst a) \<Longrightarrow> distinct (map fst (foldl (\<lambda>m (k, v). AList.update k v m) a b))"
    by (induction b arbitrary: a) (auto simp: distinct_update)
qed

lemma map_of_rev: "distinct (map fst xs) \<Longrightarrow> map_of (rev xs) = map_of xs"
  by (rule map_of_eqI) (auto simp: rev_map [symmetric] intro: map_of_inject_set[THEN iffD2])

lemma same_map_iff: "same_map a b \<longleftrightarrow> map_of a = map_of b"
proof
  assume s: "same_map a b"
  show "map_of a = map_of b"
  proof
    fix k
    show "map_of a k = map_of b k"
    proof (cases "k \<in> set (map fst a @ map fst b)")
      case True
      with s show ?thesis by (auto simp: same_map_def list_all_iff)
    next
      case False
      then have "map_of a k = None" "map_of b k = None" by (auto simp: map_of_eq_None_iff)
      then show ?thesis by simp
    qed
  qed
qed (simp add: same_map_def list_all_iff)

section \<open>Stores\<close>

text \<open>What \<open>find\<close> answers: a value, or another term.\<close>

type_synonym found = "evalue + type_val"

definition not_found_term :: "evalue \<Rightarrow> evalue" where
  "not_found_term k = E_tuple [e_atom ''error'', E_tuple [e_atom ''not_found'', k]]"

text \<open>The methods; asking for one can raise an exception itself. A method that is not a function is
  an error when it is called, as every one is by the functions below.\<close>

record 's kvstore =
  m_find :: "(evalue \<Rightarrow> ('s, found) act) erl"
  m_put :: "(evalue \<Rightarrow> type_val \<Rightarrow> ('s, type_val) act) erl"
  m_to_list :: "('s, key_val list) act erl"
  m_to_map :: "('s, type_val emap) act erl"
  m_keys :: "('s, evalue list) act erl"
  m_put_list :: "(key_val list \<Rightarrow> ('s, unit) act) erl"
  m_put_map :: "(type_val emap \<Rightarrow> ('s, unit) act) erl"
  m_put_list_cond :: "(key_val list \<Rightarrow> (key_val list \<Rightarrow> check_answer) \<Rightarrow> ('s, unit) act) erl"
  m_put_map_cond :: "(type_val emap \<Rightarrow> (type_val emap \<Rightarrow> check_answer) \<Rightarrow> ('s, unit) act) erl"
  m_clear :: "('s, unit) act erl"
  m_remove :: "(evalue \<Rightarrow> ('s, unit) act) erl"

definition with_method :: "'f erl \<Rightarrow> ('f \<Rightarrow> ('s, 'a) act) \<Rightarrow> ('s, 'a) act" where
  "with_method m call = act_then (act_of m) call"

lemma with_method_simps [simp]:
  "with_method (Value f) call = call f" "with_method (Throw e) call = act_of (Throw e)"
  "with_method (Raise e) call = act_of (Raise e)"
  by (simp_all add: with_method_def fun_eq_iff)

definition kv_put :: "'s kvstore \<Rightarrow> evalue \<Rightarrow> type_val \<Rightarrow> ('s, type_val) act" where
  "kv_put K k tv = with_method (m_put K) (\<lambda>f. f k tv)"

definition kv_find :: "'s kvstore \<Rightarrow> evalue \<Rightarrow> ('s, found) act" where
  "kv_find K k = with_method (m_find K) (\<lambda>f. f k)"

definition kv_to_list :: "'s kvstore \<Rightarrow> ('s, key_val list) act" where
  "kv_to_list K = with_method (m_to_list K) (\<lambda>f. f)"

definition kv_to_map :: "'s kvstore \<Rightarrow> ('s, type_val emap) act" where
  "kv_to_map K = with_method (m_to_map K) (\<lambda>f. f)"

definition kv_put_map :: "'s kvstore \<Rightarrow> type_val emap \<Rightarrow> ('s, unit) act" where
  "kv_put_map K m = with_method (m_put_map K) (\<lambda>f. f m)"

definition kv_put_list :: "'s kvstore \<Rightarrow> key_val list \<Rightarrow> ('s, unit) act" where
  "kv_put_list K l = with_method (m_put_list K) (\<lambda>f. f l)"

definition kv_put_list_cond ::
    "'s kvstore \<Rightarrow> key_val list \<Rightarrow> (key_val list \<Rightarrow> check_answer) \<Rightarrow> ('s, unit) act" where
  "kv_put_list_cond K l check = with_method (m_put_list_cond K) (\<lambda>f. f l check)"

definition kv_put_map_cond ::
    "'s kvstore \<Rightarrow> type_val emap \<Rightarrow> (type_val emap \<Rightarrow> check_answer) \<Rightarrow> ('s, unit) act" where
  "kv_put_map_cond K m check = with_method (m_put_map_cond K) (\<lambda>f. f m check)"

definition kv_keys :: "'s kvstore \<Rightarrow> ('s, evalue list) act" where
  "kv_keys K = with_method (m_keys K) (\<lambda>f. f)"

definition kv_clear :: "'s kvstore \<Rightarrow> ('s, unit) act" where
  "kv_clear K = with_method (m_clear K) (\<lambda>f. f)"

definition kv_remove :: "'s kvstore \<Rightarrow> evalue \<Rightarrow> ('s, unit) act" where
  "kv_remove K k = with_method (m_remove K) (\<lambda>f. f k)"

section \<open>Functions on stores\<close>

definition kv_get_or_make ::
    "'s kvstore \<Rightarrow> evalue \<Rightarrow> ('s, type_val) act \<Rightarrow> ('s, type_val) act" where
  "kv_get_or_make K k mk = act_then (kv_find K k) (\<lambda>r.
     case r of Inr rv \<Rightarrow> act_of (Value rv) | Inl _ \<Rightarrow> mk)"

definition kv_not_found :: "evalue \<Rightarrow> ('s, type_val) act" where
  "kv_not_found k = act_of (Throw (not_found_term k))"

definition kv_get :: "'s kvstore \<Rightarrow> evalue \<Rightarrow> ('s, type_val) act" where
  "kv_get K k = kv_get_or_make K k (kv_not_found k)"

definition kv_get_default :: "'s kvstore \<Rightarrow> evalue \<Rightarrow> type_val \<Rightarrow> ('s, type_val) act" where
  "kv_get_default K k dflt = kv_get_or_make K k (act_of (Value dflt))"

text \<open>\<open>update\<close> with four arguments and with three, which has no value to begin with.\<close>

definition kv_update ::
    "'s kvstore \<Rightarrow> evalue \<Rightarrow> (type_val \<Rightarrow> type_val erl) \<Rightarrow> ('s, type_val) act \<Rightarrow> ('s, type_val) act" where
  "kv_update K k fn mk = act_then (kv_get_or_make K k mk) (\<lambda>tv.
     act_then (act_of (fn tv)) (kv_put K k))"

definition kv_update_val ::
    "'s kvstore \<Rightarrow> evalue \<Rightarrow> (evalue \<Rightarrow> evalue erl) \<Rightarrow> ('s, type_val) act \<Rightarrow> ('s, evalue) act" where
  "kv_update_val K k fn mk = act_then
     (kv_update K k (\<lambda>(T, v). erl_then (fn v) (\<lambda>w. Value (T, w))) mk)
     (\<lambda>(_, v). act_of (Value v))"

definition kv_init :: "'s kvstore \<Rightarrow> type_val emap \<Rightarrow> ('s, type_val emap) act" where
  "kv_init K defaults = act_then (kv_to_map K) (\<lambda>old.
     let new = maps_merge defaults old in
     if same_map new old then act_of (Value new)
     else act_then (kv_put_map K new) (\<lambda>_. act_of (Value new)))"

fun kv_to_list_keys :: "'s kvstore \<Rightarrow> evalue list \<Rightarrow> ('s, key_val list) act" where
  "kv_to_list_keys K [] = act_of (Value [])"
| "kv_to_list_keys K (k # ks) = act_then (kv_get K k) (\<lambda>tv.
     act_then (kv_to_list_keys K ks) (\<lambda>r. act_of (Value ((k, tv) # r))))"

text \<open>Other kinds of stores. That of \<open>zero\<close> answers the empty list where a function is expected.\<close>

definition kv_zero :: "'s kvstore" where
  "kv_zero =
     (let not_a_fun = E_tuple [e_atom ''badfun'', E_nil]; no = e_atom ''kvstore_zero'' in
      \<lparr>m_find = Value (\<lambda>_. act_of (Value (Inl (E_tuple [e_atom ''error'', e_atom ''zero''])))),
       m_put = Throw no, m_to_list = Raise not_a_fun, m_to_map = Raise not_a_fun,
       m_keys = Raise not_a_fun, m_put_list = Throw no, m_put_map = Throw no,
       m_put_list_cond = Throw no, m_put_map_cond = Throw no, m_clear = Throw no,
       m_remove = Throw no\<rparr>)"

definition kv_with_default :: "'s kvstore \<Rightarrow> (evalue \<Rightarrow> found erl) \<Rightarrow> 's kvstore" where
  "kv_with_default K default_find = K\<lparr>m_find := Value (\<lambda>k. act_then (kv_find K k) (\<lambda>r.
     case r of Inr rv \<Rightarrow> act_of (Value (Inr rv)) | Inl _ \<Rightarrow> act_of (default_find k)))\<rparr>"

definition kv_read_only_from_map :: "type_val emap \<Rightarrow> 's kvstore" where
  "kv_read_only_from_map m =
     \<lparr>m_find = Value (\<lambda>k. act_of (Value (case map_of m k of
        Some v \<Rightarrow> Inr v | None \<Rightarrow> Inl (e_atom ''error'')))),
      m_put = no_clause, m_to_list = Value (act_of (Value m)), m_to_map = Value (act_of (Value m)),
      m_keys = no_clause, m_put_list = no_clause, m_put_map = no_clause,
      m_put_list_cond = no_clause, m_put_map_cond = no_clause, m_clear = no_clause,
      m_remove = no_clause\<rparr>"

definition kv_read_only :: "'s kvstore \<Rightarrow> 's kvstore" where
  "kv_read_only K =
     \<lparr>m_find = m_find K, m_put = no_clause, m_to_list = no_clause, m_to_map = no_clause,
      m_keys = no_clause, m_put_list = no_clause, m_put_map = no_clause,
      m_put_list_cond = no_clause, m_put_map_cond = no_clause, m_clear = no_clause,
      m_remove = no_clause\<rparr>"

text \<open>Two stores as one: that of a key is the first store if it has it.\<close>

definition store_of_key ::
    "'s kvstore \<Rightarrow> 's kvstore \<Rightarrow> ('s kvstore \<Rightarrow> 'f erl) \<Rightarrow> evalue \<Rightarrow> ('s, 'f) act" where
  "store_of_key K0 K1 sel k = act_then (kv_find K0 k) (\<lambda>r.
     act_of (sel (case r of Inr _ \<Rightarrow> K0 | Inl _ \<Rightarrow> K1)))"

definition kv_combined :: "'s kvstore \<Rightarrow> 's kvstore \<Rightarrow> 's kvstore" where
  "kv_combined K0 K1 =
     (let no = (\<lambda>op. E_tuple [e_atom ''kvstore_combined'', e_atom op]) in
      \<lparr>m_find = Value (\<lambda>k. act_then (store_of_key K0 K1 m_find k) (\<lambda>f. f k)),
       m_put = Value (\<lambda>k tv. act_then (store_of_key K0 K1 m_put k) (\<lambda>f. f k tv)),
       m_to_list = Throw (no ''to_list''), m_to_map = Throw (no ''to_map''),
       m_keys = Throw (no ''keys''), m_put_list = Throw (no ''put_list''),
       m_put_map = Throw (no ''put_map''), m_put_list_cond = Throw (no ''put_list_cond''),
       m_put_map_cond = Throw (no ''put_map_cond''), m_clear = Throw (no ''clear''),
       m_remove = Throw (no ''remove'')\<rparr>)"

text \<open>A store under a prefix: keys are pairs. Entries to write are taken whatever their prefix is, and
  entries with other keys are left out; to find another key is an error.\<close>

definition prefix_key :: "evalue \<Rightarrow> evalue \<Rightarrow> evalue" where
  "prefix_key p k = E_tuple [p, k]"

fun unprefixed :: "key_val list \<Rightarrow> key_val list" where
  "unprefixed [] = []"
| "unprefixed ((E_tuple [p, k], tv) # l) = (k, tv) # unprefixed l"
| "unprefixed (e # l) = unprefixed l"

definition kv_prefixed :: "evalue \<Rightarrow> 's kvstore \<Rightarrow> 's kvstore" where
  "kv_prefixed p K =
     (let to_list = act_then (kv_to_list K) (\<lambda>l. act_of (Value (map (\<lambda>(k, tv). (prefix_key p k, tv)) l))) in
      \<lparr>m_find = Value (\<lambda>k0. case k0 of
         E_tuple [pfx, k] \<Rightarrow>
           if pfx = p then kv_find K k else act_of (Value (Inl (not_found_term k0)))
       | _ \<Rightarrow> act_of no_clause),
       m_put = no_clause, m_to_list = Value to_list,
       m_to_map = Value (act_then to_list (\<lambda>l. act_of (Value (maps_from_list l)))),
       m_keys = no_clause, m_put_list = Value (\<lambda>l. kv_put_list K (unprefixed l)),
       m_put_map = no_clause, m_put_list_cond = no_clause, m_put_map_cond = no_clause,
       m_clear = no_clause, m_remove = no_clause\<rparr>)"

text \<open>A subset of the keys as a map, and the text of a value along with it.\<close>

definition kv_to_map_keys :: "'s kvstore \<Rightarrow> evalue list \<Rightarrow> ('s, type_val emap) act" where
  "kv_to_map_keys K ks = act_then (kv_to_list_keys K ks) (\<lambda>l. act_of (Value (maps_from_list l)))"

definition kv_get_type_bin_val ::
    "type_module \<Rightarrow> 's kvstore \<Rightarrow> evalue \<Rightarrow> ('s, evalue \<times> u8 list \<times> evalue) act" where
  "kv_get_type_bin_val tm K k = act_then (kv_get K k) (\<lambda>(T, v).
     act_of (erl_then (tm_encode tm (T, v)) (\<lambda>b. Value (T, b, v))))"

section \<open>A process with a store for its state\<close>

text \<open>The messages of src/obj.erl but for \<open>shutdown\<close>, which ends either process, and the terms
  replied; what is found is the pair of ok and a value. An exception of the function in an update
  ends the process.\<close>

datatype obj_msg =
    Obj_dump
  | Obj_replace "evalue emap"
  | Obj_merge "evalue emap"
  | Obj_remove evalue
  | Obj_find evalue
  | Obj_set evalue evalue
  | Obj_update evalue "evalue \<Rightarrow> evalue erl"
  | Obj_update_map "evalue emap \<Rightarrow> (evalue \<times> evalue emap) erl"

datatype obj_answer = Ans_ok | Ans_map "evalue emap" | Ans_found evalue | Ans_other evalue

fun obj_handle :: "obj_msg \<Rightarrow> evalue emap \<Rightarrow> (obj_answer \<times> evalue emap) erl" where
  "obj_handle Obj_dump m = Value (Ans_map m, m)"
| "obj_handle (Obj_replace m') m = Value (Ans_ok, m')"
| "obj_handle (Obj_merge m1) m0 = Value (Ans_ok, maps_merge m0 m1)"
| "obj_handle (Obj_remove k) m = Value (Ans_ok, AList.delete k m)"
| "obj_handle (Obj_find k) m =
     Value (case map_of m k of Some v \<Rightarrow> Ans_found v | None \<Rightarrow> Ans_other (e_atom ''error''), m)"
| "obj_handle (Obj_set k v) m = Value (Ans_ok, AList.update k v m)"
| "obj_handle (Obj_update k fn) m =
     (case map_of m k of
        None \<Rightarrow> Raise (E_tuple [e_atom ''badkey'', k])
      | Some v \<Rightarrow> erl_then (fn v) (\<lambda>w. Value (Ans_other w, AList.update k w m)))"
| "obj_handle (Obj_update_map fn) m = erl_then (fn m) (\<lambda>(v, s). Value (Ans_other v, s))"

text \<open>The same protocol served from a store: values go there as terms.\<close>

definition pterm_val :: "evalue \<Rightarrow> type_val" where
  "pterm_val v = (e_atom ''pterm'', v)"

definition tag_map :: "evalue emap \<Rightarrow> type_val emap" where
  "tag_map m = map (\<lambda>(k, v). (k, pterm_val v)) m"

definition untag_map :: "type_val emap \<Rightarrow> evalue emap" where
  "untag_map m = map (\<lambda>(k, (_, v)). (k, v)) m"

fun untag_found :: "found \<Rightarrow> obj_answer erl" where
  "untag_found (Inr (_, v)) = Value (Ans_found v)"
| "untag_found (Inl (E_tuple [_, v])) = Value (Ans_other v)"
| "untag_found (Inl e) = (if e = e_atom ''error'' then Value (Ans_other e)
     else Raise (e_atom ''function_clause''))"

fun to_obj_handle :: "'s kvstore \<Rightarrow> obj_msg \<Rightarrow> ('s, obj_answer) act" where
  "to_obj_handle K Obj_dump = act_then (kv_to_map K) (\<lambda>m. act_of (Value (Ans_map (untag_map m))))"
| "to_obj_handle K (Obj_remove k) = act_then (kv_remove K k) (\<lambda>_. act_of (Value Ans_ok))"
| "to_obj_handle K (Obj_find k) = act_then (kv_find K k) (\<lambda>r. act_of (untag_found r))"
| "to_obj_handle K (Obj_set k v) = act_then (kv_put K k (pterm_val v)) (\<lambda>_. act_of (Value Ans_ok))"
| "to_obj_handle K (Obj_replace m) = act_then (kv_clear K) (\<lambda>_.
     act_then (kv_put_map K (tag_map m)) (\<lambda>_. act_of (Value Ans_ok)))"
| "to_obj_handle K (Obj_merge m) = act_then (kv_put_map K (tag_map m)) (\<lambda>_. act_of (Value Ans_ok))"
| "to_obj_handle K (Obj_update k fn) = act_of no_clause"
| "to_obj_handle K (Obj_update_map fn) = act_of no_clause"

text \<open>For a key that is not there an object answers \<open>error\<close>, a store the reason its table gives.
  Every other answer is the same, where a map has no order.\<close>

fun store_answer :: "obj_msg \<Rightarrow> obj_answer \<Rightarrow> obj_answer" where
  "store_answer (Obj_find k) (Ans_other e) = Ans_other (E_tuple [e_atom ''not_found'', k])"
| "store_answer msg a = a"

fun same_answer :: "obj_answer \<Rightarrow> obj_answer \<Rightarrow> bool" where
  "same_answer (Ans_map a) (Ans_map b) = same_map a b"
| "same_answer a b = (a = b)"

text \<open>Messages that a store can serve: keys and values it has room for, one by one and as a whole.\<close>

fun obj_args_ok ::
    "(evalue \<Rightarrow> bool) \<Rightarrow> (evalue \<Rightarrow> type_val \<Rightarrow> bool) \<Rightarrow> obj_msg \<Rightarrow> bool" where
  "obj_args_ok key_ok storable Obj_dump = True"
| "obj_args_ok key_ok storable (Obj_remove k) = key_ok k"
| "obj_args_ok key_ok storable (Obj_find k) = key_ok k"
| "obj_args_ok key_ok storable (Obj_set k v) = storable k (pterm_val v)"
| "obj_args_ok key_ok storable (Obj_replace l) =
     (distinct (map fst l) \<and> (\<forall>(k, v) \<in> set l. storable k (pterm_val v)))"
| "obj_args_ok key_ok storable (Obj_merge l) =
     (distinct (map fst l) \<and> (\<forall>(k, v) \<in> set l. storable k (pterm_val v)))"
| "obj_args_ok key_ok storable (Obj_update k fn) = False"
| "obj_args_ok key_ok storable (Obj_update_map fn) = False"

definition obj_fits ::
    "(evalue \<Rightarrow> bool) \<Rightarrow> (evalue \<Rightarrow> type_val \<Rightarrow> bool) \<Rightarrow> ((evalue \<rightharpoonup> type_val) \<Rightarrow> bool) \<Rightarrow>
      evalue emap \<Rightarrow> obj_msg \<Rightarrow> bool" where
  "obj_fits key_ok storable room ob msg \<longleftrightarrow> obj_args_ok key_ok storable msg \<and>
     (\<forall>ans ob'. obj_handle msg ob = Value (ans, ob') \<longrightarrow> room (map_of (tag_map ob')))"

text \<open>Messages in a row.\<close>

fun obj_run :: "obj_msg list \<Rightarrow> evalue emap \<Rightarrow> (obj_answer list \<times> evalue emap) erl" where
  "obj_run [] ob = Value ([], ob)"
| "obj_run (msg # msgs) ob =
     erl_then (obj_handle msg ob) (\<lambda>(a, ob1).
     erl_then (obj_run msgs ob1) (\<lambda>(as, ob2). Value (a # as, ob2)))"

fun to_obj_run :: "'s kvstore \<Rightarrow> obj_msg list \<Rightarrow> ('s, obj_answer list) act" where
  "to_obj_run K [] = act_of (Value [])"
| "to_obj_run K (msg # msgs) = act_then (to_obj_handle K msg) (\<lambda>a.
     act_then (to_obj_run K msgs) (\<lambda>as. act_of (Value (a # as))))"

fun obj_all_fit ::
    "(evalue \<Rightarrow> bool) \<Rightarrow> (evalue \<Rightarrow> type_val \<Rightarrow> bool) \<Rightarrow> ((evalue \<rightharpoonup> type_val) \<Rightarrow> bool) \<Rightarrow>
      evalue emap \<Rightarrow> obj_msg list \<Rightarrow> bool" where
  "obj_all_fit key_ok storable room ob [] = True"
| "obj_all_fit key_ok storable room ob (msg # msgs) = (obj_fits key_ok storable room ob msg \<and>
     (case obj_handle msg ob of Value (_, ob') \<Rightarrow> obj_all_fit key_ok storable room ob' msgs | _ \<Rightarrow> False))"

definition obj_view :: "(evalue \<rightharpoonup> type_val) \<Rightarrow> evalue \<rightharpoonup> evalue" where
  "obj_view m = (\<lambda>k. map_option snd (m k))"

lemma obj_view_simps [simp]:
  "obj_view Map.empty = Map.empty" "obj_view (m(k \<mapsto> tv)) = (obj_view m)(k \<mapsto> snd tv)"
  "obj_view (m(k := None)) = (obj_view m)(k := None)" "obj_view (m ++ n) = obj_view m ++ obj_view n"
  by (auto simp: obj_view_def fun_eq_iff map_add_def split: option.split)

lemma dom_obj_view: "dom (obj_view m) = dom m"
  by (auto simp: obj_view_def)

lemma map_of_tag: "obj_view (map_of (tag_map m)) = map_of m" "map fst (tag_map m) = map fst m"
  by (induction m) (auto simp: tag_map_def pterm_val_def)

lemma in_tag_map: "(\<forall>(k, tv) \<in> set (tag_map l). P k tv) \<longleftrightarrow> (\<forall>(k, v) \<in> set l. P k (pterm_val v))"
  by (auto simp: tag_map_def)

lemma map_of_untag: "map_of (untag_map l) = obj_view (map_of l)"
  by (induction l) (auto simp: untag_map_def obj_view_def fun_eq_iff)

section \<open>The contracts\<close>

text \<open>Entries: \<open>rep\<close> relates the state to a map, \<open>key_ok\<close> and \<open>storable\<close> are the keys and values a
  store has room for, one by one, and \<open>room\<close> the maps as a whole.\<close>

locale kv_cells =
  fixes K :: "'s kvstore"
    and rep :: "'s \<Rightarrow> (evalue \<rightharpoonup> type_val) \<Rightarrow> bool"
    and key_ok :: "evalue \<Rightarrow> bool"
    and storable :: "evalue \<Rightarrow> type_val \<Rightarrow> bool"
    and room :: "(evalue \<rightharpoonup> type_val) \<Rightarrow> bool"
  assumes find_answers: "rep s m \<Longrightarrow> key_ok k \<Longrightarrow> \<exists>s'. kv_find K k s =
      Some (Value (case m k of Some tv \<Rightarrow> Inr tv | None \<Rightarrow> Inl (not_found_term k)), s') \<and> rep s' m"
    and put_stores: "rep s m \<Longrightarrow> storable k tv \<Longrightarrow> room (m(k \<mapsto> tv)) \<Longrightarrow>
      \<exists>s'. kv_put K k tv s = Some (Value tv, s') \<and> rep s' (m(k \<mapsto> tv))"
begin

lemma get_or_make_found:
  assumes "rep s m" and "key_ok k" and "m k = Some tv"
  shows "\<exists>s'. kv_get_or_make K k mk s = Some (Value tv, s') \<and> rep s' m"
  using find_answers [OF assms(1,2)] assms(3) by (auto simp: kv_get_or_make_def)

lemma get_or_make_missing:
  assumes "rep s m" and "key_ok k" and "m k = None"
  shows "\<exists>s'. kv_get_or_make K k mk s = mk s' \<and> rep s' m"
  using find_answers [OF assms(1,2)] assms(3) by (auto simp: kv_get_or_make_def)

lemma get_answers:
  assumes "rep s m" and "key_ok k"
  shows "\<exists>s'. kv_get K k s =
      Some (case m k of Some tv \<Rightarrow> Value tv | None \<Rightarrow> Throw (not_found_term k), s') \<and> rep s' m"
  using get_or_make_found [OF assms] get_or_make_missing [OF assms, of "kv_not_found k"]
  by (cases "m k") (auto simp: kv_get_def kv_not_found_def)

text \<open>An update puts what the function gives, and puts nothing when it raises an exception.\<close>

lemma update_found:
  assumes "rep s m" and "key_ok k" and "m k = Some tv"
    and "fn tv = Value tv'" and "storable k tv'" and "room (m(k \<mapsto> tv'))"
  shows "\<exists>s'. kv_update K k fn mk s = Some (Value tv', s') \<and> rep s' (m(k \<mapsto> tv'))"
proof -
  obtain s1 where "kv_get_or_make K k mk s = Some (Value tv, s1)" "rep s1 m"
    using get_or_make_found [OF assms(1-3)] by blast
  with put_stores [OF \<open>rep s1 m\<close> assms(5,6)] assms(4) show ?thesis by (simp add: kv_update_def)
qed

lemma update_fails:
  assumes "rep s m" and "key_ok k" and "m k = Some tv" and "fn tv = Throw e"
  shows "\<exists>s'. kv_update K k fn mk s = Some (Throw e, s') \<and> rep s' m"
  using get_or_make_found [OF assms(1-3), of mk] assms(4) by (auto simp: kv_update_def)

lemma with_default_find:
  assumes "rep s m" and "key_ok k"
  shows "\<exists>s'. kv_find (kv_with_default K df) k s =
      Some (case m k of Some tv \<Rightarrow> Value (Inr tv) | None \<Rightarrow> df k, s') \<and> rep s' m"
proof -
  have "kv_find (kv_with_default K df) k = act_then (kv_find K k) (\<lambda>r.
      case r of Inr rv \<Rightarrow> act_of (Value (Inr rv)) | Inl _ \<Rightarrow> act_of (df k))"
    unfolding kv_find_def [of "kv_with_default K df"] by (simp add: kv_with_default_def)
  then show ?thesis using find_answers [OF assms] by (cases "m k") auto
qed

text \<open>\<open>update_val\<close> does with an entry what the message \<open>update\<close> does with a map: the function's
  value is returned and stored.\<close>

lemma update_val_found:
  assumes "rep s m" and "key_ok k" and "m k = Some (T, v)" and "fn v = Value w"
    and "storable k (T, w)" and "room (m(k \<mapsto> (T, w)))"
  shows "\<exists>s'. kv_update_val K k fn mk s = Some (Value w, s') \<and> rep s' (m(k \<mapsto> (T, w)))"
proof -
  obtain s' where "kv_update K k (\<lambda>(T, v). erl_then (fn v) (\<lambda>w. Value (T, w))) mk s = Some (Value (T, w), s')"
    "rep s' (m(k \<mapsto> (T, w)))"
    using update_found [OF assms(1-3) _ assms(5,6), of "\<lambda>(T, v). erl_then (fn v) (\<lambda>w. Value (T, w))" mk] assms(4)
    by auto
  then show ?thesis by (auto simp: kv_update_val_def)
qed

lemma update_val_as_object:
  assumes "rep s m" and "key_ok k" and "m k = Some (T, v)" and "map_of ob = obj_view m"
    and "obj_handle (Obj_update k fn) ob = Value (Ans_other w, ob')" and "storable k (T, w)" and "room (m(k \<mapsto> (T, w)))"
  shows "\<exists>s'. kv_update_val K k fn mk s = Some (Value w, s') \<and>
    rep s' (m(k \<mapsto> (T, w))) \<and> map_of ob' = obj_view (m(k \<mapsto> (T, w)))"
proof -
  have "map_of ob k = Some v" using assms(3,4) by (simp add: obj_view_def)
  then have "fn v = Value w" "ob' = AList.update k w ob"
    using assms(5) by (auto simp: erl_then_Value)
  then show ?thesis
    using update_val_found [OF assms(1-3) _ assms(6,7)] assms(4) by (simp add: update_conv')
qed

text \<open>A store behind a map: the map's entries hide those of the store, and it is not written to.\<close>

lemma combined_find:
  assumes "rep s m" and "key_ok k"
  shows "\<exists>s'. kv_find (kv_combined (kv_read_only_from_map l) K) k s =
      Some (Value (case (m ++ map_of l) k of Some tv \<Rightarrow> Inr tv | None \<Rightarrow> Inl (not_found_term k)), s') \<and>
    rep s' m"
proof -
  have "kv_find (kv_combined (kv_read_only_from_map l) K) k s =
      (case map_of l k of Some tv \<Rightarrow> Some (Value (Inr tv), s) | None \<Rightarrow> kv_find K k s)"
    by (cases "map_of l k"; cases "m_find K")
      (auto simp: kv_find_def kv_combined_def kv_read_only_from_map_def store_of_key_def Let_def act_then_def)
  then show ?thesis
    using find_answers [OF assms] assms(1) by (cases "map_of l k") (auto simp: map_add_def)
qed

lemma prefixed_find:
  assumes "rep s m" and "key_ok k"
  shows "\<exists>s'. kv_find (kv_prefixed p K) (prefix_key q k) s =
      Some (Value (if q = p then (case m k of Some tv \<Rightarrow> Inr tv | None \<Rightarrow> Inl (not_found_term k))
        else Inl (not_found_term (prefix_key q k))), s') \<and> rep s' m"
proof -
  have "kv_find (kv_prefixed p K) (prefix_key q k) =
      (if q = p then kv_find K k else act_of (Value (Inl (not_found_term (prefix_key q k)))))"
    unfolding kv_find_def [of "kv_prefixed p K"] by (simp add: kv_prefixed_def prefix_key_def Let_def fun_eq_iff)
  then show ?thesis using find_answers [OF assms] assms(1) by auto
qed

end

text \<open>A whole store, as the module's functions use it.\<close>

locale kv_store = kv_cells K rep key_ok storable room
  for K :: "'s kvstore" and rep key_ok storable room +
  assumes room_mono: "room m \<Longrightarrow> dom m' \<subseteq> dom m \<Longrightarrow> room m'"
    and to_map_lists: "rep s m \<Longrightarrow> \<exists>s' l. kv_to_map K s = Some (Value l, s') \<and> rep s' m \<and>
      map_of l = m \<and> distinct (map fst l)"
    and put_map_stores: "rep s m \<Longrightarrow> distinct (map fst l) \<Longrightarrow> \<forall>(k, tv) \<in> set l. storable k tv \<Longrightarrow>
      room (m ++ map_of l) \<Longrightarrow> \<exists>s'. kv_put_map K l s = Some (Value (), s') \<and> rep s' (m ++ map_of l)"
    and clear_empties: "rep s m \<Longrightarrow> \<exists>s'. kv_clear K s = Some (Value (), s') \<and> rep s' Map.empty"
    and remove_deletes: "rep s m \<Longrightarrow> key_ok k \<Longrightarrow>
      \<exists>s'. kv_remove K k s = Some (Value (), s') \<and> rep s' (m(k := None))"
    and rep_room: "rep s m \<Longrightarrow> room m"
    and rep_storable: "rep s m \<Longrightarrow> m k = Some tv \<Longrightarrow> storable k tv"
begin

text \<open>\<open>init\<close> adds the defaults of the keys that are not there, and writes only then.\<close>

lemma init_merges:
  assumes "rep s m" and "distinct (map fst defaults)"
    and "\<forall>(k, tv) \<in> set defaults. storable k tv" and "room (map_of defaults ++ m)"
  shows "\<exists>s' new. kv_init K defaults s = Some (Value new, s') \<and> map_of new = map_of defaults ++ m \<and>
    distinct (map fst new) \<and> rep s' (map_of defaults ++ m)"
proof -
  obtain s1 old where old: "kv_to_map K s = Some (Value old, s1)" "rep s1 m" "map_of old = m"
    "distinct (map fst old)"
    using to_map_lists [OF assms(1)] by blast
  let ?new = "maps_merge defaults old"
  have new: "map_of ?new = map_of defaults ++ m" "distinct (map fst ?new)"
    using foldl_update [of defaults old] assms(2) old(3,4) by (simp_all add: maps_merge_def map_of_rev)
  show ?thesis
  proof (cases "same_map ?new old")
    case True
    then have "map_of defaults ++ m = m" using new(1) old(3) by (simp add: same_map_iff)
    with True old new show ?thesis by (auto simp: kv_init_def Let_def)
  next
    case False
    have "storable k tv" if "(k, tv) \<in> set ?new" for k tv
    proof -
      have "map_of ?new k = Some tv" using that new(2) by simp
      then have "m k = Some tv \<or> map_of defaults k = Some tv" by (auto simp: new(1) map_add_Some_iff)
      then show ?thesis
      proof
        assume "m k = Some tv"
        then show ?thesis by (rule rep_storable [OF old(2)])
      next
        assume "map_of defaults k = Some tv"
        then show ?thesis using assms(3) by (auto dest: map_of_SomeD)
      qed
    qed
    then have "\<forall>(k, tv) \<in> set ?new. storable k tv" by blast
    moreover have "m ++ map_of ?new = map_of defaults ++ m"
      by (auto simp: new(1) map_add_def fun_eq_iff split: option.split)
    ultimately obtain s2 where "kv_put_map K ?new s1 = Some (Value (), s2)"
      "rep s2 (map_of defaults ++ m)"
      using put_map_stores [OF old(2) new(2)] assms(4) by auto
    with False old new show ?thesis by (auto simp: kv_init_def Let_def)
  qed
qed

text \<open>A store serves the messages of an object as the map that it holds would.\<close>

lemma obj_served:
  assumes "rep s m" and "map_of ob = obj_view m" and "distinct (map fst ob)"
    and "obj_handle msg ob = Value (ans, ob')"
    and "obj_fits key_ok storable room ob msg"
  shows "\<exists>s' m' ans'. to_obj_handle K msg s = Some (Value ans', s') \<and>
    same_answer (store_answer msg ans) ans' \<and>
    rep s' m' \<and> map_of ob' = obj_view m' \<and> distinct (map fst ob')"
proof -
  have args: "obj_args_ok key_ok storable msg" using assms(5) by (simp add: obj_fits_def)
  have room: "room m'" if "map_of ob' = obj_view m'" for m'
  proof (rule room_mono)
    show "room (map_of (tag_map ob'))" using assms(4,5) by (simp add: obj_fits_def)
    have "dom (map_of (tag_map ob')) = dom m'"
      using that by (metis dom_obj_view map_of_tag(1))
    then show "dom m' \<subseteq> dom (map_of (tag_map ob'))" by simp
  qed
  show ?thesis
  proof (cases msg)
    case Obj_dump
    obtain s1 l where "kv_to_map K s = Some (Value l, s1)" "rep s1 m" "map_of l = m"
      using to_map_lists [OF assms(1)] by blast
    with Obj_dump assms(2-4) show ?thesis by (auto simp: same_map_iff map_of_untag)
  next
    case (Obj_remove k)
    obtain s1 where "kv_remove K k s = Some (Value (), s1)" "rep s1 (m(k := None))"
      using remove_deletes [OF assms(1)] args Obj_remove by auto
    with Obj_remove assms(2-4) show ?thesis by (auto simp: delete_conv' distinct_delete)
  next
    case (Obj_find k)
    obtain s1 where "kv_find K k s =
        Some (Value (case m k of Some tv \<Rightarrow> Inr tv | None \<Rightarrow> Inl (not_found_term k)), s1)" "rep s1 m"
      using find_answers [OF assms(1)] args Obj_find by auto
    with Obj_find assms(2-4) show ?thesis
      by (cases "m k") (auto simp: obj_view_def not_found_term_def)
  next
    case (Obj_set k v)
    then have "room (m(k \<mapsto> pterm_val v))"
      using room [of "m(k \<mapsto> pterm_val v)"] assms(2,4) by (auto simp: update_conv' pterm_val_def)
    then obtain s1 where "kv_put K k (pterm_val v) s = Some (Value (pterm_val v), s1)"
      "rep s1 (m(k \<mapsto> pterm_val v))"
      using put_stores [OF assms(1), of k "pterm_val v"] args Obj_set by auto
    with Obj_set assms(2-4) show ?thesis by (auto simp: update_conv' distinct_update pterm_val_def)
  next
    case (Obj_merge l)
    have d: "distinct (map fst l)" using args Obj_merge by simp
    have ob': "map_of ob' = obj_view (m ++ map_of (tag_map l))" "distinct (map fst ob')"
      using Obj_merge assms(2-4) foldl_update [of ob l] d
      by (auto simp: maps_merge_def map_of_tag map_of_rev)
    have l: "distinct (map fst (tag_map l))" "\<forall>(k, tv) \<in> set (tag_map l). storable k tv"
      using args Obj_merge by (simp_all add: map_of_tag(2) in_tag_map)
    obtain s1 where "kv_put_map K (tag_map l) s = Some (Value (), s1)" "rep s1 (m ++ map_of (tag_map l))"
      using put_map_stores [OF assms(1) l room [OF ob'(1)]] by blast
    with Obj_merge ob' assms(4) show ?thesis by auto
  next
    case (Obj_replace l)
    have l: "distinct (map fst (tag_map l))" "\<forall>(k, tv) \<in> set (tag_map l). storable k tv"
      using args Obj_replace by (simp_all add: map_of_tag(2) in_tag_map)
    have ob': "map_of ob' = obj_view (Map.empty ++ map_of (tag_map l))" "distinct (map fst ob')"
      using Obj_replace args assms(4) by (auto simp: map_of_tag)
    obtain s0 where s0: "kv_clear K s = Some (Value (), s0)" "rep s0 Map.empty"
      using clear_empties [OF assms(1)] by blast
    then obtain s1 where s1: "kv_put_map K (tag_map l) s0 = Some (Value (), s1)"
      "rep s1 (Map.empty ++ map_of (tag_map l))"
      using put_map_stores [OF s0(2) l room [OF ob'(1)]] by blast
    with Obj_replace ob' assms(4) s0 show ?thesis by auto
  qed (use args in simp_all)
qed

lemma obj_session:
  assumes "rep s m" and "map_of ob = obj_view m" and "distinct (map fst ob)"
    and "obj_run msgs ob = Value (as, ob')" and "obj_all_fit key_ok storable room ob msgs"
  shows "\<exists>s' m' bs. to_obj_run K msgs s = Some (Value bs, s') \<and>
    list_all2 same_answer (map2 store_answer msgs as) bs \<and> rep s' m' \<and> map_of ob' = obj_view m'"
  using assms
proof (induction msgs arbitrary: s m ob as)
  case Nil
  then show ?case by auto
next
  case (Cons msg msgs)
  obtain a ob1 as1 where h: "obj_handle msg ob = Value (a, ob1)"
    and r: "obj_run msgs ob1 = Value (as1, ob')" "as = a # as1"
    using Cons.prems(4) by (auto simp: erl_then_Value)
  have "obj_fits key_ok storable room ob msg" using Cons.prems(5) by simp
  then obtain s1 m1 b where s1: "to_obj_handle K msg s = Some (Value b, s1)"
    "same_answer (store_answer msg a) b" "rep s1 m1" "map_of ob1 = obj_view m1" "distinct (map fst ob1)"
    using obj_served [OF Cons.prems(1-3) h] by blast
  have "obj_all_fit key_ok storable room ob1 msgs" using Cons.prems(5) h by simp
  then obtain s2 m2 bs where "to_obj_run K msgs s1 = Some (Value bs, s2)"
    "list_all2 same_answer (map2 store_answer msgs as1) bs" "rep s2 m2" "map_of ob' = obj_view m2"
    using Cons.IH [OF s1(3-5) r(1)] by blast
  with s1(1,2) r(2) show ?case by auto
qed

end

text \<open>An update message has no clause in the process with a store: it ends there.\<close>

fun is_update :: "obj_msg \<Rightarrow> bool" where
  "is_update (Obj_update k fn) = True"
| "is_update (Obj_update_map fn) = True"
| "is_update msg = False"

lemma update_not_served:
  assumes "to_obj_run K msgs s = Some (Value as, s')" and "is_update upd"
  shows "to_obj_run K (msgs @ upd # rest) s = Some (no_clause, s')"
  using assms(1)
proof (induction msgs arbitrary: s as)
  case Nil
  then show ?case using assms(2) by (cases upd) (simp_all add: no_clause_def)
next
  case (Cons msg msgs)
  then show ?case
    by (auto simp: act_then_def no_clause_def split: option.splits prod.splits erl.splits)
qed

section \<open>Keys with a prefix\<close>

text \<open>What a store under a prefix lists, it can be given back: the prefix comes off again.\<close>

lemma unprefixed_prefix: "unprefixed (map (\<lambda>(k, tv). (prefix_key p k, tv)) l) = l"
  by (induction l) (auto simp: prefix_key_def)

section \<open>A store that cannot be listed\<close>

text \<open>The store of \<open>zero\<close> is meant as the empty one; but to list it is an error.\<close>

lemma zero_cannot_be_listed:
  "kv_find kv_zero k s = Some (Value (Inl (E_tuple [e_atom ''error'', e_atom ''zero''])), s)"
  "kv_to_list kv_zero s = Some (Raise (E_tuple [e_atom ''badfun'', E_nil]), s)"
  "kv_keys kv_zero s = Some (Raise (E_tuple [e_atom ''badfun'', E_nil]), s)"
  by (simp_all add: kv_find_def kv_to_list_def kv_keys_def kv_zero_def Let_def)

end
