(* ===== verification/Erl_Sqlkv.thy ===== *)
theory Erl_Sqlkv
  imports Erl_Kvstore
begin

text \<open>
  The key value store in an SQLite table, src/sqlite3_kvstore.erl, over the client of
  src/sqlite3.erl and with it over the C program. A table has a row of three texts for a key: the
  key, the type and the value as type\_base.erl encodes them. What SQLite does with the statements
  used here is the locale \<open>sql_table\<close>, an abstract table with a transaction on top; in the last
  part it is discharged for the C program, from what \<open>sqlite_table\<close> says of the library.
\<close>

section \<open>Queries\<close>

text \<open>Names go into the text between quotes; a key is tagged as text, a row to write is not
  tagged.\<close>

definition quoted :: "u8 list \<Rightarrow> u8 list" where
  "quoted name = 39 # name @ [39]"

definition find_query :: "u8 list \<Rightarrow> u8 list \<Rightarrow> sql_query" where
  "find_query name k = (bytes_of ''select type,val from '' @ quoted name @ bytes_of '' where var = ?'',
     [(Some Bind_text, k)])"

definition load_query :: "u8 list \<Rightarrow> sql_query" where
  "load_query name = (bytes_of ''select var,type,val from '' @ quoted name, [])"

definition keys_query :: "u8 list \<Rightarrow> sql_query" where
  "keys_query name = (bytes_of ''select var from '' @ quoted name, [])"

definition put_query :: "u8 list \<Rightarrow> u8 list list \<Rightarrow> sql_query" where
  "put_query name cols = (bytes_of ''insert or replace into '' @ quoted name @
     bytes_of '' (var,type,val) values (?,?,?)'', map (\<lambda>b. (None, b)) cols)"

definition clear_query :: "u8 list \<Rightarrow> sql_query" where
  "clear_query name = (bytes_of ''delete from '' @ quoted name, [])"

definition remove_query :: "u8 list \<Rightarrow> u8 list \<Rightarrow> sql_query" where
  "remove_query name k = (bytes_of ''delete from '' @ quoted name @ bytes_of '' where var = ?'',
     [(Some Bind_text, k)])"

definition init_query :: "u8 list \<Rightarrow> sql_query" where
  "init_query name = (bytes_of ''create table if not exists '' @ quoted name @
     bytes_of '' (var, type, val, primary key (var))'', [])"

definition drop_query :: "u8 list \<Rightarrow> sql_query" where
  "drop_query name = (bytes_of ''drop table if exists '' @ quoted name, [])"

section \<open>The client's calls\<close>

text \<open>\<open>sqlite3:sql\<close> and \<open>sqlite3:sql_transaction\<close>, over the function that runs a query.\<close>

definition sqlite3_sql :: "'s runner \<Rightarrow> unit tx_step list \<Rightarrow> ('s, evalue list list) act" where
  "sqlite3_sql run qs s =
     (case run_transaction run qs () s of
        None \<Rightarrow> None
      | Some (Tables ts, s') \<Rightarrow> Some (Value ts, s')
      | Some (Tx_error e, s') \<Rightarrow> Some (Throw e, s'))"

definition sqlite3_sql_transaction ::
    "'s runner \<Rightarrow> unit tx_step list \<Rightarrow> ('s, evalue + evalue list list) act" where
  "sqlite3_sql_transaction run qs s =
     (case run_transaction run qs () s of
        None \<Rightarrow> None
      | Some (r, s') \<Rightarrow>
          (case sql_transaction r of
             Some x \<Rightarrow> Some (Value x, s')
           | None \<Rightarrow> (case r of Tx_error e \<Rightarrow> Some (Throw e, s') | Tables ts \<Rightarrow> None)))"

definition table_sql :: "'s runner \<Rightarrow> sql_query \<Rightarrow> ('s, evalue list) act" where
  "table_sql run q = act_then (sqlite3_sql run [Tx_query q]) (\<lambda>ts.
     act_of (case ts of [rows] \<Rightarrow> Value rows | _ \<Rightarrow> badmatch))"

text \<open>The match of a result with the empty list.\<close>

definition no_rows :: "'a \<Rightarrow> evalue list \<Rightarrow> ('s, 'a) act" where
  "no_rows a rows = act_of (if rows = [] then Value a else badmatch)"

section \<open>Tables\<close>

record table_spec =
  t_syntax :: erl_syntax
  t_others :: more_types
  t_mod :: type_module
  t_table :: evalue

definition table_name :: "erl_syntax \<Rightarrow> evalue \<Rightarrow> u8 list erl" where
  "table_name syn t =
     (case t of
        E_atom a \<Rightarrow> Value a
      | E_tuple [E_atom a, E_int n] \<Rightarrow>
          Value (bytes_of ''{'' @ pp syn (E_atom a) @ bytes_of '','' @ pp syn (E_int n) @ bytes_of ''}'')
      | _ \<Rightarrow> no_clause)"

definition spec_name :: "table_spec \<Rightarrow> u8 list erl" where
  "spec_name sp = table_name (t_syntax sp) (t_table sp)"

definition spec_key :: "table_spec \<Rightarrow> evalue \<Rightarrow> u8 list erl" where
  "spec_key sp = encode_key (t_syntax sp) (t_others sp)"

definition spec_ktv :: "table_spec \<Rightarrow> key_val \<Rightarrow> u8 list list erl" where
  "spec_ktv sp = encode_ktv (t_syntax sp) (t_others sp) (t_mod sp)"

definition spec_row :: "table_spec \<Rightarrow> evalue \<Rightarrow> key_val erl" where
  "spec_row sp = decode_ktv (t_syntax sp) (t_others sp) (t_mod sp)"

definition op_find :: "'s runner \<Rightarrow> table_spec \<Rightarrow> (evalue \<Rightarrow> ('s, found) act) erl" where
  "op_find run sp = erl_then (spec_name sp) (\<lambda>name. Value (\<lambda>k.
     act_then (act_of (spec_key sp k)) (\<lambda>bk.
     act_then (table_sql run (find_query name bk)) (\<lambda>rows.
       case rows of
         [] \<Rightarrow> act_of (Value (Inl (not_found_term k)))
       | [E_cons a (E_cons b E_nil)] \<Rightarrow>
           act_then (act_of (decode_tv (t_syntax sp) (t_others sp) (t_mod sp) (E_cons a (E_cons b E_nil))))
             (\<lambda>tv. act_of (Value (Inr tv)))
       | _ \<Rightarrow> act_of (Raise (e_atom ''case_clause''))))))"

definition op_to_list :: "'s runner \<Rightarrow> table_spec \<Rightarrow> ('s, key_val list) act erl" where
  "op_to_list run sp = erl_then (spec_name sp) (\<lambda>name. Value (
     act_then (table_sql run (load_query name)) (\<lambda>rows. act_of (erl_map (spec_row sp) rows))))"

definition op_to_map :: "'s runner \<Rightarrow> table_spec \<Rightarrow> ('s, type_val emap) act erl" where
  "op_to_map run sp = erl_then (op_to_list run sp) (\<lambda>to_list. Value (
     act_then to_list (\<lambda>l. act_of (Value (maps_from_list l)))))"

text \<open>The keys; a comprehension passes over rows of another form.\<close>

fun keys_of :: "table_spec \<Rightarrow> evalue list \<Rightarrow> evalue list erl" where
  "keys_of sp [] = Value []"
| "keys_of sp (row # rows) =
     (case row of
        E_cons x E_nil \<Rightarrow>
          erl_then (case x of E_binary b \<Rightarrow> decode_key (t_syntax sp) (t_others sp) b | _ \<Rightarrow> no_clause)
            (\<lambda>k. erl_then (keys_of sp rows) (\<lambda>ks. Value (k # ks)))
      | _ \<Rightarrow> keys_of sp rows)"

definition op_keys :: "'s runner \<Rightarrow> table_spec \<Rightarrow> ('s, evalue list) act erl" where
  "op_keys run sp = erl_then (spec_name sp) (\<lambda>name. Value (
     act_then (table_sql run (keys_query name)) (\<lambda>rows. act_of (keys_of sp rows))))"

definition op_qput :: "table_spec \<Rightarrow> (key_val \<Rightarrow> sql_query erl) erl" where
  "op_qput sp = erl_then (spec_name sp) (\<lambda>name. Value (\<lambda>ktv.
     erl_then (spec_ktv sp ktv) (\<lambda>cols. Value (put_query name cols))))"

definition op_put :: "'s runner \<Rightarrow> table_spec \<Rightarrow> (evalue \<Rightarrow> type_val \<Rightarrow> ('s, type_val) act) erl" where
  "op_put run sp = Value (\<lambda>k tv.
     act_then (act_of (op_qput sp)) (\<lambda>qput.
     act_then (act_of (qput (k, tv))) (\<lambda>q.
     act_then (table_sql run q) (no_rows tv))))"

text \<open>The result of a transaction: ok, or the error is thrown with the name of the method.\<close>

definition ok_or_throw :: "string \<Rightarrow> evalue + evalue list list \<Rightarrow> ('s, unit) act" where
  "ok_or_throw op r = act_of (case r of Inr _ \<Rightarrow> Value () | Inl e \<Rightarrow> Throw (E_tuple [e_atom op, e]))"

definition op_put_list :: "'s runner \<Rightarrow> table_spec \<Rightarrow> (key_val list \<Rightarrow> ('s, unit) act) erl" where
  "op_put_list run sp = erl_then (op_qput sp) (\<lambda>qput. Value (\<lambda>l.
     act_then (act_of (erl_map qput l)) (\<lambda>qs.
     act_then (sqlite3_sql_transaction run (map Tx_query qs)) (ok_or_throw ''put_list''))))"

text \<open>The check is called in the server, with what the table holds by then.\<close>

definition load_check :: "table_spec \<Rightarrow> (key_val list \<Rightarrow> check_answer) \<Rightarrow> evalue list list \<Rightarrow> check_answer" where
  "load_check sp check acc =
     (case acc of
        [] \<Rightarrow> Check_crash
      | rows # _ \<Rightarrow> (case erl_map (spec_row sp) rows of Value l \<Rightarrow> check l | _ \<Rightarrow> Check_crash))"

definition op_put_list_cond ::
    "'s runner \<Rightarrow> table_spec \<Rightarrow> (key_val list \<Rightarrow> (key_val list \<Rightarrow> check_answer) \<Rightarrow> ('s, unit) act) erl" where
  "op_put_list_cond run sp = erl_then (op_qput sp) (\<lambda>qput. erl_then (spec_name sp) (\<lambda>name.
     Value (\<lambda>l check.
       act_then (act_of (erl_map qput l)) (\<lambda>qs.
       act_then (sqlite3_sql_transaction run
           (map Tx_query qs @ [Tx_query (load_query name), Tx_check (load_check sp check)]))
         (ok_or_throw ''put_list_cond'')))))"

definition op_put_map :: "'s runner \<Rightarrow> table_spec \<Rightarrow> (type_val emap \<Rightarrow> ('s, unit) act) erl" where
  "op_put_map run sp = op_put_list run sp"

definition op_put_map_cond ::
    "'s runner \<Rightarrow> table_spec \<Rightarrow> (type_val emap \<Rightarrow> (type_val emap \<Rightarrow> check_answer) \<Rightarrow> ('s, unit) act) erl" where
  "op_put_map_cond run sp = erl_then (op_put_list_cond run sp) (\<lambda>put_list_cond.
     Value (\<lambda>m check. put_list_cond m (\<lambda>l. check (maps_from_list l))))"

definition op_clear :: "'s runner \<Rightarrow> table_spec \<Rightarrow> ('s, unit) act erl" where
  "op_clear run sp = erl_then (spec_name sp) (\<lambda>name. Value (
     act_then (table_sql run (clear_query name)) (no_rows ())))"

definition op_remove :: "'s runner \<Rightarrow> table_spec \<Rightarrow> (evalue \<Rightarrow> ('s, unit) act) erl" where
  "op_remove run sp = erl_then (spec_name sp) (\<lambda>name. Value (\<lambda>k.
     act_then (act_of (spec_key sp k)) (\<lambda>bk.
     act_then (table_sql run (remove_query name bk)) (no_rows ()))))"

text \<open>The store with its methods looked up one by one (\<open>table_op\<close>), and the one of
  \<open>existing_table\<close>, which has no conditional methods.\<close>

definition table_store :: "'s runner \<Rightarrow> table_spec \<Rightarrow> 's kvstore" where
  "table_store run sp =
     \<lparr>m_find = op_find run sp, m_put = op_put run sp, m_to_list = op_to_list run sp,
      m_to_map = op_to_map run sp, m_keys = op_keys run sp, m_put_list = op_put_list run sp,
      m_put_map = op_put_map run sp, m_put_list_cond = op_put_list_cond run sp,
      m_put_map_cond = op_put_map_cond run sp, m_clear = op_clear run sp,
      m_remove = op_remove run sp\<rparr>"

definition existing_table :: "'s runner \<Rightarrow> table_spec \<Rightarrow> 's kvstore" where
  "existing_table run sp =
     (table_store run sp)\<lparr>m_put_list_cond := no_clause, m_put_map_cond := no_clause\<rparr>"

definition table_init :: "'s runner \<Rightarrow> table_spec \<Rightarrow> ('s, unit) act" where
  "table_init run sp = act_then (act_of (spec_name sp)) (\<lambda>name.
     act_then (table_sql run (init_query name)) (no_rows ()))"

definition table_delete :: "'s runner \<Rightarrow> table_spec \<Rightarrow> ('s, evalue list) act" where
  "table_delete run sp = act_then (act_of (spec_name sp)) (\<lambda>name. table_sql run (drop_query name))"

definition open_table :: "'s runner \<Rightarrow> table_spec \<Rightarrow> ('s, 's kvstore) act" where
  "open_table run sp = act_then (table_init run sp) (\<lambda>_. act_of (Value (existing_table run sp)))"

section \<open>Tables of texts\<close>

type_synonym ktable = "u8 list \<rightharpoonup> u8 list \<times> u8 list"

text \<open>An entry and its row: it is written so and read back so.\<close>

definition row_of :: "table_spec \<Rightarrow> evalue \<Rightarrow> type_val \<Rightarrow> u8 list \<Rightarrow> u8 list \<times> u8 list \<Rightarrow> bool" where
  "row_of sp k tv bk row \<longleftrightarrow> spec_ktv sp (k, tv) = Value [bk, fst row, snd row] \<and>
     spec_row sp (binary_row [bk, fst row, snd row]) = Value (k, tv)"

lemma row_of_key: "row_of sp k tv bk row \<Longrightarrow> spec_key sp k = Value bk"
  by (cases tv) (auto simp: row_of_def spec_ktv_def spec_key_def encode_ktv_Value)

lemma row_of_tv:
  "row_of sp k tv bk row \<Longrightarrow>
    decode_tv (t_syntax sp) (t_others sp) (t_mod sp) (binary_row [fst row, snd row]) = Value tv"
  by (auto simp: row_of_def spec_row_def erl_then_Value simp del: decode_tv.simps)

text \<open>A table holds a map.\<close>

definition holds_map :: "table_spec \<Rightarrow> ktable \<Rightarrow> (evalue \<rightharpoonup> type_val) \<Rightarrow> bool" where
  "holds_map sp t m \<longleftrightarrow>
     (\<forall>k tv. m k = Some tv \<longrightarrow> (\<exists>bk row. row_of sp k tv bk row \<and> t bk = Some row)) \<and>
     (\<forall>bk row. t bk = Some row \<longrightarrow> (\<exists>k tv. m k = Some tv \<and> row_of sp k tv bk row))"

lemma holds_entry:
  "holds_map sp t m \<Longrightarrow> m k = Some tv \<Longrightarrow> \<exists>bk row. row_of sp k tv bk row \<and> t bk = Some row"
  unfolding holds_map_def by blast

lemma holds_row:
  "holds_map sp t m \<Longrightarrow> t bk = Some row \<Longrightarrow> \<exists>k tv. m k = Some tv \<and> row_of sp k tv bk row"
  unfolding holds_map_def by blast

lemma spec_key_unique: "spec_key sp k = Value b \<Longrightarrow> spec_key sp k' = Value b \<Longrightarrow> k' = k"
  unfolding spec_key_def by (rule key_unique)

lemma holds_empty: "holds_map sp Map.empty Map.empty"
  by (simp add: holds_map_def)

lemma holds_lookup:
  assumes "holds_map sp t m" and "spec_key sp k = Value bk"
  shows "case m k of None \<Rightarrow> t bk = None | Some tv \<Rightarrow> \<exists>row. t bk = Some row \<and> row_of sp k tv bk row"
proof (cases "m k")
  case None
  have "t bk \<noteq> Some row" for row
  proof
    assume "t bk = Some row"
    then obtain k' tv where k': "m k' = Some tv" "row_of sp k' tv bk row"
      using holds_row [OF assms(1)] by blast
    then have "k' = k" using spec_key_unique [OF assms(2)] row_of_key by blast
    with k' None show False by simp
  qed
  with None show ?thesis by (cases "t bk") auto
next
  case (Some tv)
  then obtain bk' row where r: "row_of sp k tv bk' row" "t bk' = Some row"
    using holds_entry [OF assms(1)] by blast
  with row_of_key [OF r(1)] assms(2) Some show ?thesis by auto
qed

lemma holds_update:
  assumes "holds_map sp t m" and "row_of sp k tv bk row"
  shows "holds_map sp (t(bk \<mapsto> row)) (m(k \<mapsto> tv))"
proof -
  have key: "spec_key sp k' = Value bk \<longleftrightarrow> k' = k" for k'
    using row_of_key [OF assms(2)] spec_key_unique by auto
  have "\<exists>bk' row'. row_of sp k' tv' bk' row' \<and> (t(bk \<mapsto> row)) bk' = Some row'"
    if "(m(k \<mapsto> tv)) k' = Some tv'" for k' tv'
  proof (cases "k' = k")
    case True
    with that assms(2) show ?thesis by (intro exI [of _ bk] exI [of _ row]) simp
  next
    case False
    with that have "m k' = Some tv'" by simp
    then obtain bk' row' where "row_of sp k' tv' bk' row'" "t bk' = Some row'"
      using holds_entry [OF assms(1)] by blast
    with False key [of k'] row_of_key [of sp k' tv' bk' row'] show ?thesis
      by (intro exI [of _ bk'] exI [of _ row']) auto
  qed
  moreover have "\<exists>k' tv'. (m(k \<mapsto> tv)) k' = Some tv' \<and> row_of sp k' tv' bk' row'"
    if "(t(bk \<mapsto> row)) bk' = Some row'" for bk' row'
  proof (cases "bk' = bk")
    case True
    with that assms(2) show ?thesis by (intro exI [of _ k] exI [of _ tv]) simp
  next
    case False
    with that have "t bk' = Some row'" by simp
    then obtain k' tv' where "m k' = Some tv'" "row_of sp k' tv' bk' row'"
      using holds_row [OF assms(1)] by blast
    with False row_of_key [OF assms(2)] row_of_key [of sp k' tv' bk' row'] show ?thesis
      by (intro exI [of _ k'] exI [of _ tv']) auto
  qed
  ultimately show ?thesis unfolding holds_map_def by blast
qed

lemma holds_delete:
  assumes "holds_map sp t m" and "spec_key sp k = Value bk"
  shows "holds_map sp (t(bk := None)) (m(k := None))"
proof -
  have "\<exists>bk' row. row_of sp k' tv bk' row \<and> (t(bk := None)) bk' = Some row"
    if "(m(k := None)) k' = Some tv" for k' tv
  proof -
    have k': "m k' = Some tv" "k' \<noteq> k" using that by (auto split: if_splits)
    obtain bk' row where r: "row_of sp k' tv bk' row" "t bk' = Some row"
      using holds_entry [OF assms(1) k'(1)] by blast
    have "bk' \<noteq> bk" using row_of_key [OF r(1)] spec_key_unique [OF assms(2)] k'(2) by blast
    with r show ?thesis by (intro exI [of _ bk'] exI [of _ row]) simp
  qed
  moreover have "\<exists>k' tv. (m(k := None)) k' = Some tv \<and> row_of sp k' tv bk' row"
    if "(t(bk := None)) bk' = Some row" for bk' row
  proof -
    have b: "t bk' = Some row" "bk' \<noteq> bk" using that by (auto split: if_splits)
    obtain k' tv where r: "m k' = Some tv" "row_of sp k' tv bk' row"
      using holds_row [OF assms(1) b(1)] by blast
    have "k' \<noteq> k" using row_of_key [OF r(2)] assms(2) b(2) by auto
    with r show ?thesis by (intro exI [of _ k'] exI [of _ tv]) simp
  qed
  ultimately show ?thesis unfolding holds_map_def by blast
qed

lemma holds_card:
  assumes "holds_map sp t m" and "finite (dom m)"
  shows "finite (dom t)" and "card (dom t) \<le> card (dom m)"
proof -
  let ?f = "\<lambda>k. case spec_key sp k of Value b \<Rightarrow> b | _ \<Rightarrow> []"
  have "dom t \<subseteq> ?f ` dom m"
  proof
    fix bk assume "bk \<in> dom t"
    then obtain row where "t bk = Some row" by auto
    then obtain k tv where "m k = Some tv" "row_of sp k tv bk row"
      using holds_row [OF assms(1)] by blast
    then show "bk \<in> ?f ` dom m" using row_of_key [of sp k tv bk row] by force
  qed
  moreover have "finite (?f ` dom m)" using assms(2) by simp
  ultimately show "finite (dom t)" "card (dom t) \<le> card (dom m)"
    using card_image_le [OF assms(2), of ?f] by (blast intro: finite_subset order_trans card_mono)+
qed

text \<open>Reading all rows gives all entries, and their keys.\<close>

definition table_row :: "u8 list \<times> u8 list \<times> u8 list \<Rightarrow> evalue" where
  "table_row = (\<lambda>(k, t, v). binary_row [k, t, v])"

definition rows_hold :: "table_spec \<Rightarrow> (evalue \<rightharpoonup> type_val) \<Rightarrow> (u8 list \<times> u8 list \<times> u8 list) list \<Rightarrow>
    (evalue \<times> type_val) list \<Rightarrow> bool" where
  "rows_hold sp m rs l \<longleftrightarrow>
     list_all2 (\<lambda>r e. m (fst e) = Some (snd e) \<and> row_of sp (fst e) (snd e) (fst r) (snd r)) rs l"

lemma rows_hold_ex:
  assumes "holds_map sp t m" and "map_of rs = t" and "distinct (map fst rs)"
  shows "\<exists>l. rows_hold sp m rs l"
proof -
  have "\<exists>e. m (fst e) = Some (snd e) \<and> row_of sp (fst e) (snd e) (fst r) (snd r)" if "r \<in> set rs" for r
  proof -
    have "t (fst r) = Some (snd r)" using that assms(2,3) by (simp flip: assms(2))
    then obtain k tv where "m k = Some tv" "row_of sp k tv (fst r) (snd r)"
      using holds_row [OF assms(1)] by blast
    then show ?thesis by (intro exI [of _ "(k, tv)"]) simp
  qed
  then show ?thesis unfolding rows_hold_def
  proof (induction rs)
    case (Cons r rs)
    then show ?case by (auto simp: list_all2_Cons1)
  qed (auto intro: exI [of _ "[]"])
qed

lemma rows_hold_decoded:
  assumes "rows_hold sp m rs l"
  shows "erl_map (spec_row sp) (map table_row rs) = Value l"
proof -
  have "list_all2 (\<lambda>x y. spec_row sp x = Value y) (map table_row rs) l"
    using assms by (auto simp: rows_hold_def list_all2_map1 table_row_def row_of_def elim!: list_all2_mono
        split: prod.splits)
  then show ?thesis by (simp add: erl_map_Value)
qed

lemma rows_hold_distinct:
  assumes "rows_hold sp m rs l" and "distinct (map fst rs)"
  shows "distinct (map fst l)"
proof -
  have "map (spec_key sp) (map fst l) = map Value (map fst rs)"
    using assms(1) unfolding rows_hold_def by (induction rule: list_all2_induct) (auto dest: row_of_key)
  moreover have "distinct (map Value (map fst rs))"
    using assms(2) by (simp add: distinct_map inj_on_def)
  ultimately have "distinct (map (spec_key sp) (map fst l))" by simp
  then show ?thesis by (simp only: distinct_map)
qed

lemma rows_hold_map:
  assumes "holds_map sp t m" and "map_of rs = t" and "rows_hold sp m rs l" and "distinct (map fst l)"
  shows "map_of l = m"
proof
  fix k
  note l = assms(3) [unfolded rows_hold_def]
  have "map_of l k = Some tv \<longleftrightarrow> m k = Some tv" for tv
  proof
    assume "map_of l k = Some tv"
    then have "(k, tv) \<in> set l" by (rule map_of_SomeD)
    with l show "m k = Some tv" by (auto simp: list_all2_conv_all_nth in_set_conv_nth)
  next
    assume "m k = Some tv"
    then obtain bk row where r: "row_of sp k tv bk row" "t bk = Some row"
      using holds_entry [OF assms(1)] by blast
    then have "(bk, row) \<in> set rs" using assms(2) map_of_SomeD by fastforce
    then obtain i where "i < length rs" "rs ! i = (bk, row)" by (auto simp: in_set_conv_nth)
    then have e: "l ! i \<in> set l" "row_of sp (fst (l ! i)) (snd (l ! i)) bk row"
      using list_all2_nthD [OF l, of i] list_all2_lengthD [OF l] by auto
    with r(1) have "l ! i = (k, tv)" by (simp add: row_of_def prod_eq_iff)
    with e(1) assms(4) show "map_of l k = Some tv" by simp
  qed
  then show "map_of l k = m k" by (cases "m k"; cases "map_of l k") auto
qed

lemma rows_read:
  assumes "holds_map sp t m" and "map_of rs = t" and "distinct (map fst rs)"
  shows "\<exists>l. erl_map (spec_row sp) (map table_row rs) = Value l \<and> map_of l = m \<and> distinct (map fst l) \<and>
    list_all2 (\<lambda>r e. row_of sp (fst e) (snd e) (fst r) (snd r)) rs l"
proof -
  obtain l where l: "rows_hold sp m rs l" using rows_hold_ex [OF assms] ..
  have d: "distinct (map fst l)" by (rule rows_hold_distinct [OF l assms(3)])
  have "list_all2 (\<lambda>r e. row_of sp (fst e) (snd e) (fst r) (snd r)) rs l"
    using l unfolding rows_hold_def by (rule list_all2_mono) simp
  with rows_hold_decoded [OF l] rows_hold_map [OF assms(1,2) l d] d show ?thesis by blast
qed

lemma keys_read:
  assumes "holds_map sp t m" and "set ks = dom t" and "distinct ks"
  shows "\<exists>l. keys_of sp (map (\<lambda>k. binary_row [k]) ks) = Value l \<and> set l = dom m \<and> distinct l"
proof -
  have key: "\<exists>k tv. m k = Some tv \<and> spec_key sp k = Value bk" if "bk \<in> set ks" for bk
    using that assms(2) holds_row [OF assms(1), of bk] row_of_key by blast
  then have "\<exists>l. list_all2 (\<lambda>bk k. k \<in> dom m \<and> spec_key sp k = Value bk) ks l"
  proof (induction ks)
    case (Cons bk ks)
    then show ?case by (auto simp: list_all2_Cons1 dom_def)
  qed (auto intro: exI [of _ "[]"])
  then obtain l where l: "list_all2 (\<lambda>bk k. k \<in> dom m \<and> spec_key sp k = Value bk) ks l" ..
  then have "keys_of sp (map (\<lambda>k. binary_row [k]) ks) = Value l"
    by (induction rule: list_all2_induct) (auto simp: spec_key_def key_read_back)
  moreover have e: "map (spec_key sp) l = map Value ks"
    using l by (induction rule: list_all2_induct) auto
  moreover have "distinct (map Value ks)" using assms(3) by (simp add: distinct_map inj_on_def)
  ultimately have "distinct l" by (metis distinct_map)
  moreover have "set l = dom m"
  proof
    show "set l \<subseteq> dom m" using l by (induction rule: list_all2_induct) auto
    show "dom m \<subseteq> set l"
    proof
      fix k assume "k \<in> dom m"
      then obtain tv bk row where "row_of sp k tv bk row" "t bk = Some row"
        using holds_entry [OF assms(1)] by blast
      then have "spec_key sp k = Value bk" "bk \<in> set ks" using row_of_key assms(2) by auto
      then have "spec_key sp k = Value bk" "Value bk \<in> set (map (spec_key sp) l)"
        unfolding e by simp_all
      then obtain k' where k': "k' \<in> set l" "spec_key sp k' = Value bk" by (auto simp: image_iff)
      from spec_key_unique [OF k'(2) \<open>spec_key sp k = Value bk\<close>] k'(1) show "k \<in> set l" by simp
    qed
  qed
  ultimately show ?thesis using \<open>keys_of sp _ = Value l\<close> by blast
qed

lemma erl_map_throws:
  "\<forall>x \<in> set xs. (\<exists>y. f x = Value y) \<or> f x = Throw e \<Longrightarrow> \<exists>x \<in> set xs. f x = Throw e \<Longrightarrow>
    erl_map f xs = Throw e"
proof (induction xs)
  case (Cons x xs)
  show ?case
  proof (cases "f x = Throw e")
    case False
    with Cons.prems obtain y where "f x = Value y" "\<exists>x \<in> set xs. f x = Throw e" by auto
    with Cons show ?thesis by simp
  qed simp
qed simp

lemma bad_row_read:
  assumes "holds_map sp t m" and "map_of rs = t(bk \<mapsto> (bt, bv))" and "distinct (map fst rs)"
    and "spec_key sp k = Value bk"
    and "decode_tv (t_syntax sp) (t_others sp) (t_mod sp) (binary_row [bt, bv]) = Throw e"
  shows "erl_map (spec_row sp) (map table_row rs) = Throw e"
proof -
  have bad: "spec_row sp (table_row (bk, bt, bv)) = Throw e"
    using assms(4,5) by (simp add: table_row_def spec_row_def spec_key_def key_read_back del: decode_tv.simps)
  have "(\<exists>x. spec_row sp (table_row r) = Value x) \<or> spec_row sp (table_row r) = Throw e" if "r \<in> set rs" for r
  proof -
    have r: "(t(bk \<mapsto> (bt, bv))) (fst r) = Some (snd r)" using that assms(3) by (simp flip: assms(2))
    show ?thesis
    proof (cases "fst r = bk")
      case True
      then have "r = (bk, bt, bv)" using r by (simp add: prod_eq_iff)
      with bad show ?thesis by simp
    next
      case False
      then have "t (fst r) = Some (snd r)" using r by simp
      then obtain k' tv' where "row_of sp k' tv' (fst r) (snd r)" using holds_row [OF assms(1)] by blast
      then show ?thesis by (cases r) (simp add: row_of_def table_row_def del: decode_ktv.simps)
    qed
  qed
  moreover have "map_of rs bk = Some (bt, bv)" using assms(2) by simp
  then have "(bk, bt, bv) \<in> set rs" by (rule map_of_SomeD)
  ultimately show ?thesis using bad by (intro erl_map_throws) auto
qed

section \<open>What a table promises\<close>

text \<open>Keys and entries whose requests the program takes, tables it can list.\<close>

definition table_key_ok :: "table_spec \<Rightarrow> u8 list \<Rightarrow> (sql_query \<Rightarrow> bool) \<Rightarrow> evalue \<Rightarrow> bool" where
  "table_key_ok sp name sends k \<longleftrightarrow>
     (\<exists>bk. spec_key sp k = Value bk \<and> sends (find_query name bk) \<and> sends (remove_query name bk))"

definition table_storable :: "table_spec \<Rightarrow> u8 list \<Rightarrow> (sql_query \<Rightarrow> bool) \<Rightarrow> evalue \<Rightarrow> type_val \<Rightarrow> bool" where
  "table_storable sp name sends k tv \<longleftrightarrow>
     (\<exists>bk row. row_of sp k tv bk row \<and> sends (put_query name [bk, fst row, snd row]))"

definition table_room :: "nat \<Rightarrow> (evalue \<rightharpoonup> type_val) \<Rightarrow> bool" where
  "table_room max_rows m \<longleftrightarrow> finite (dom m) \<and> card (dom m) < max_rows"

text \<open>The state of the store: no transaction is open and the table holds the map.\<close>

definition table_rep ::
    "('s \<Rightarrow> 'd \<Rightarrow> bool) \<Rightarrow> ('d \<Rightarrow> ktable \<Rightarrow> ktable option \<Rightarrow> bool) \<Rightarrow> table_spec \<Rightarrow> u8 list \<Rightarrow>
      (sql_query \<Rightarrow> bool) \<Rightarrow> nat \<Rightarrow> 's \<Rightarrow> (evalue \<rightharpoonup> type_val) \<Rightarrow> bool" where
  "table_rep linked table_at sp name sends max_rows s m \<longleftrightarrow>
     (\<exists>d t. linked s d \<and> table_at d t None \<and> holds_map sp t m) \<and> table_room max_rows m \<and>
     (\<forall>k tv. m k = Some tv \<longrightarrow> table_storable sp name sends k tv)"

lemma no_error_row: "throw_if_error (binary_row r # rest) = throw_if_error rest"
  by (cases r) simp_all

lemma no_errors [simp]:
  "throw_if_error (map binary_row rows) = None" "throw_if_error (map table_row rs) = None"
  "throw_if_error (map (\<lambda>k. binary_row [k]) ks) = None"
proof -
  show "throw_if_error (map binary_row rows) = None"
    by (induction rows) (simp_all only: list.map no_error_row throw_if_error.simps(1))
  show "throw_if_error (map table_row rs) = None"
    by (induction rs) (simp_all only: list.map no_error_row throw_if_error.simps(1) table_row_def split_beta)
  show "throw_if_error (map (\<lambda>k. binary_row [k]) ks) = None"
    by (induction ks) (simp_all only: list.map no_error_row throw_if_error.simps(1))
qed

definition put_row_query :: "u8 list \<Rightarrow> u8 list \<times> u8 list \<times> u8 list \<Rightarrow> sql_query" where
  "put_row_query name r = put_query name [fst r, fst (snd r), snd (snd r)]"

text \<open>SQLite on one table, as sqlite3.erl reaches it: \<open>table_at d base tx\<close> says that the table is
  \<open>base\<close>, and \<open>tx\<close> as seen in the open transaction, if there is one.\<close>

locale sql_table = query_runner run ans linked
  for run :: "'s runner"
    and ans :: "sql_query \<Rightarrow> 'd \<Rightarrow> evalue list \<Rightarrow> 'd \<Rightarrow> bool"
    and linked :: "'s \<Rightarrow> 'd \<Rightarrow> bool" +
  fixes sp :: table_spec and name :: "u8 list"
    and table_at :: "'d \<Rightarrow> ktable \<Rightarrow> ktable option \<Rightarrow> bool"
    and sends :: "sql_query \<Rightarrow> bool" and max_rows :: nat
  assumes named: "table_at d base tx \<Longrightarrow> spec_name sp = Value name"
    and rollback_restores: "table_at d base tx \<Longrightarrow>
      \<exists>rows d'. ans rollback_query d rows d' \<and> table_at d' base None"
    and begin_opens: "table_at d base None \<Longrightarrow>
      \<exists>rows d'. ans begin_query d rows d' \<and> table_at d' base (Some base)"
    and end_commits: "table_at d base (Some t) \<Longrightarrow>
      \<exists>rows d'. ans end_query d rows d' \<and> table_at d' t None"
    and end_of_none: "table_at d base None \<Longrightarrow>
      \<exists>rows d'. ans end_query d rows d' \<and> table_at d' base None"
    and finds: "table_at d base (Some t) \<Longrightarrow> sends (find_query name k) \<Longrightarrow> finite (dom t) \<Longrightarrow>
      card (dom t) < max_rows \<Longrightarrow> \<exists>d'. ans (find_query name k) d
        (case t k of None \<Rightarrow> [] | Some row \<Rightarrow> [binary_row [fst row, snd row]]) d' \<and>
        table_at d' base (Some t)"
    and loads: "table_at d base (Some t) \<Longrightarrow> finite (dom t) \<Longrightarrow> card (dom t) < max_rows \<Longrightarrow>
      \<exists>rs d'. ans (load_query name) d (map table_row rs) d' \<and> table_at d' base (Some t) \<and>
        map_of rs = t \<and> distinct (map fst rs)"
    and lists_keys: "table_at d base (Some t) \<Longrightarrow> finite (dom t) \<Longrightarrow> card (dom t) < max_rows \<Longrightarrow>
      \<exists>ks d'. ans (keys_query name) d (map (\<lambda>k. binary_row [k]) ks) d' \<and> table_at d' base (Some t) \<and>
        set ks = dom t \<and> distinct ks"
    and puts: "table_at d base (Some t) \<Longrightarrow> sends (put_row_query name r) \<Longrightarrow>
      \<exists>d'. ans (put_row_query name r) d [] d' \<and> table_at d' base (Some (t(fst r \<mapsto> snd r)))"
    and clears: "table_at d base (Some t) \<Longrightarrow>
      \<exists>d'. ans (clear_query name) d [] d' \<and> table_at d' base (Some Map.empty)"
    and removes: "table_at d base (Some t) \<Longrightarrow> sends (remove_query name k) \<Longrightarrow>
      \<exists>d'. ans (remove_query name k) d [] d' \<and> table_at d' base (Some (t(k := None)))"
begin

text \<open>Queries without errors between begin and end are committed.\<close>

lemma commits:
  assumes "linked s d" and "table_at d base None"
    and qs: "\<And>d1. table_at d1 base (Some base) \<Longrightarrow> \<exists>ts d2. chain ans qs ts d1 d2 \<and>
      length qs = length ts \<and> (\<forall>t \<in> set ts. throw_if_error t = None) \<and> P ts \<and> table_at d2 base (Some t')"
  shows "\<exists>ts s' d'. run_transaction run (map Tx_query qs) z s = Some (Tables ts, s') \<and> P ts \<and>
    linked s' d' \<and> table_at d' t' None"
proof -
  obtain t0 d0 where d0: "ans rollback_query d t0 d0" "table_at d0 base None"
    using rollback_restores [OF assms(2)] by blast
  obtain t1 d1 where d1: "ans begin_query d0 t1 d1" "table_at d1 base (Some base)"
    using begin_opens [OF d0(2)] by blast
  obtain ts d2 where ts: "chain ans qs ts d1 d2" "length qs = length ts"
    "\<forall>t \<in> set ts. throw_if_error t = None" "P ts" "table_at d2 base (Some t')"
    using qs [OF d1(2)] by blast
  obtain t2 d3 where d3: "ans end_query d2 t2 d3" "table_at d3 t' None"
    using end_commits [OF ts(5)] by blast
  have "chain ans (rollback_query # begin_query # qs @ [end_query]) (t0 # t1 # ts @ [t2]) d d3"
    using d0 d1 ts(1) d3 by (auto simp: chain_append [OF ts(2)])
  from transaction_ok [OF this ts(2,3) assms(1), of z] ts(4) d3(2) show ?thesis by blast
qed

lemma sql_commits:
  assumes "linked s d" and "table_at d base None" and "throw_if_error rows = None"
    and "\<And>d1. table_at d1 base (Some base) \<Longrightarrow> \<exists>d2. ans q d1 rows d2 \<and> table_at d2 base (Some t')"
  shows "\<exists>s' d'. table_sql run q s = Some (Value rows, s') \<and> linked s' d' \<and> table_at d' t' None"
proof -
  have "\<exists>ts d2. chain ans [q] ts d1 d2 \<and> length [q] = length ts \<and>
      (\<forall>t \<in> set ts. throw_if_error t = None) \<and> ts = [rows] \<and> table_at d2 base (Some t')"
    if d1: "table_at d1 base (Some base)" for d1
    using assms(4) [OF d1] assms(3) by (intro exI [of _ "[rows]"]) auto
  from commits [where qs = "[q]" and P = "\<lambda>ts. ts = [rows]" and z = "()", OF assms(1,2) this]
  show ?thesis by (auto simp: table_sql_def sqlite3_sql_def act_then_def)
qed

lemma sql_writes:
  assumes "linked s d" and "table_at d base None"
    and "\<And>d1. table_at d1 base (Some base) \<Longrightarrow> \<exists>d2. ans q d1 [] d2 \<and> table_at d2 base (Some t')"
  obtains s' d' where "table_sql run q s = Some (Value [], s')" "linked s' d'" "table_at d' t' None"
  using sql_commits [OF assms(1,2) _ assms(3)] by auto

lemma sql_loads:
  assumes "linked s d" and "table_at d t None" and "finite (dom t)" and "card (dom t) < max_rows"
  shows "\<exists>rs s' d'. table_sql run (load_query name) s = Some (Value (map table_row rs), s') \<and>
    map_of rs = t \<and> distinct (map fst rs) \<and> linked s' d' \<and> table_at d' t None"
proof -
  have "\<exists>ts d2. chain ans [load_query name] ts d1 d2 \<and> length [load_query name] = length ts \<and>
      (\<forall>r \<in> set ts. throw_if_error r = None) \<and>
      (\<exists>rs. ts = [map table_row rs] \<and> map_of rs = t \<and> distinct (map fst rs)) \<and> table_at d2 t (Some t)"
    if "table_at d1 t (Some t)" for d1
  proof -
    obtain rs d2 where "ans (load_query name) d1 (map table_row rs) d2" "table_at d2 t (Some t)"
      "map_of rs = t" "distinct (map fst rs)"
      using loads [OF \<open>table_at d1 t (Some t)\<close> assms(3,4)] by blast
    then show ?thesis by (intro exI [of _ "[map table_row rs]"] exI [of _ d2]) auto
  qed
  from commits [where qs = "[load_query name]" and z = "()" and t' = t and
      P = "\<lambda>ts. \<exists>rs. ts = [map table_row rs] \<and> map_of rs = t \<and> distinct (map fst rs)", OF assms(1,2) this]
  obtain rs s1 d1 where "run_transaction run [Tx_query (load_query name)] () s =
      Some (Tables [map table_row rs], s1)" "map_of rs = t" "distinct (map fst rs)" "linked s1 d1"
    "table_at d1 t None"
    by auto
  moreover from this have "table_sql run (load_query name) s = Some (Value (map table_row rs), s1)"
    by (simp add: table_sql_def sqlite3_sql_def act_then_def)
  ultimately show ?thesis by blast
qed

text \<open>Rows put one after the other.\<close>

lemma puts_chain:
  assumes "table_at d base (Some t)" and "\<forall>r \<in> set rs. sends (put_row_query name r)"
  shows "\<exists>d'. chain ans (map (put_row_query name) rs) (replicate (length rs) []) d d' \<and>
    table_at d' base (Some (t ++ map_of (rev rs)))"
  using assms
proof (induction rs arbitrary: d t)
  case (Cons r rs)
  obtain d1 where d1: "ans (put_row_query name r) d [] d1" "table_at d1 base (Some (t(fst r \<mapsto> snd r)))"
    using puts [OF Cons.prems(1), of r] Cons.prems(2) by auto
  have e: "t ++ map_of (rev (r # rs)) = t(fst r \<mapsto> snd r) ++ map_of (rev rs)"
    by (cases r) (simp add: map_add_upd_left)
  have "\<forall>r \<in> set rs. sends (put_row_query name r)" using Cons.prems(2) by simp
  from Cons.IH [OF d1(2) this] d1(1) show ?case
    unfolding e list.map list.size(4) add_Suc_right add_0_right replicate_Suc chain.simps by blast
qed auto

text \<open>The encoded rows of a list of entries, and the table and the map they make.\<close>

lemma rows_written:
  assumes "\<forall>(k, tv) \<in> set l. table_storable sp name sends k tv" and "spec_name sp = Value name"
  shows "\<exists>qput rs. op_qput sp = Value qput \<and> erl_map qput l = Value (map (put_row_query name) rs) \<and>
    (\<forall>r \<in> set rs. sends (put_row_query name r)) \<and>
    list_all2 (\<lambda>r e. row_of sp (fst e) (snd e) (fst r) (snd r)) rs l"
proof -
  have "\<exists>rs. erl_map (\<lambda>ktv. erl_then (spec_ktv sp ktv) (\<lambda>cols. Value (put_query name cols))) l =
      Value (map (put_row_query name) rs) \<and> (\<forall>r \<in> set rs. sends (put_row_query name r)) \<and>
      list_all2 (\<lambda>r e. row_of sp (fst e) (snd e) (fst r) (snd r)) rs l"
    using assms(1)
  proof (induction l)
    case Nil
    then show ?case by (intro exI [of _ "[]"]) simp
  next
    case (Cons e l)
    obtain bk row where r: "row_of sp (fst e) (snd e) bk row" "sends (put_query name [bk, fst row, snd row])"
      using Cons.prems by (cases e) (auto simp: table_storable_def)
    obtain rs where rs: "erl_map (\<lambda>ktv. erl_then (spec_ktv sp ktv) (\<lambda>cols. Value (put_query name cols))) l =
        Value (map (put_row_query name) rs)" "\<forall>r \<in> set rs. sends (put_row_query name r)"
      "list_all2 (\<lambda>r e. row_of sp (fst e) (snd e) (fst r) (snd r)) rs l"
      using Cons.IH Cons.prems by auto
    then show ?case
      using r by (intro exI [of _ "(bk, row) # rs"]) (simp add: row_of_def put_row_query_def)
  qed
  then show ?thesis by (simp add: op_qput_def assms(2))
qed

lemma holds_rows:
  assumes "holds_map sp t m" and "list_all2 (\<lambda>r e. row_of sp (fst e) (snd e) (fst r) (snd r)) rs l"
  shows "holds_map sp (t ++ map_of (rev rs)) (m ++ map_of (rev l))"
  using assms(2,1)
proof (induction arbitrary: t m rule: list_all2_induct)
  case (Cons r rs e l)
  have e: "t ++ map_of (rev (r # rs)) = t(fst r \<mapsto> snd r) ++ map_of (rev rs)"
    "m ++ map_of (rev (e # l)) = m(fst e \<mapsto> snd e) ++ map_of (rev l)"
    by (cases r, simp add: map_add_upd_left) (cases e, simp add: map_add_upd_left)
  show ?case unfolding e by (rule Cons.IH [OF holds_update [OF Cons.prems Cons.hyps(1)]])
qed simp

text \<open>The operations act on the map.\<close>

lemma repD:
  assumes "table_rep linked table_at sp name sends max_rows s m"
  obtains d t where "linked s d" "table_at d t None" "holds_map sp t m" "spec_name sp = Value name"
    "finite (dom t)" "card (dom t) < max_rows"
proof -
  obtain d t where d: "linked s d" "table_at d t None" "holds_map sp t m" "table_room max_rows m"
    using assms by (auto simp: table_rep_def)
  with holds_card [OF d(3)] named [OF d(2)] that show thesis by (auto simp: table_room_def)
qed

lemma repI:
  assumes "linked s d" and "table_at d t None" and "holds_map sp t m" and "table_room max_rows m"
    and "\<And>k tv. m k = Some tv \<Longrightarrow> table_storable sp name sends k tv"
  shows "table_rep linked table_at sp name sends max_rows s m"
  using assms by (auto simp: table_rep_def)

lemma rep_frame:
  assumes "table_rep linked table_at sp name sends max_rows s m"
  shows "table_room max_rows m" and "m k = Some tv \<Longrightarrow> table_storable sp name sends k tv"
  using assms unfolding table_rep_def by blast+

lemma find_op:
  assumes "table_rep linked table_at sp name sends max_rows s m" and "table_key_ok sp name sends k"
  shows "\<exists>s'. kv_find (table_store run sp) k s =
      Some (Value (case m k of Some tv \<Rightarrow> Inr tv | None \<Rightarrow> Inl (not_found_term k)), s') \<and>
    table_rep linked table_at sp name sends max_rows s' m"
proof -
  obtain d t where d: "linked s d" "table_at d t None" "holds_map sp t m" "spec_name sp = Value name"
    "finite (dom t)" "card (dom t) < max_rows"
    using repD [OF assms(1)] .
  obtain bk where bk: "spec_key sp k = Value bk" "sends (find_query name bk)"
    using assms(2) by (auto simp: table_key_ok_def)
  let ?rows = "case t bk of None \<Rightarrow> [] | Some row \<Rightarrow> [binary_row [fst row, snd row]]"
  have "throw_if_error ?rows = None" by (cases "t bk") simp_all
  then obtain s1 d1 where s1: "table_sql run (find_query name bk) s = Some (Value ?rows, s1)" "linked s1 d1"
    "table_at d1 t None"
    using sql_commits [OF d(1,2)] finds [OF _ bk(2) d(5,6)] by blast
  have "kv_find (table_store run sp) k s =
      Some (Value (case m k of Some tv \<Rightarrow> Inr tv | None \<Rightarrow> Inl (not_found_term k)), s1)"
  proof (cases "m k")
    case None
    then have "t bk = None" using holds_lookup [OF d(3) bk(1)] by simp
    with None s1(1) show ?thesis by (simp add: kv_find_def table_store_def op_find_def d(4) bk(1))
  next
    case (Some tv)
    then obtain row where "t bk = Some row" "row_of sp k tv bk row"
      using holds_lookup [OF d(3) bk(1)] by auto
    with Some s1(1) row_of_tv [of sp k tv bk row] show ?thesis
      by (simp add: kv_find_def table_store_def op_find_def d(4) bk(1) del: decode_tv.simps)
  qed
  with repI [OF s1(2,3) d(3)] rep_frame [OF assms(1)] show ?thesis by blast
qed

lemma put_op:
  assumes "table_rep linked table_at sp name sends max_rows s m" and "table_storable sp name sends k tv"
    and "table_room max_rows (m(k \<mapsto> tv))"
  shows "\<exists>s'. kv_put (table_store run sp) k tv s = Some (Value tv, s') \<and>
    table_rep linked table_at sp name sends max_rows s' (m(k \<mapsto> tv))"
proof -
  obtain d t where d: "linked s d" "table_at d t None" "holds_map sp t m" "spec_name sp = Value name"
    using repD [OF assms(1)] .
  obtain bk row where r: "row_of sp k tv bk row" "sends (put_row_query name (bk, row))"
    using assms(2) by (auto simp: table_storable_def put_row_query_def)
  have q: "put_query name [bk, fst row, snd row] = put_row_query name (bk, row)"
    by (simp add: put_row_query_def)
  have "\<exists>d2. ans (put_row_query name (bk, row)) d1 [] d2 \<and> table_at d2 t (Some (t(bk \<mapsto> row)))"
    if "table_at d1 t (Some t)" for d1
    using puts [OF that r(2)] by simp
  from sql_writes [OF d(1,2) this] obtain s1 d1 where
    s1: "table_sql run (put_row_query name (bk, row)) s = Some (Value [], s1)" "linked s1 d1"
    "table_at d1 (t(bk \<mapsto> row)) None"
    by blast
  have "kv_put (table_store run sp) k tv s = Some (Value tv, s1)"
    using r(1) s1(1)
    by (simp add: kv_put_def table_store_def op_put_def op_qput_def d(4) row_of_def q no_rows_def)
  moreover have "table_rep linked table_at sp name sends max_rows s1 (m(k \<mapsto> tv))"
  proof (rule repI [OF s1(2,3) holds_update [OF d(3) r(1)] assms(3)])
    fix k' tv' assume "(m(k \<mapsto> tv)) k' = Some tv'"
    then show "table_storable sp name sends k' tv'"
      using rep_frame(2) [OF assms(1), of k' tv'] assms(2) by (auto split: if_splits)
  qed
  ultimately show ?thesis by blast
qed

lemma room_smaller: "table_room n m \<Longrightarrow> dom m' \<subseteq> dom m \<Longrightarrow> table_room n m'"
  unfolding table_room_def by (meson card_mono finite_subset le_less_trans)

lemma remove_op:
  assumes "table_rep linked table_at sp name sends max_rows s m" and "table_key_ok sp name sends k"
  shows "\<exists>s'. kv_remove (table_store run sp) k s = Some (Value (), s') \<and>
    table_rep linked table_at sp name sends max_rows s' (m(k := None))"
proof -
  obtain d t where d: "linked s d" "table_at d t None" "holds_map sp t m" "spec_name sp = Value name"
    using repD [OF assms(1)] .
  obtain bk where bk: "spec_key sp k = Value bk" "sends (remove_query name bk)"
    using assms(2) by (auto simp: table_key_ok_def)
  from sql_writes [OF d(1,2) removes [OF _ bk(2)]] obtain s1 d1 where
    s1: "table_sql run (remove_query name bk) s = Some (Value [], s1)" "linked s1 d1"
    "table_at d1 (t(bk := None)) None"
    by blast
  have "kv_remove (table_store run sp) k s = Some (Value (), s1)"
    using s1(1) by (simp add: kv_remove_def table_store_def op_remove_def d(4) bk(1) no_rows_def)
  moreover have "table_rep linked table_at sp name sends max_rows s1 (m(k := None))"
  proof (rule repI [OF s1(2,3) holds_delete [OF d(3) bk(1)]])
    show "table_room max_rows (m(k := None))"
      by (rule room_smaller [OF rep_frame(1) [OF assms(1)]]) auto
    show "(m(k := None)) k' = Some tv' \<Longrightarrow> table_storable sp name sends k' tv'" for k' tv'
      using rep_frame(2) [OF assms(1), of k' tv'] by (auto split: if_splits)
  qed
  ultimately show ?thesis by blast
qed

lemma clear_op:
  assumes "table_rep linked table_at sp name sends max_rows s m"
  shows "\<exists>s'. kv_clear (table_store run sp) s = Some (Value (), s') \<and>
    table_rep linked table_at sp name sends max_rows s' Map.empty"
proof -
  obtain d t where d: "linked s d" "table_at d t None" "spec_name sp = Value name"
    using repD [OF assms] .
  from sql_writes [OF d(1,2) clears [of _ t t]] obtain s1 d1 where
    s1: "table_sql run (clear_query name) s = Some (Value [], s1)" "linked s1 d1"
    "table_at d1 Map.empty None"
    by blast
  have "kv_clear (table_store run sp) s = Some (Value (), s1)"
    using s1(1) by (simp add: kv_clear_def table_store_def op_clear_def d(3) no_rows_def)
  moreover have "table_room max_rows Map.empty"
    by (rule room_smaller [OF rep_frame(1) [OF assms]]) simp
  ultimately show ?thesis using repI [OF s1(2,3) holds_empty] by (auto simp: table_rep_def)
qed

text \<open>Lists of all entries, of all keys, and the map that is made of the list.\<close>

lemma to_list_op:
  assumes "table_rep linked table_at sp name sends max_rows s m"
  shows "\<exists>s' l. kv_to_list (table_store run sp) s = Some (Value l, s') \<and>
    kv_to_map (table_store run sp) s = Some (Value (maps_from_list l), s') \<and>
    map_of l = m \<and> distinct (map fst l) \<and>
    table_rep linked table_at sp name sends max_rows s' m"
proof -
  obtain d t where d: "linked s d" "table_at d t None" "holds_map sp t m" "spec_name sp = Value name"
    "finite (dom t)" "card (dom t) < max_rows"
    using repD [OF assms] .
  obtain rs s1 d1 where s1: "table_sql run (load_query name) s = Some (Value (map table_row rs), s1)"
    "map_of rs = t" "distinct (map fst rs)" "linked s1 d1" "table_at d1 t None"
    using sql_loads [OF d(1,2,5,6)] by blast
  obtain l where l: "erl_map (spec_row sp) (map table_row rs) = Value l" "map_of l = m" "distinct (map fst l)"
    using rows_read [OF d(3) s1(2,3)] by blast
  have "kv_to_list (table_store run sp) s = Some (Value l, s1)"
    "kv_to_map (table_store run sp) s = Some (Value (maps_from_list l), s1)"
    using s1(1) l(1)
    by (simp_all add: kv_to_list_def kv_to_map_def table_store_def op_to_list_def op_to_map_def d(4))
  with l repI [OF s1(4,5) d(3)] rep_frame [OF assms] show ?thesis by blast
qed

lemma keys_op:
  assumes "table_rep linked table_at sp name sends max_rows s m"
  shows "\<exists>s' ks. kv_keys (table_store run sp) s = Some (Value ks, s') \<and> set ks = dom m \<and> distinct ks \<and>
    table_rep linked table_at sp name sends max_rows s' m"
proof -
  obtain d t where d: "linked s d" "table_at d t None" "holds_map sp t m" "spec_name sp = Value name"
    "finite (dom t)" "card (dom t) < max_rows"
    using repD [OF assms] .
  have "\<exists>ts d2. chain ans [keys_query name] ts d1 d2 \<and> length [keys_query name] = length ts \<and>
      (\<forall>r \<in> set ts. throw_if_error r = None) \<and>
      (\<exists>ks. ts = [map (\<lambda>k. binary_row [k]) ks] \<and> set ks = dom t \<and> distinct ks) \<and> table_at d2 t (Some t)"
    if "table_at d1 t (Some t)" for d1
  proof -
    obtain ks d2 where "ans (keys_query name) d1 (map (\<lambda>k. binary_row [k]) ks) d2" "table_at d2 t (Some t)"
      "set ks = dom t" "distinct ks"
      using lists_keys [OF \<open>table_at d1 t (Some t)\<close> d(5,6)] by blast
    then show ?thesis
      by (intro exI [of _ "[map (\<lambda>k. binary_row [k]) ks]"] exI [of _ d2])
        (auto simp del: binary_row_simps)
  qed
  from commits [where qs = "[keys_query name]" and z = "()" and t' = t and P = "\<lambda>ts. \<exists>ks.
      ts = [map (\<lambda>k. binary_row [k]) ks] \<and> set ks = dom t \<and> distinct ks", OF d(1,2) this]
  obtain ks s1 d1 where s1: "run_transaction run [Tx_query (keys_query name)] () s =
      Some (Tables [map (\<lambda>k. binary_row [k]) ks], s1)" "set ks = dom t" "distinct ks" "linked s1 d1"
    "table_at d1 t None"
    by (auto simp del: binary_row_simps)
  then have "table_sql run (keys_query name) s = Some (Value (map (\<lambda>k. binary_row [k]) ks), s1)"
    by (simp add: table_sql_def sqlite3_sql_def act_then_def del: binary_row_simps)
  moreover obtain l where "keys_of sp (map (\<lambda>k. binary_row [k]) ks) = Value l" "set l = dom m" "distinct l"
    using keys_read [OF d(3) s1(2,3)] by blast
  ultimately have "kv_keys (table_store run sp) s = Some (Value l, s1)"
    by (simp add: kv_keys_def table_store_def op_keys_def d(4) del: binary_row_simps)
  with \<open>set l = dom m\<close> \<open>distinct l\<close> repI [OF s1(4,5) d(3)] rep_frame [OF assms] show ?thesis by blast
qed

text \<open>What rows to write do to a table that holds a map.\<close>

lemma rows_rep:
  assumes "table_rep linked table_at sp name sends max_rows s m"
    and "\<forall>(k, tv) \<in> set l. table_storable sp name sends k tv"
    and "(m ++ map_of (rev l)) k = Some tv"
  shows "table_storable sp name sends k tv"
proof (cases "map_of (rev l) k")
  case None
  with assms(3) rep_frame(2) [OF assms(1)] show ?thesis by (simp add: map_add_def)
next
  case (Some tv')
  then have "(k, tv') \<in> set l" "tv' = tv" using assms(3) by (auto dest: map_of_SomeD)
  with assms(2) show ?thesis by auto
qed

lemma put_list_op:
  assumes "table_rep linked table_at sp name sends max_rows s m"
    and "\<forall>(k, tv) \<in> set l. table_storable sp name sends k tv"
    and "table_room max_rows (m ++ map_of (rev l))"
  shows "\<exists>s'. kv_put_list (table_store run sp) l s = Some (Value (), s') \<and>
    kv_put_map (table_store run sp) l s = Some (Value (), s') \<and>
    table_rep linked table_at sp name sends max_rows s' (m ++ map_of (rev l))"
proof -
  obtain d t where d: "linked s d" "table_at d t None" "holds_map sp t m" "spec_name sp = Value name"
    using repD [OF assms(1)] .
  obtain qput rs where rs: "op_qput sp = Value qput" "erl_map qput l = Value (map (put_row_query name) rs)"
    "\<forall>r \<in> set rs. sends (put_row_query name r)"
    "list_all2 (\<lambda>r e. row_of sp (fst e) (snd e) (fst r) (snd r)) rs l"
    using rows_written [OF assms(2) d(4)] by blast
  let ?t = "t ++ map_of (rev rs)"
  have "\<exists>ts d2. chain ans (map (put_row_query name) rs) ts d1 d2 \<and>
      length (map (put_row_query name) rs) = length ts \<and>
      (\<forall>r \<in> set ts. throw_if_error r = None) \<and> True \<and> table_at d2 t (Some ?t)"
    if "table_at d1 t (Some t)" for d1
    using puts_chain [OF that rs(3)] by (elim exE) (rule exI [of _ "replicate (length rs) []"], auto)
  from commits [where qs = "map (put_row_query name) rs" and z = "()" and t' = ?t and P = "\<lambda>_. True",
      OF d(1,2) this]
  obtain ts s1 d1 where s1: "run_transaction run (map Tx_query (map (put_row_query name) rs)) () s =
      Some (Tables ts, s1)" "linked s1 d1" "table_at d1 ?t None"
    by auto
  have "kv_put_list (table_store run sp) l s = Some (Value (), s1)"
    "kv_put_map (table_store run sp) l s = Some (Value (), s1)"
    using s1(1) rs(1,2)
    by (simp_all add: kv_put_list_def kv_put_map_def table_store_def op_put_map_def op_put_list_def
        sqlite3_sql_transaction_def sql_transaction_def act_then_def ok_or_throw_def comp_def)
  moreover have "table_rep linked table_at sp name sends max_rows s1 (m ++ map_of (rev l))"
    using rows_rep [OF assms(1,2)] by (intro repI [OF s1(2,3) holds_rows [OF d(3) rs(4)] assms(3)])
  ultimately show ?thesis by blast
qed

text \<open>Queries and a check: with the answer ok they are committed, else undone.\<close>

lemma cond_commits:
  assumes "ans rollback_query d t0 d0" "ans begin_query d0 t1 d1" and "linked s d"
    and "chain ans qs ts d1 d2" and "\<forall>t \<in> set ts. throw_if_error t = None"
    and "table_at d2 base (Some t')" and "check (rev ts) = Check_ok"
  shows "\<exists>s' d'. run_transaction run (map Tx_query qs @ [Tx_check check]) z s = Some (Tables ts, s') \<and>
    linked s' d' \<and> table_at d' t' None"
proof -
  obtain t2 d3 where d3: "ans end_query d2 t2 d3" "table_at d3 t' None"
    using end_commits [OF assms(6)] by blast
  have "\<exists>s2. run_until_error run (map Tx_query qs @ [Tx_check check]) [] z s1 = Some (Tables ts, s2) \<and>
      linked s2 d2" if "linked s1 d1" for s1
    using queries_pass [OF assms(4) that assms(5), of "[Tx_check check]" "[]" z] assms(7) by auto
  from transaction_body [OF assms(1-3) this d3(1)] d3(2) show ?thesis by blast
qed

lemma cond_aborts:
  assumes "ans rollback_query d t0 d0" "ans begin_query d0 t1 d1" and "linked s d"
    and "chain ans qs ts d1 d2" and "\<forall>t \<in> set ts. throw_if_error t = None" and "length qs = length ts"
    and "table_at d2 base tx" and "check (rev ts) = Check_failed msg"
  shows "\<exists>s' d'. run_transaction run (map Tx_query qs @ [Tx_check check]) z s =
    Some (Tx_error (sqlite3_abort msg), s') \<and> linked s' d' \<and> table_at d' base None"
proof -
  obtain t2 d3 where d3: "ans rollback_query d2 t2 d3" "table_at d3 base None"
    using rollback_restores [OF assms(7)] by blast
  obtain t3 d4 where d4: "ans end_query d3 t3 d4" "table_at d4 base None"
    using end_of_none [OF d3(2)] by blast
  have "chain ans (rollback_query # begin_query # qs @ [rollback_query, end_query])
      (t0 # t1 # ts @ [t2, t3]) d d4"
    unfolding chain.simps chain_append [OF assms(6)] using assms(1,2,4) d3(1) d4(1) by blast
  from transaction_check [where check = check and msg = msg and rest = "[]" and z = z, OF this assms(6,5,8,3)] d4(2) show ?thesis by auto
qed

text \<open>With a check the entries are there or none of them is.\<close>

lemma put_list_cond_op:
  assumes "table_rep linked table_at sp name sends max_rows s m"
    and "\<forall>(k, tv) \<in> set l. table_storable sp name sends k tv"
    and "table_room max_rows (m ++ map_of (rev l))"
  shows "\<exists>new. map_of new = m ++ map_of (rev l) \<and> distinct (map fst new) \<and>
    (check new = Check_ok \<longrightarrow> (\<exists>s'. kv_put_list_cond (table_store run sp) l check s = Some (Value (), s') \<and>
       table_rep linked table_at sp name sends max_rows s' (m ++ map_of (rev l)))) \<and>
    (\<forall>msg. check new = Check_failed msg \<longrightarrow>
       (\<exists>s'. kv_put_list_cond (table_store run sp) l check s =
          Some (Throw (E_tuple [e_atom ''put_list_cond'', sqlite3_abort msg]), s') \<and>
        table_rep linked table_at sp name sends max_rows s' m))"
proof -
  obtain d t where d: "linked s d" "table_at d t None" "holds_map sp t m" "spec_name sp = Value name"
    using repD [OF assms(1)] .
  obtain qput rs where rs: "op_qput sp = Value qput" "erl_map qput l = Value (map (put_row_query name) rs)"
    "\<forall>r \<in> set rs. sends (put_row_query name r)"
    "list_all2 (\<lambda>r e. row_of sp (fst e) (snd e) (fst r) (snd r)) rs l"
    using rows_written [OF assms(2) d(4)] by blast
  let ?t = "t ++ map_of (rev rs)" and ?qs = "map (put_row_query name) rs"
  have t: "holds_map sp ?t (m ++ map_of (rev l))" by (rule holds_rows [OF d(3) rs(4)])
  have small: "finite (dom ?t)" "card (dom ?t) < max_rows"
    using holds_card [OF t] assms(3) unfolding table_room_def by auto
  obtain t0 d0 t1 d1 where d1: "ans rollback_query d t0 d0" "ans begin_query d0 t1 d1" "table_at d1 t (Some t)"
    using rollback_restores [OF d(2)] begin_opens by blast
  obtain d2 where d2: "chain ans ?qs (replicate (length rs) []) d1 d2" "table_at d2 t (Some ?t)"
    using puts_chain [OF d1(3) rs(3)] by blast
  obtain loaded d3 where d3: "ans (load_query name) d2 (map table_row loaded) d3" "table_at d3 t (Some ?t)"
    "map_of loaded = ?t" "distinct (map fst loaded)"
    using loads [OF d2(2) small] by blast
  obtain new where new: "erl_map (spec_row sp) (map table_row loaded) = Value new"
    "map_of new = m ++ map_of (rev l)" "distinct (map fst new)"
    using rows_read [OF t d3(3,4)] by blast
  let ?ts = "replicate (length rs) [] @ [map table_row loaded]" and ?check = "load_check sp check"
  have len: "length ?qs = length (replicate (length rs) ([] :: evalue list))"
    "length (?qs @ [load_query name]) = length ?ts" by simp_all
  have tables: "chain ans (?qs @ [load_query name]) ?ts d1 d3" "\<forall>r \<in> set ?ts. throw_if_error r = None"
    using d2(1) d3(1) by (auto simp: chain_append [OF len(1)])
  have answer: "?check (rev ?ts) = check new" by (simp add: load_check_def new(1))
  have op: "kv_put_list_cond (table_store run sp) l check s = act_then
      (sqlite3_sql_transaction run (map Tx_query (?qs @ [load_query name]) @ [Tx_check ?check]))
      (ok_or_throw ''put_list_cond'') s"
    by (simp add: kv_put_list_cond_def table_store_def op_put_list_cond_def rs(1,2) d(4) del: map_map)
  note result = op sqlite3_sql_transaction_def sql_transaction_def act_then_def ok_or_throw_def
  have "\<exists>s'. kv_put_list_cond (table_store run sp) l check s = Some (Value (), s') \<and>
      table_rep linked table_at sp name sends max_rows s' (m ++ map_of (rev l))" if "check new = Check_ok"
    using cond_commits [where check = ?check and z = "()", OF d1(1,2) d(1) tables d3(2)] answer that
      repI [OF _ _ t assms(3) rows_rep [OF assms(1,2)]]
    by (auto simp: result)
  moreover have "\<exists>s'. kv_put_list_cond (table_store run sp) l check s =
      Some (Throw (E_tuple [e_atom ''put_list_cond'', sqlite3_abort msg]), s') \<and>
      table_rep linked table_at sp name sends max_rows s' m" if "check new = Check_failed msg" for msg
    using cond_aborts [where check = ?check and z = "()" and msg = msg, OF d1(1,2) d(1) tables len(2) d3(2)]
      answer that repI [OF _ _ d(3)] rep_frame [OF assms(1)]
    by (auto simp: result sqlite3_abort_def)
  ultimately show ?thesis using new(2,3) by blast
qed

text \<open>An entry that is written but that its decoder refuses: the put returns as any, and from then
  on neither the key nor the table as a whole can be read.\<close>

lemma bad_row_op:
  assumes "table_rep linked table_at sp name sends max_rows s m" and "Suc (card (dom m)) < max_rows"
    and "spec_ktv sp (k, tv) = Value [bk, bt, bv]" and "sends (put_row_query name (bk, bt, bv))"
    and "decode_tv (t_syntax sp) (t_others sp) (t_mod sp) (binary_row [bt, bv]) = Throw e"
    and "sends (find_query name bk)"
  shows "\<exists>s'. kv_put (table_store run sp) k tv s = Some (Value tv, s') \<and>
    (\<exists>s2. kv_find (table_store run sp) k s' = Some (Throw e, s2)) \<and>
    (\<exists>s2. kv_to_list (table_store run sp) s' = Some (Throw e, s2))"
proof -
  obtain d t where d: "linked s d" "table_at d t None" "holds_map sp t m" "spec_name sp = Value name"
    using repD [OF assms(1)] .
  let ?t = "t(bk \<mapsto> (bt, bv))"
  have key: "spec_key sp k = Value bk"
    using assms(3) by (cases tv) (auto simp: spec_ktv_def spec_key_def encode_ktv_Value)
  have "finite (dom t)" "card (dom t) \<le> card (dom m)"
    using holds_card [OF d(3)] rep_frame(1) [OF assms(1)] by (auto simp: table_room_def)
  then have small: "finite (dom ?t)" "card (dom ?t) < max_rows"
    using assms(2) by (auto simp: card_insert_if)
  have "\<exists>d2. ans (put_row_query name (bk, bt, bv)) d1 [] d2 \<and> table_at d2 t (Some ?t)"
    if "table_at d1 t (Some t)" for d1
    using puts [OF that assms(4)] by simp
  from sql_writes [OF d(1,2) this] obtain s1 d1 where
    s1: "table_sql run (put_row_query name (bk, bt, bv)) s = Some (Value [], s1)" "linked s1 d1"
    "table_at d1 ?t None"
    by blast
  have put: "kv_put (table_store run sp) k tv s = Some (Value tv, s1)"
    using assms(3) s1(1)
    by (simp add: kv_put_def table_store_def op_put_def op_qput_def d(4) no_rows_def put_row_query_def)
  have "\<exists>d3. ans (find_query name bk) d2 [binary_row [bt, bv]] d3 \<and> table_at d3 ?t (Some ?t)"
    if "table_at d2 ?t (Some ?t)" for d2
    using finds [OF that assms(6) small] by simp
  moreover have "throw_if_error [binary_row [bt, bv]] = None" by simp
  ultimately obtain s2 where "table_sql run (find_query name bk) s1 = Some (Value [binary_row [bt, bv]], s2)"
    using sql_commits [OF s1(2,3)] by blast
  then have find: "kv_find (table_store run sp) k s1 = Some (Throw e, s2)"
    using assms(5) by (simp add: kv_find_def table_store_def op_find_def d(4) key del: decode_tv.simps)
  obtain rs s3 where s3: "table_sql run (load_query name) s1 = Some (Value (map table_row rs), s3)"
    "map_of rs = ?t" "distinct (map fst rs)"
    using sql_loads [OF s1(2,3) small] by blast
  have "erl_map (spec_row sp) (map table_row rs) = Throw e"
    by (rule bad_row_read [OF d(3) s3(2,3) key assms(5)])
  then have "kv_to_list (table_store run sp) s1 = Some (Throw e, s3)"
    using s3(1) by (simp add: kv_to_list_def table_store_def op_to_list_def d(4))
  with put find show ?thesis by blast
qed

end

sublocale sql_table < kv: kv_store "table_store run sp" "table_rep linked table_at sp name sends max_rows"
  "table_key_ok sp name sends" "table_storable sp name sends" "table_room max_rows"
proof unfold_locales
  fix s m
  assume r: "table_rep linked table_at sp name sends max_rows s m"
  obtain s' l where l: "kv_to_map (table_store run sp) s = Some (Value (maps_from_list l), s')"
    "map_of l = m" "distinct (map fst l)" "table_rep linked table_at sp name sends max_rows s' m"
    using to_list_op [OF r] by blast
  have "map_of (maps_from_list l) = m" "distinct (map fst (maps_from_list l))"
    using foldl_update [of "[]" l] l(2,3) by (simp_all add: maps_from_list_def map_of_rev)
  with l show "\<exists>s' l. kv_to_map (table_store run sp) s = Some (Value l, s') \<and>
      table_rep linked table_at sp name sends max_rows s' m \<and> map_of l = m \<and> distinct (map fst l)"
    by blast
next
  fix s m and l :: "type_val emap"
  assume "table_rep linked table_at sp name sends max_rows s m" "distinct (map fst l)"
    "\<forall>(k, tv) \<in> set l. table_storable sp name sends k tv" "table_room max_rows (m ++ map_of l)"
  then show "\<exists>s'. kv_put_map (table_store run sp) l s = Some (Value (), s') \<and>
      table_rep linked table_at sp name sends max_rows s' (m ++ map_of l)"
    using put_list_op [of s m l] by (auto simp: map_of_rev)
qed (erule (1) find_op | erule (2) put_op | erule (1) room_smaller | erule (1) remove_op |
    erule clear_op | erule rep_frame(1) | erule (1) rep_frame(2))+

end
