(* ===== verification/Erl_Sqlstore.thy ===== *)
theory Erl_Sqlstore
  imports Erl_Sqlkv
begin

text \<open>
  The key value store over the C program: the laws of the locale \<open>sql_table\<close> from what SQLite's
  documentation says of its statements on one table (\<open>sqlite_table\<close>, over the library functions
  the program calls) and from what was proved of the program; and the properties of the whole,
  from a store's client down to the bytes of the pipe.
\<close>

section \<open>Rows over the port\<close>

definition table_payload :: "u8 list list \<Rightarrow> u8 list" where
  "table_payload cols = BERT_START # encode (T_list (map T_binary cols) T_nil)"

definition row_length :: "u8 list list \<Rightarrow> nat" where
  "row_length cols = sum_list (map length cols)"

lemma row_payload_table:
  "row_payload lib st d =
    table_payload (map (\<lambda>c. lib_column_blob lib st c d) [0..<lib_column_count lib st d])"
  by (simp add: row_payload_def table_payload_def comp_def)

lemma row_length_simps [simp]:
  "row_length [] = 0" "row_length (c # cs) = length c + row_length cs"
  by (simp_all add: row_length_def)

lemma cell_length: "c \<in> set cols \<Longrightarrow> length c \<le> row_length cols"
  by (induction cols) auto

lemma table_payload_length: "length (table_payload cols) = 7 + 5 * length cols + row_length cols"
proof -
  have "length (encode_all (map T_binary cols)) = 5 * length cols + row_length cols"
    by (induction cols) simp_all
  then show ?thesis by (simp add: table_payload_def)
qed

lemma reads_table:
  assumes "length cols < 2 ^ 31" and "row_length cols < 2 ^ 31"
  shows "reads_as (table_payload cols) (binary_row cols)"
proof -
  have "\<forall>c \<in> set cols. length c < 2 ^ 31" using cell_length assms(2) by fastforce
  then have "all_fit (map T_binary cols)" by (induction cols) simp_all
  with assms(1) have "fits (T_list (map T_binary cols) T_nil)" by simp
  from read_term_encode [OF this] have "read_term (table_payload cols) = Some (binary_row cols)"
    by (simp add: table_payload_def binary_row_def comp_def)
  moreover have "plain_value (binary_row cols)" by (cases cols) (simp_all add: plain_value_def)
  ultimately show ?thesis by (simp add: reads_as_def table_payload_def)
qed

section \<open>SQLite on one table\<close>

text \<open>The default of SQLITE\_MAX\_LENGTH, the size of a row at most.\<close>

definition sqlite_max_length :: nat where "sqlite_max_length = 10 ^ 9"

definition bounded_table :: "ktable \<Rightarrow> bool" where
  "bounded_table t \<longleftrightarrow>
     (\<forall>k row. t k = Some row \<longrightarrow> row_length [k, fst row, snd row] \<le> sqlite_max_length)"

lemma bounded_row:
  "bounded_table t \<Longrightarrow> t k = Some row \<Longrightarrow>
    length k + length (fst row) + length (snd row) \<le> sqlite_max_length"
  unfolding bounded_table_def by fastforce

text \<open>A statement that answers with rows, and one of the transaction statements, which answers with
  no row or with an error.\<close>

definition statement ::
    "('d, 'st) sqlite_lib \<Rightarrow> sql_query \<Rightarrow> 'd \<Rightarrow> u8 list list list \<Rightarrow> 'd \<Rightarrow> bool" where
  "statement lib q d rows d' \<longleftrightarrow> serves lib d q (map table_payload rows) d'"

definition control :: "('d, 'st) sqlite_lib \<Rightarrow> sql_query \<Rightarrow> 'd \<Rightarrow> 'd \<Rightarrow> bool" where
  "control lib q d d' \<longleftrightarrow>
     serves lib d q [] d' \<or> (\<exists>d1. serves lib d q [error_payload lib d1] d')"

definition row_columns :: "u8 list \<times> u8 list \<times> u8 list \<Rightarrow> u8 list list" where
  "row_columns = (\<lambda>(k, t, v). [k, t, v])"

text \<open>What the documentation of SQLite says of the statements used, for a table of the columns var,
  type and val with var as its primary key: \<open>holds d base tx\<close> relates a database state to the
  committed table and the one in the open transaction. Every statement within the length limit is
  carried out (the disk is not full, the database not busy), and keys are compared as byte strings,
  also those with a NUL in them.\<close>

definition sqlite_table ::
    "('d, 'st) sqlite_lib \<Rightarrow> u8 list \<Rightarrow> ('d \<Rightarrow> ktable \<Rightarrow> ktable option \<Rightarrow> bool) \<Rightarrow> bool" where
  "sqlite_table lib name holds \<longleftrightarrow>
     (\<forall>d base tx. holds d base tx \<longrightarrow>
        bounded_table base \<and> (\<forall>t. tx = Some t \<longrightarrow> bounded_table t) \<and>
        (\<exists>d'. control lib rollback_query d d' \<and> holds d' base None)) \<and>
     (\<forall>d base. holds d base None \<longrightarrow>
        (\<exists>d'. control lib begin_query d d' \<and> holds d' base (Some base)) \<and>
        (\<exists>d'. control lib end_query d d' \<and> holds d' base None)) \<and>
     (\<forall>d base t. holds d base (Some t) \<longrightarrow>
        (\<exists>d'. control lib end_query d d' \<and> holds d' t None) \<and>
        (\<forall>k. length k \<le> sqlite_max_length \<longrightarrow> (\<exists>d'. statement lib (find_query name k) d
           (case t k of None \<Rightarrow> [] | Some row \<Rightarrow> [[fst row, snd row]]) d' \<and> holds d' base (Some t))) \<and>
        (finite (dom t) \<longrightarrow> (\<exists>rs d'. statement lib (load_query name) d (map row_columns rs) d' \<and>
           holds d' base (Some t) \<and> map_of rs = t \<and> distinct (map fst rs))) \<and>
        (finite (dom t) \<longrightarrow> (\<exists>ks d'. statement lib (keys_query name) d (map (\<lambda>k. [k]) ks) d' \<and>
           holds d' base (Some t) \<and> set ks = dom t \<and> distinct ks)) \<and>
        (\<forall>r. row_length (row_columns r) \<le> sqlite_max_length \<longrightarrow>
           (\<exists>d'. statement lib (put_row_query name r) d [] d' \<and> holds d' base (Some (t(fst r \<mapsto> snd r))))) \<and>
        (\<exists>d'. statement lib (clear_query name) d [] d' \<and> holds d' base (Some Map.empty)) \<and>
        (\<forall>k. length k \<le> sqlite_max_length \<longrightarrow> (\<exists>d'. statement lib (remove_query name k) d [] d' \<and>
           holds d' base (Some (t(k := None))))))"

text \<open>Requests that the program takes, with arguments that SQLite takes.\<close>

definition sends :: "bool \<Rightarrow> nat \<Rightarrow> sql_query \<Rightarrow> bool" where
  "sends small room q \<longleftrightarrow> request_ok small q \<and> length (request small q) \<le> room \<and>
     row_length (map snd (snd q)) \<le> sqlite_max_length"

text \<open>The parts are in place: the library, the table's name, memory for the requests without
  arguments, and turns for an answer of one row.\<close>

definition c_ready ::
    "bool \<Rightarrow> nat \<Rightarrow> nat \<Rightarrow> ('d, 'st) sqlite_lib \<Rightarrow> table_spec \<Rightarrow> u8 list \<Rightarrow>
      ('d \<Rightarrow> ktable \<Rightarrow> ktable option \<Rightarrow> bool) \<Rightarrow> bool" where
  "c_ready small fuel room lib sp name holds \<longleftrightarrow> lib_ok lib \<and> sqlite_table lib name holds \<and>
     spec_name sp = Value name \<and> 1 < fuel \<and> list_all (sends small room)
       [rollback_query, begin_query, end_query, load_query name, keys_query name, clear_query name]"

lemma answers_rows:
  assumes "statement lib q d rows d'" and "sends small room q" and "length rows < fuel"
    and "\<And>r. r \<in> set rows \<Longrightarrow> length r \<le> 3 \<and> row_length r \<le> sqlite_max_length"
  shows "query_answers small fuel room lib q d (map binary_row rows) d'"
proof -
  have "length f < 2 ^ 31 - 4" if "f \<in> set (map table_payload rows)" for f
    using that assms(4) by (force simp: table_payload_length sqlite_max_length_def)
  then have "sendable fuel (map table_payload rows)" using assms(3) by (simp add: sendable_def)
  moreover have "reads_as (table_payload r) (binary_row r)" if "r \<in> set rows" for r
    using assms(4) [OF that] by (intro reads_table) (auto simp: sqlite_max_length_def)
  then have "list_all2 reads_as (map table_payload rows) (map binary_row rows)"
    by (simp add: list_all2_map1 list_all2_map2 list_all2_same)
  ultimately show ?thesis
    using assms(1,2) by (auto simp: query_answers_def statement_def sends_def)
qed

lemma answers_control:
  assumes "control lib q d d'" and "sends small room q" and "lib_ok lib" and "1 < fuel"
  shows "\<exists>rows. query_answers small fuel room lib q d rows d'"
proof -
  have q: "request_ok small q" "length (request small q) \<le> room" using assms(2) by (simp_all add: sends_def)
  from assms(1) show ?thesis unfolding control_def
  proof
    assume "serves lib d q [] d'"
    with q assms(4) show ?thesis
      by (intro exI [of _ "[]"]) (auto simp: query_answers_def sendable_def intro!: exI [of _ "[]"])
  next
    assume "\<exists>d1. serves lib d q [error_payload lib d1] d'"
    then obtain d1 where s: "serves lib d q [error_payload lib d1] d'" ..
    obtain cs where "lib_errmsg lib d1 = cs @ [0]" "length cs < 2 ^ 30"
      using assms(3) unfolding lib_ok_def by blast
    then have "length (takeWhile (\<lambda>b. b \<noteq> 0) (lib_errmsg lib d1)) \<le> 2 ^ 30"
      using length_takeWhile_le [of "\<lambda>b. b \<noteq> 0" "lib_errmsg lib d1"] by simp
    then have "sendable fuel [error_payload lib d1]"
      using assms(4) by (simp add: sendable_def error_payload_def)
    with s q reads_error [OF assms(3), of d1] show ?thesis
      by (auto simp: query_answers_def intro!: exI [of _ "[error_value lib d1]"])
  qed
qed

lemma table_row_columns: "map table_row rs = map binary_row (map row_columns rs)"
  by (simp add: table_row_def row_columns_def split_beta)

lemma listed_rows:
  assumes "bounded_table t" and "map_of rs = t" and "distinct (map fst rs)"
  shows "length rs = card (dom t)" and "r \<in> set rs \<Longrightarrow> row_length (row_columns r) \<le> sqlite_max_length"
proof -
  have "dom t = fst ` set rs" using assms(2) dom_map_of_conv_image_fst [of rs] by simp
  then show "length rs = card (dom t)"
    using assms(3) by (metis distinct_card length_map list.set_map)
  assume "r \<in> set rs"
  then have "t (fst r) = Some (snd r)" using assms(2,3) by (simp flip: assms(2))
  with assms(1) show "row_length (row_columns r) \<le> sqlite_max_length"
    by (auto simp: bounded_table_def row_columns_def split: prod.split)
qed

text \<open>The statements on an open transaction, one by one.\<close>

lemma sqlite_tx:
  assumes "sqlite_table lib name holds" and "holds d base (Some t)"
  shows "bounded_table t"
    and "\<exists>d'. control lib end_query d d' \<and> holds d' t None"
    and "length k \<le> sqlite_max_length \<Longrightarrow> \<exists>d'. statement lib (find_query name k) d
      (case t k of None \<Rightarrow> [] | Some row \<Rightarrow> [[fst row, snd row]]) d' \<and> holds d' base (Some t)"
    and "finite (dom t) \<Longrightarrow> \<exists>rs d'. statement lib (load_query name) d (map row_columns rs) d' \<and>
      holds d' base (Some t) \<and> map_of rs = t \<and> distinct (map fst rs)"
    and "finite (dom t) \<Longrightarrow> \<exists>ks d'. statement lib (keys_query name) d (map (\<lambda>k. [k]) ks) d' \<and>
      holds d' base (Some t) \<and> set ks = dom t \<and> distinct ks"
    and "row_length (row_columns r) \<le> sqlite_max_length \<Longrightarrow>
      \<exists>d'. statement lib (put_row_query name r) d [] d' \<and> holds d' base (Some (t(fst r \<mapsto> snd r)))"
    and "\<exists>d'. statement lib (clear_query name) d [] d' \<and> holds d' base (Some Map.empty)"
    and "length k \<le> sqlite_max_length \<Longrightarrow>
      \<exists>d'. statement lib (remove_query name k) d [] d' \<and> holds d' base (Some (t(k := None)))"
  using assms(1) [unfolded sqlite_table_def, THEN conjunct2, THEN conjunct2, rule_format, OF assms(2)]
    assms [unfolded sqlite_table_def]
  by blast+

lemma sqlite_no_tx:
  assumes "sqlite_table lib name holds"
  shows "holds d base tx \<Longrightarrow> \<exists>d'. control lib rollback_query d d' \<and> holds d' base None"
    and "holds d base None \<Longrightarrow> \<exists>d'. control lib begin_query d d' \<and> holds d' base (Some base)"
    and "holds d base None \<Longrightarrow> \<exists>d'. control lib end_query d d' \<and> holds d' base None"
  using assms unfolding sqlite_table_def by blast+

text \<open>The answers that the client gets to them.\<close>

lemma c_tx:
  assumes "c_ready small fuel room lib sp name holds" and "holds d base (Some t)"
  shows "bounded_table t"
    and "\<exists>rows d'. query_answers small fuel room lib end_query d rows d' \<and> holds d' t None"
    and "\<exists>d'. query_answers small fuel room lib (clear_query name) d [] d' \<and> holds d' base (Some Map.empty)"
proof -
  have l: "sqlite_table lib name holds" using assms(1) by (simp add: c_ready_def)
  note tx = sqlite_tx [OF l assms(2)]
  show "bounded_table t" by (rule tx(1))
  show "\<exists>rows d'. query_answers small fuel room lib end_query d rows d' \<and> holds d' t None"
    using assms(1) tx(2) answers_control [of lib end_query] by (auto simp: c_ready_def) blast
  show "\<exists>d'. query_answers small fuel room lib (clear_query name) d [] d' \<and> holds d' base (Some Map.empty)"
    using assms(1) tx(7) answers_rows [of lib "clear_query name" d "[]" _ small room fuel]
    by (auto simp: c_ready_def)
qed

lemma c_no_tx:
  assumes "c_ready small fuel room lib sp name holds"
  shows "holds d base tx \<Longrightarrow>
      \<exists>rows d'. query_answers small fuel room lib rollback_query d rows d' \<and> holds d' base None"
    and "holds d base None \<Longrightarrow>
      \<exists>rows d'. query_answers small fuel room lib begin_query d rows d' \<and> holds d' base (Some base)"
    and "holds d base None \<Longrightarrow>
      \<exists>rows d'. query_answers small fuel room lib end_query d rows d' \<and> holds d' base None"
proof -
  have l: "sqlite_table lib name holds" using assms by (simp add: c_ready_def)
  show "holds d base tx \<Longrightarrow>
      \<exists>rows d'. query_answers small fuel room lib rollback_query d rows d' \<and> holds d' base None"
    using sqlite_no_tx(1) [OF l, of d base tx] assms answers_control [of lib rollback_query]
    by (auto simp: c_ready_def) blast
  show "holds d base None \<Longrightarrow>
      \<exists>rows d'. query_answers small fuel room lib begin_query d rows d' \<and> holds d' base (Some base)"
    using sqlite_no_tx(2) [OF l, of d base] assms answers_control [of lib begin_query]
    by (auto simp: c_ready_def) blast
  show "holds d base None \<Longrightarrow>
      \<exists>rows d'. query_answers small fuel room lib end_query d rows d' \<and> holds d' base None"
    using sqlite_no_tx(3) [OF l, of d base] assms answers_control [of lib end_query]
    by (auto simp: c_ready_def) blast
qed

lemma c_finds:
  assumes "c_ready small fuel room lib sp name holds" and "holds d base (Some t)"
    and "sends small room (find_query name k)"
  shows "\<exists>d'. query_answers small fuel room lib (find_query name k) d
    (case t k of None \<Rightarrow> [] | Some row \<Rightarrow> [binary_row [fst row, snd row]]) d' \<and> holds d' base (Some t)"
proof -
  have l: "sqlite_table lib name holds" using assms(1) by (simp add: c_ready_def)
  have "length k \<le> sqlite_max_length" using assms(3) by (simp add: sends_def find_query_def)
  from sqlite_tx(3) [OF l assms(2) this] obtain d' where d': "statement lib (find_query name k) d
      (case t k of None \<Rightarrow> [] | Some row \<Rightarrow> [[fst row, snd row]]) d'" "holds d' base (Some t)" by blast
  have "row_length [fst row, snd row] \<le> sqlite_max_length" if "t k = Some row" for row
    using bounded_row [OF sqlite_tx(1) [OF l assms(2)] that] by simp
  then have "query_answers small fuel room lib (find_query name k) d
      (map binary_row (case t k of None \<Rightarrow> [] | Some row \<Rightarrow> [[fst row, snd row]])) d'"
    using assms(1) by (intro answers_rows [OF d'(1) assms(3)]) (auto simp: c_ready_def split: option.splits)
  with d'(2) show ?thesis by (intro exI [of _ d']) (auto split: option.splits)
qed

lemma c_writes:
  assumes "c_ready small fuel room lib sp name holds" and "holds d base (Some t)"
  shows "sends small room (put_row_query name r) \<Longrightarrow> \<exists>d'.
      query_answers small fuel room lib (put_row_query name r) d [] d' \<and> holds d' base (Some (t(fst r \<mapsto> snd r)))"
    and "sends small room (remove_query name k) \<Longrightarrow> \<exists>d'.
      query_answers small fuel room lib (remove_query name k) d [] d' \<and> holds d' base (Some (t(k := None)))"
proof -
  have l: "sqlite_table lib name holds" using assms(1) by (simp add: c_ready_def)
  note tx = sqlite_tx [OF l assms(2)]
  show "\<exists>d'. query_answers small fuel room lib (put_row_query name r) d [] d' \<and>
      holds d' base (Some (t(fst r \<mapsto> snd r)))" if s: "sends small room (put_row_query name r)"
  proof -
    have "row_length (row_columns r) \<le> sqlite_max_length"
      using s by (simp add: sends_def put_row_query_def put_query_def row_columns_def split_beta)
    from tx(6) [OF this] show ?thesis
      using answers_rows [of lib "put_row_query name r" d "[]" _ small room fuel] s assms(1)
      by (auto simp: c_ready_def)
  qed
  show "\<exists>d'. query_answers small fuel room lib (remove_query name k) d [] d' \<and>
      holds d' base (Some (t(k := None)))" if s: "sends small room (remove_query name k)"
  proof -
    have "length k \<le> sqlite_max_length" using s by (simp add: sends_def remove_query_def)
    from tx(8) [OF this] show ?thesis
      using answers_rows [of lib "remove_query name k" d "[]" _ small room fuel] s assms(1)
      by (auto simp: c_ready_def)
  qed
qed

lemma c_loads:
  assumes "c_ready small fuel room lib sp name holds" and "holds d base (Some t)"
    and "finite (dom t)" and "card (dom t) < fuel"
  shows "\<exists>rs d'. query_answers small fuel room lib (load_query name) d (map table_row rs) d' \<and>
    holds d' base (Some t) \<and> map_of rs = t \<and> distinct (map fst rs)"
proof -
  have l: "sqlite_table lib name holds" using assms(1) by (simp add: c_ready_def)
  note tx = sqlite_tx [OF l assms(2)]
  obtain rs d' where rs: "statement lib (load_query name) d (map row_columns rs) d'" "holds d' base (Some t)"
    "map_of rs = t" "distinct (map fst rs)"
    using tx(4) [OF assms(3)] by blast
  have "query_answers small fuel room lib (load_query name) d (map binary_row (map row_columns rs)) d'"
    using assms(1,4) listed_rows [OF tx(1) rs(3,4)]
    by (intro answers_rows [OF rs(1)]) (auto simp: c_ready_def row_columns_def)
  with rs(2-4) show ?thesis unfolding table_row_columns by blast
qed

lemma c_lists_keys:
  assumes "c_ready small fuel room lib sp name holds" and "holds d base (Some t)"
    and "finite (dom t)" and "card (dom t) < fuel"
  shows "\<exists>ks d'. query_answers small fuel room lib (keys_query name) d (map (\<lambda>k. binary_row [k]) ks) d' \<and>
    holds d' base (Some t) \<and> set ks = dom t \<and> distinct ks"
proof -
  have l: "sqlite_table lib name holds" using assms(1) by (simp add: c_ready_def)
  note tx = sqlite_tx [OF l assms(2)]
  obtain ks d2 where ks: "statement lib (keys_query name) d (map (\<lambda>k. [k]) ks) d2" "holds d2 base (Some t)"
    "set ks = dom t" "distinct ks"
    using tx(5) [OF assms(3)] by blast
  have "length k \<le> sqlite_max_length" if "k \<in> set ks" for k
    using that ks(3) bounded_row [OF tx(1), of k] by fastforce
  then have "query_answers small fuel room lib (keys_query name) d (map binary_row (map (\<lambda>k. [k]) ks)) d2"
    using assms(1,4) distinct_card [OF ks(4)] unfolding ks(3) [symmetric]
    by (intro answers_rows [OF ks(1)]) (auto simp: c_ready_def)
  with ks(2-4) show ?thesis
    by (intro exI [of _ ks] exI [of _ d2]) (simp add: comp_def del: binary_row_simps)
qed

interpretation c_table: sql_table "run_query small fuel lib" "query_answers small fuel room lib"
  "\<lambda>l d. lib_ok lib \<and> idle_link room blocks l d" sp name
  "\<lambda>d base tx. c_ready small fuel room lib sp name holds \<and> holds d base tx" "sends small room" fuel
  for small fuel and lib :: "('d, 'st) sqlite_lib" and room blocks sp name holds
proof (unfold_locales, goal_cases)
  case 1
  then show ?case by (simp add: c_ready_def)
next
  case 2
  from c_no_tx(1) [OF 2 [THEN conjunct1] 2 [THEN conjunct2]] 2 show ?case by blast
next
  case 3
  from c_no_tx(2) [OF 3 [THEN conjunct1] 3 [THEN conjunct2]] 3 show ?case by blast
next
  case 4
  from c_tx(2) [OF 4 [THEN conjunct1] 4 [THEN conjunct2]] 4 show ?case by blast
next
  case 5
  from c_no_tx(3) [OF 5 [THEN conjunct1] 5 [THEN conjunct2]] 5 show ?case by blast
next
  case 6
  from c_finds [OF 6(1) [THEN conjunct1] 6(1) [THEN conjunct2] 6(2)] 6(1) show ?case by blast
next
  case 7
  from c_loads [OF 7(1) [THEN conjunct1] 7(1) [THEN conjunct2] 7(2,3)] 7(1) show ?case by blast
next
  case 8
  from c_lists_keys [OF 8(1) [THEN conjunct1] 8(1) [THEN conjunct2] 8(2,3)] 8(1) show ?case by blast
next
  case 9
  from c_writes(1) [OF 9(1) [THEN conjunct1] 9(1) [THEN conjunct2] 9(2)] 9(1) show ?case by blast
next
  case 10
  from c_tx(3) [OF 10 [THEN conjunct1] 10 [THEN conjunct2]] 10 show ?case by blast
next
  case 11
  from c_writes(2) [OF 11(1) [THEN conjunct1] 11(1) [THEN conjunct2] 11(2)] 11(1) show ?case by blast
qed

section \<open>A small SQLite\<close>

text \<open>For the witnesses: a library with one table, kept as a list of rows, and the statements used on
  it; a statement handle is the text. Outside a transaction a write is committed at once.\<close>

type_synonym mini_table = "(u8 list \<times> u8 list \<times> u8 list) list"

record mini =
  mini_base :: mini_table
  mini_tx :: "mini_table option"
  mini_args :: "u8 list list"
  mini_started :: bool
  mini_results :: "u8 list list list"
  mini_row :: "u8 list list"

definition mini_name :: "u8 list" where "mini_name = bytes_of ''kv''"

datatype mini_stmt = M_rollback | M_begin | M_end | M_find | M_load | M_keys | M_put | M_clear | M_remove

definition mini_texts :: "(u8 list \<times> mini_stmt) list" where
  "mini_texts =
     [(fst rollback_query, M_rollback), (fst begin_query, M_begin), (fst end_query, M_end),
      (fst (find_query mini_name []), M_find), (fst (load_query mini_name), M_load),
      (fst (keys_query mini_name), M_keys), (fst (put_query mini_name []), M_put),
      (fst (clear_query mini_name), M_clear), (fst (remove_query mini_name []), M_remove)]"

definition mini_current :: "mini \<Rightarrow> mini_table" where
  "mini_current d = (case mini_tx d of None \<Rightarrow> mini_base d | Some t \<Rightarrow> t)"

definition mini_write :: "mini_table \<Rightarrow> mini \<Rightarrow> u8 list list list \<times> mini_table \<times> mini_table option" where
  "mini_write t d = (case mini_tx d of None \<Rightarrow> ([], t, None) | Some _ \<Rightarrow> ([], mini_base d, Some t))"

definition mini_exec ::
    "mini_stmt \<Rightarrow> mini \<Rightarrow> (u8 list list list \<times> mini_table \<times> mini_table option) option" where
  "mini_exec st d =
     (let t = mini_current d; read = (\<lambda>rows. Some (rows, mini_base d, mini_tx d)) in
      case st of
        M_rollback \<Rightarrow> (case mini_tx d of None \<Rightarrow> None | Some _ \<Rightarrow> Some ([], mini_base d, None))
      | M_begin \<Rightarrow>
          (case mini_tx d of None \<Rightarrow> Some ([], mini_base d, Some (mini_base d)) | Some _ \<Rightarrow> None)
      | M_end \<Rightarrow> (case mini_tx d of None \<Rightarrow> None | Some t \<Rightarrow> Some ([], t, None))
      | M_load \<Rightarrow> read (map row_columns t)
      | M_keys \<Rightarrow> read (map (\<lambda>r. [fst r]) t)
      | M_clear \<Rightarrow> Some (mini_write [] d)
      | M_find \<Rightarrow>
          (case mini_args d of
             [k] \<Rightarrow> read (case map_of t k of None \<Rightarrow> [] | Some row \<Rightarrow> [[fst row, snd row]])
           | _ \<Rightarrow> None)
      | M_put \<Rightarrow>
          (case mini_args d of
             [k, ty, v] \<Rightarrow> Some (mini_write (AList.update k (ty, v) t) d)
           | _ \<Rightarrow> None)
      | M_remove \<Rightarrow>
          (case mini_args d of [k] \<Rightarrow> Some (mini_write (AList.delete k t) d) | _ \<Rightarrow> None))"

definition mini_yield :: "mini \<Rightarrow> step_rc \<times> mini" where
  "mini_yield d =
     (case mini_results d of
        [] \<Rightarrow> (SQLITE_DONE, d)
      | r # rs \<Rightarrow> (SQLITE_ROW, d\<lparr>mini_row := r, mini_results := rs\<rparr>))"

definition mini_step :: "u8 list option \<Rightarrow> mini \<Rightarrow> step_rc \<times> mini" where
  "mini_step st d =
     (if mini_started d then mini_yield d
      else case Option.bind st (map_of mini_texts) of
        None \<Rightarrow> (SQLITE_failed, d)
      | Some stm \<Rightarrow>
          (case mini_exec stm d of
             None \<Rightarrow> (SQLITE_failed, d)
           | Some (rows, b, t) \<Rightarrow> mini_yield (d\<lparr>mini_base := b, mini_tx := t, mini_started := True,
               mini_results := rows\<rparr>)))"

definition mini_cell :: "nat \<Rightarrow> mini \<Rightarrow> u8 list" where
  "mini_cell c d = (if c < length (mini_row d) then take sqlite_max_length (mini_row d ! c) else [])"

definition mini_lib :: "(mini, u8 list) sqlite_lib" where
  "mini_lib = \<lparr>
     lib_open = (\<lambda>d. (True, d)),
     lib_prepare = (\<lambda>sql d. if map_of mini_texts sql = None then (False, None, d)
       else (True, Some sql, d\<lparr>mini_args := [], mini_started := False\<rparr>)),
     lib_bind = (\<lambda>b st i bs d. d\<lparr>mini_args := mini_args d @ [bs]\<rparr>),
     lib_step = mini_step,
     lib_column_count = (\<lambda>st d. length (take 3 (mini_row d))),
     lib_column_blob = (\<lambda>st c d. mini_cell c d),
     lib_column_bytes = (\<lambda>st c d. word_of_nat (length (mini_cell c d))),
     lib_errmsg = (\<lambda>d. bytes_of ''SQL logic error'' @ [0]),
     lib_finalize = (\<lambda>st d. d),
     lib_enable_load_extension = (\<lambda>d. d),
     lib_close = (\<lambda>d. d)\<rparr>"

lemma mini_fields [simp]:
  "lib_prepare mini_lib sql d = (if map_of mini_texts sql = None then (False, None, d)
     else (True, Some sql, d\<lparr>mini_args := [], mini_started := False\<rparr>))"
  "lib_bind mini_lib b st i bs d = d\<lparr>mini_args := mini_args d @ [bs]\<rparr>"
  "lib_step mini_lib = mini_step" "lib_column_count mini_lib st d = length (take 3 (mini_row d))"
  "lib_column_blob mini_lib st c d = mini_cell c d" "lib_finalize mini_lib st d = d"
  by (simp_all add: mini_lib_def)

lemma mini_lib_ok: "lib_ok mini_lib"
proof -
  have cell: "length (mini_cell c d) \<le> sqlite_max_length" for c d by (simp add: mini_cell_def)
  have "unat (word_of_nat (length (mini_cell c d)) :: u32) = length (mini_cell c d)" for c d
    using cell [of c d] by (intro unat_u32_of_nat) (simp add: sqlite_max_length_def)
  moreover have "length (mini_cell c d) < 2 ^ 31" for c d
    using cell [of c d] by (simp add: sqlite_max_length_def)
  moreover have "\<exists>cs. lib_errmsg mini_lib d = cs @ [0] \<and> 0 \<notin> set cs \<and> length cs < 2 ^ 30" for d
    by (intro exI [of _ "bytes_of ''SQL logic error''"]) (simp add: mini_lib_def bytes_of_def)
  ultimately show ?thesis by (auto simp: lib_ok_def mini_lib_def)
qed

text \<open>A statement that can be executed answers with its rows.\<close>

lemma mini_rows:
  assumes "mini_started d" and "\<forall>r \<in> set (mini_results d). r \<noteq> [] \<and> length r \<le> 3 \<and>
      (\<forall>c \<in> set r. length c \<le> sqlite_max_length)"
  shows "\<exists>d'. steps_to mini_lib st d (map table_payload (mini_results d)) True d' \<and>
    mini_base d' = mini_base d \<and> mini_tx d' = mini_tx d"
  using assms
proof (induction "mini_results d" arbitrary: d)
  case Nil
  have "steps_to mini_lib st d [] True d"
    by (rule steps_to.finished) (simp add: mini_step_def mini_yield_def Nil.prems(1) flip: Nil.hyps)
  then show ?case using Nil.hyps by auto
next
  case (Cons r rs)
  let ?d = "d\<lparr>mini_row := r, mini_results := rs\<rparr>"
  have r: "r \<noteq> []" "length r \<le> 3" "\<forall>c \<in> set r. length c \<le> sqlite_max_length"
    using Cons.prems(2) by (auto simp flip: Cons.hyps(2))
  obtain d' where d': "steps_to mini_lib st ?d (map table_payload rs) True d'" "mini_base d' = mini_base d"
    "mini_tx d' = mini_tx d"
    using Cons.hyps(1) [of ?d] Cons.prems by (auto simp flip: Cons.hyps(2))
  have "map (\<lambda>c. mini_cell c ?d) [0..<length r] = r"
    using r(3) by (intro nth_equalityI) (simp_all add: mini_cell_def)
  then have "row_payload mini_lib st ?d = table_payload r"
    using r(2) by (simp add: row_payload_table)
  then have "steps_to mini_lib st d (table_payload r # map table_payload rs) True d'"
    using steps_to.a_row [of mini_lib st d ?d "map table_payload rs" True d'] d'(1) r(1) Cons.prems(1)
    by (simp add: mini_step_def mini_yield_def flip: Cons.hyps(2))
  with d'(2,3) show ?case by (auto simp flip: Cons.hyps(2))
qed

lemma same_first_step:
  assumes "steps_to lib st d fs ok d'" and "lib_step lib st c = lib_step lib st d"
  shows "steps_to lib st c fs ok d'"
  using assms(1)
proof (cases rule: steps_to.cases)
  case (a_row d1 gs)
  show ?thesis unfolding a_row(1) by (rule steps_to.a_row [OF _ a_row(3,4)]) (simp add: assms(2) a_row(2))
qed (simp_all add: assms(2) steps_to.intros)

lemma mini_binds:
  "bind_all mini_lib st i args d = d\<lparr>mini_args := mini_args d @ map snd args\<rparr>"
  by (induction args arbitrary: i d) auto

lemma mini_serves:
  assumes "map_of mini_texts (fst q) = Some stm"
    and "mini_exec stm (d\<lparr>mini_started := False, mini_args := map snd (snd q)\<rparr>) = Some (rows, b, t)"
    and "\<forall>r \<in> set rows. r \<noteq> [] \<and> length r \<le> 3 \<and> (\<forall>c \<in> set r. length c \<le> sqlite_max_length)"
  shows "\<exists>d'. statement mini_lib q d rows d' \<and> mini_base d' = b \<and> mini_tx d' = t"
proof -
  obtain sql args where q: "q = (sql, args)" by fastforce
  let ?d0 = "d\<lparr>mini_started := False, mini_args := map snd args\<rparr>"
  let ?d1 = "?d0\<lparr>mini_base := b, mini_tx := t, mini_started := True, mini_results := rows\<rparr>"
  obtain d' where d': "steps_to mini_lib (Some sql) ?d1 (map table_payload rows) True d'"
    "mini_base d' = b" "mini_tx d' = t"
    using mini_rows [of ?d1 "Some sql"] assms(3) by auto
  have "mini_step (Some sql) ?d0 = mini_step (Some sql) ?d1"
    using assms(1,2) by (simp add: mini_step_def q)
  then have "steps_to mini_lib (Some sql) ?d0 (map table_payload rows) True d'"
    by (intro same_first_step [OF d'(1)]) simp
  then have "serves mini_lib d (sql, args) (map table_payload rows) (lib_finalize mini_lib (Some sql) d')"
    using assms(1) by (intro serves.executed [where ?d1.0 = "d\<lparr>mini_args := [], mini_started := False\<rparr>" and ok = True])
      (simp_all add: q mini_binds)
  with d'(2,3) show ?thesis by (auto simp: q statement_def)
qed

lemma mini_fails:
  assumes "map_of mini_texts (fst q) = Some stm"
    and "mini_exec stm (d\<lparr>mini_started := False, mini_args := map snd (snd q)\<rparr>) = None"
  shows "\<exists>d'. control mini_lib q d d' \<and> mini_base d' = mini_base d \<and> mini_tx d' = mini_tx d"
proof -
  obtain sql args where q: "q = (sql, args)" by fastforce
  let ?d0 = "d\<lparr>mini_started := False, mini_args := map snd args\<rparr>"
  have "steps_to mini_lib (Some sql) ?d0 [error_payload mini_lib ?d0] False ?d0"
    using assms by (intro steps_to.failed) (simp add: mini_step_def q)
  then have "serves mini_lib d (sql, args) [error_payload mini_lib ?d0] (lib_finalize mini_lib (Some sql) ?d0)"
    using assms(1) by (intro serves.executed [where ?d1.0 = "d\<lparr>mini_args := [], mini_started := False\<rparr>" and ok = False])
      (simp_all add: q mini_binds)
  then show ?thesis by (auto simp: control_def q)
qed

lemma mini_texts_at:
  "map_of mini_texts (fst rollback_query) = Some M_rollback"
  "map_of mini_texts (fst begin_query) = Some M_begin"
  "map_of mini_texts (fst end_query) = Some M_end"
  "map_of mini_texts (fst (find_query mini_name k)) = Some M_find"
  "map_of mini_texts (fst (load_query mini_name)) = Some M_load"
  "map_of mini_texts (fst (keys_query mini_name)) = Some M_keys"
  "map_of mini_texts (fst (put_row_query mini_name r)) = Some M_put"
  "map_of mini_texts (fst (clear_query mini_name)) = Some M_clear"
  "map_of mini_texts (fst (remove_query mini_name k)) = Some M_remove"
  by (simp_all add: mini_texts_def rollback_query_def begin_query_def end_query_def find_query_def
      load_query_def keys_query_def put_row_query_def put_query_def clear_query_def remove_query_def
      quoted_def mini_name_def bytes_of_def)

definition mini_holds :: "mini \<Rightarrow> ktable \<Rightarrow> ktable option \<Rightarrow> bool" where
  "mini_holds d base tx \<longleftrightarrow>
     map_of (mini_base d) = base \<and> distinct (map fst (mini_base d)) \<and> bounded_table base \<and>
     (case tx of
        None \<Rightarrow> mini_tx d = None
      | Some t \<Rightarrow> \<exists>l. mini_tx d = Some l \<and> map_of l = t \<and> distinct (map fst l) \<and> bounded_table t)"

lemma bounded_update:
  "bounded_table t \<Longrightarrow> row_length (row_columns r) \<le> sqlite_max_length \<Longrightarrow> bounded_table (t(fst r \<mapsto> snd r))"
  by (cases r) (auto simp: bounded_table_def row_columns_def)

lemma mini_bounded:
  assumes "mini_holds d base tx"
  shows "bounded_table base" and "tx = Some t \<Longrightarrow> bounded_table t"
  using assms by (auto simp: mini_holds_def)

lemma mini_rollback:
  assumes "mini_holds d base tx"
  shows "\<exists>d'. control mini_lib rollback_query d d' \<and> mini_holds d' base None"
proof (cases "mini_tx d")
  case None
  with mini_fails [OF mini_texts_at(1), of d] assms show ?thesis
    by (auto simp: mini_exec_def mini_holds_def)
next
  case (Some t)
  with mini_serves [OF mini_texts_at(1), of d "[]" "mini_base d" None] assms show ?thesis
    by (auto simp: mini_exec_def mini_holds_def control_def statement_def)
qed

lemma mini_closed:
  assumes "mini_holds d base None"
  shows "\<exists>d'. control mini_lib begin_query d d' \<and> mini_holds d' base (Some base)"
    and "\<exists>d'. control mini_lib end_query d d' \<and> mini_holds d' base None"
  using assms mini_serves [OF mini_texts_at(2), of d "[]" "mini_base d" "Some (mini_base d)"]
    mini_fails [OF mini_texts_at(3), of d]
  by (auto simp: mini_exec_def mini_holds_def control_def statement_def)

text \<open>The statements in a transaction, by the list that it works on.\<close>

lemma mini_open:
  assumes "mini_holds d base (Some t)"
  obtains l where "mini_tx d = Some l" "map_of l = t" "distinct (map fst l)" "bounded_table t"
  using assms by (auto simp: mini_holds_def)

lemma mini_kept:
  assumes "mini_holds d base (Some t)" and "mini_base d' = mini_base d"
  shows "mini_tx d' = mini_tx d \<Longrightarrow> mini_holds d' base (Some t)"
    and "mini_tx d' = Some l \<Longrightarrow> distinct (map fst l) \<Longrightarrow> bounded_table (map_of l) \<Longrightarrow>
      mini_holds d' base (Some (map_of l))"
  using assms by (simp_all add: mini_holds_def)

lemma mini_end:
  assumes "mini_holds d base (Some t)"
  shows "\<exists>d'. control mini_lib end_query d d' \<and> mini_holds d' t None"
proof -
  obtain l where l: "mini_tx d = Some l" "map_of l = t" "distinct (map fst l)" "bounded_table t"
    using mini_open [OF assms] .
  then show ?thesis
    using mini_serves [OF mini_texts_at(3), of d "[]" l None]
    by (auto simp: mini_exec_def mini_holds_def control_def statement_def)
qed

lemma mini_finds:
  assumes "mini_holds d base (Some t)"
  shows "\<exists>d'. statement mini_lib (find_query mini_name k) d
    (case t k of None \<Rightarrow> [] | Some row \<Rightarrow> [[fst row, snd row]]) d' \<and> mini_holds d' base (Some t)"
proof -
  obtain l where l: "mini_tx d = Some l" "map_of l = t" "bounded_table t" using mini_open [OF assms] .
  have "\<forall>r \<in> set (case t k of None \<Rightarrow> [] | Some row \<Rightarrow> [[fst row, snd row]]).
      r \<noteq> [] \<and> length r \<le> 3 \<and> (\<forall>c \<in> set r. length c \<le> sqlite_max_length)"
    using bounded_row [OF l(3), of k] by (cases "t k") fastforce+
  from mini_serves [where d = d and b = "mini_base d" and t = "mini_tx d", OF mini_texts_at(4) _ this]
    mini_kept(1) [OF assms] l(1,2)
  show ?thesis by (auto simp: mini_exec_def mini_current_def find_query_def)
qed

lemma mini_row_length:
  assumes "bounded_table t" and "map_of l = t" and "distinct (map fst l)" and "r \<in> set l"
  shows "length (fst r) + length (fst (snd r)) + length (snd (snd r)) \<le> sqlite_max_length"
proof -
  have "t (fst r) = Some (snd r)" using assms(3,4) by (simp flip: assms(2))
  from bounded_row [OF assms(1) this] show ?thesis .
qed

lemma mini_loads:
  assumes "mini_holds d base (Some t)"
  shows "\<exists>rs d'. statement mini_lib (load_query mini_name) d (map row_columns rs) d' \<and>
    mini_holds d' base (Some t) \<and> map_of rs = t \<and> distinct (map fst rs)"
proof -
  obtain l where l: "mini_tx d = Some l" "map_of l = t" "distinct (map fst l)" "bounded_table t"
    using mini_open [OF assms] .
  have "\<forall>r \<in> set (map row_columns l). r \<noteq> [] \<and> length r \<le> 3 \<and> (\<forall>c \<in> set r. length c \<le> sqlite_max_length)"
    using mini_row_length [OF l(4,2,3)] by (fastforce simp: row_columns_def)
  from mini_serves [where d = d and b = "mini_base d" and t = "mini_tx d", OF mini_texts_at(5) _ this]
    mini_kept(1) [OF assms] l
  show ?thesis by (intro exI [of _ l]) (auto simp: mini_exec_def mini_current_def)
qed

lemma mini_lists_keys:
  assumes "mini_holds d base (Some t)"
  shows "\<exists>ks d'. statement mini_lib (keys_query mini_name) d (map (\<lambda>k. [k]) ks) d' \<and>
    mini_holds d' base (Some t) \<and> set ks = dom t \<and> distinct ks"
proof -
  obtain l where l: "mini_tx d = Some l" "map_of l = t" "distinct (map fst l)" "bounded_table t"
    using mini_open [OF assms] .
  have "\<forall>r \<in> set (map (\<lambda>r. [fst r]) l). r \<noteq> [] \<and> length r \<le> 3 \<and> (\<forall>c \<in> set r. length c \<le> sqlite_max_length)"
    using mini_row_length [OF l(4,2,3)] by fastforce
  from mini_serves [where d = d and b = "mini_base d" and t = "mini_tx d", OF mini_texts_at(6) _ this]
  obtain d' where "statement mini_lib (keys_query mini_name) d (map (\<lambda>r. [fst r]) l) d'"
    "mini_base d' = mini_base d" "mini_tx d' = mini_tx d"
    by (auto simp: mini_exec_def mini_current_def l(1))
  moreover have "set (map fst l) = dom t" using l(2) dom_map_of_conv_image_fst [of l] by simp
  ultimately show ?thesis
    using mini_kept(1) [OF assms, of d'] l(3)
    by (intro exI [of _ "map fst l"] exI [of _ d']) (simp add: comp_def)
qed

lemma mini_writes:
  assumes "mini_holds d base (Some t)"
  shows "\<exists>d'. statement mini_lib (clear_query mini_name) d [] d' \<and> mini_holds d' base (Some Map.empty)"
    and "row_length (row_columns r) \<le> sqlite_max_length \<Longrightarrow>
      \<exists>d'. statement mini_lib (put_row_query mini_name r) d [] d' \<and>
        mini_holds d' base (Some (t(fst r \<mapsto> snd r)))"
    and "\<exists>d'. statement mini_lib (remove_query mini_name k) d [] d' \<and> mini_holds d' base (Some (t(k := None)))"
proof -
  obtain l where l: "mini_tx d = Some l" "map_of l = t" "distinct (map fst l)" "bounded_table t"
    using mini_open [OF assms] .
  note defs = mini_exec_def mini_current_def mini_write_def l(1)
  note written = mini_kept(2) [OF assms]
  show "\<exists>d'. statement mini_lib (clear_query mini_name) d [] d' \<and> mini_holds d' base (Some Map.empty)"
    using mini_serves [OF mini_texts_at(8), of d "[]" "mini_base d" "Some []"] written [of _ "[]"]
    by (auto simp: defs bounded_table_def)
  show "\<exists>d'. statement mini_lib (put_row_query mini_name r) d [] d' \<and>
      mini_holds d' base (Some (t(fst r \<mapsto> snd r)))" if r: "row_length (row_columns r) \<le> sqlite_max_length"
    using mini_serves [OF mini_texts_at(7) [of r], of d "[]" "mini_base d" "Some (AList.update (fst r) (snd r) l)"]
      written [of _ "AList.update (fst r) (snd r) l"] bounded_update [OF l(4) r] l(2,3)
    by (auto simp: defs put_row_query_def put_query_def update_conv' distinct_update)
  have "bounded_table (t(k := None))" using l(4) by (auto simp: bounded_table_def)
  then show "\<exists>d'. statement mini_lib (remove_query mini_name k) d [] d' \<and> mini_holds d' base (Some (t(k := None)))"
    using mini_serves [where d = d and rows = "[]" and b = "mini_base d" and t = "Some (AList.delete k l)",
        OF mini_texts_at(9) [of k]]
      written [of _ "AList.delete k l"] l(2,3)
    by (auto simp: defs remove_query_def delete_conv' distinct_delete)
qed

lemma mini_table: "sqlite_table mini_lib mini_name mini_holds"
  unfolding sqlite_table_def
  by (intro conjI allI impI; erule mini_bounded mini_rollback mini_closed mini_end mini_finds mini_loads
      mini_lists_keys mini_writes; assumption?)

section \<open>Properties\<close>

text \<open>The store of a client: the table over the C program, with no transaction under way, holds
  the map.\<close>

definition stored ::
    "bool \<Rightarrow> nat \<Rightarrow> nat \<Rightarrow> nat \<Rightarrow> ('d, 'st) sqlite_lib \<Rightarrow> table_spec \<Rightarrow> u8 list \<Rightarrow>
      ('d \<Rightarrow> ktable \<Rightarrow> ktable option \<Rightarrow> bool) \<Rightarrow> ('d, 'st) port_link \<Rightarrow> (evalue \<rightharpoonup> type_val) \<Rightarrow> bool" where
  "stored small fuel room blocks lib sp name holds l m \<longleftrightarrow>
     table_rep (\<lambda>l d. lib_ok lib \<and> idle_link room blocks l d)
       (\<lambda>d base tx. c_ready small fuel room lib sp name holds \<and> holds d base tx) sp name
       (sends small room) fuel l m"

definition toy_spec :: table_spec where
  "toy_spec = \<lparr>t_syntax = toy_syntax, t_others = (\<lambda>_. None),
     t_mod = base_module toy_syntax (\<lambda>_. None), t_table = e_atom ''kv''\<rparr>"

definition mini_link :: "(mini, u8 list) port_link" where
  "mini_link = \<lparr>program = \<lparr>rd = (\<lambda>_. []), wr = (\<lambda>_. []), out = (\<lambda>_. []), malloc_max = 1000,
     live_blocks = 0,
     db = \<lparr>mini_base = [], mini_tx = None, mini_args = [], mini_started = False, mini_results = [],
       mini_row = []\<rparr>,
     stmt = None\<rparr>, inbox = []\<rparr>"

lemma mini_ready: "c_ready False 10 1000 mini_lib toy_spec mini_name mini_holds"
proof -
  have "spec_name toy_spec = Value mini_name"
    by (simp add: spec_name_def toy_spec_def table_name_def mini_name_def)
  moreover have "list_all (sends False 1000) [rollback_query, begin_query, end_query,
      load_query mini_name, keys_query mini_name, clear_query mini_name]"
    by (simp add: sends_def request_ok_def request_def query_term_def MAX_NB_SLICES_def rollback_query_def
        begin_query_def end_query_def load_query_def keys_query_def clear_query_def quoted_def mini_name_def)
  ultimately show ?thesis using mini_lib_ok mini_table by (simp add: c_ready_def)
qed

lemma mini_stored: "stored False 10 1000 0 mini_lib toy_spec mini_name mini_holds mini_link Map.empty"
proof -
  have "mini_holds (db (program mini_link)) Map.empty None"
    by (simp add: mini_holds_def mini_link_def bounded_table_def)
  moreover have "idle_link 1000 0 mini_link (db (program mini_link))"
    by (simp add: idle_link_def sq_ready_def mini_link_def readable_def writable_def pending_def)
  ultimately show ?thesis
    using mini_lib_ok mini_ready holds_empty [of toy_spec]
    unfolding stored_def table_rep_def table_room_def by auto
qed

text \<open>Its keys and values: atoms and integers.\<close>

lemma toy_key_ok:
  assumes "k = e_atom ''red'' \<or> k = e_atom ''blue''"
  shows "table_key_ok toy_spec mini_name (sends False 1000) k"
  using assms
  by (auto simp: table_key_ok_def spec_key_def toy_spec_def toy_keys sends_def request_ok_def request_def
      query_term_def arg_term_def bind_name_def MAX_NB_SLICES_def find_query_def remove_query_def quoted_def
      mini_name_def sqlite_max_length_def)

lemma toy_terms:
  "encode_type toy_syntax others (e_atom ''pterm'') = Value (bytes_of ''pterm'')"
  "type_encode toy_syntax others (Named (e_atom ''pterm''), E_int 5) = Value (bytes_of ''5'')"
  unfolding encode_type_def pterm_codec(1)
  by (simp_all add: toy_syntax_def toy_range_def int_type_def dec_pterm_def bytes_of_def word_le_nat_alt
      int_bytes_def dec_bytes_rec binary_to_integer_def all_digits_def is_digit_def)

lemma toy_row:
  "row_of toy_spec (e_atom ''red'') (pterm_val (E_int 5)) (bytes_of ''red'') (bytes_of ''pterm'', bytes_of ''5'')"
proof -
  have "dec_pterm toy_syntax (bytes_of ''5'') = Value (E_int 5)"
    using toy_terms(2) [of "\<lambda>_. None", unfolded pterm_codec(1)] by (rule conjunct2)
  then show ?thesis
    using toy_keys(1) toy_terms key_read_back(1) [OF toy_keys(1)] key_read_back(2) [OF toy_terms(1)]
    by (simp add: row_of_def spec_ktv_def spec_row_def toy_spec_def pterm_val_def encode_ktv_def
        base_module_def pterm_codec(2))
qed

lemma toy_storable: "table_storable toy_spec mini_name (sends False 1000) (e_atom ''red'') (pterm_val (E_int 5))"
proof -
  have "sends False 1000 (put_query mini_name [bytes_of ''red'', bytes_of ''pterm'', bytes_of ''5''])"
    by (simp add: sends_def request_ok_def request_def query_term_def arg_term_def MAX_NB_SLICES_def
        put_query_def quoted_def mini_name_def sqlite_max_length_def)
  with toy_row show ?thesis unfolding table_storable_def by force
qed

text \<open>C12: A table of the database serves the protocol of src/obj.erl as the memory of a process
  would, for the messages dump, replace, merge, remove, find and set, with keys and values the table
  can take and as long as SQLite carries out every statement. Over any sequence of them, a store
  (\<open>to_obj\<close>) gives the answers the in-memory object gives, a map in any order; only for a
  key that is not there it answers \<open>{not_found,Key}\<close> where the object answers \<open>error\<close>. Every value is
  encoded as a term, written by a transaction over the port of sqlite3.c, and read back from the
  rows that the program sends; and the store again holds what the object's map is then. The two
  update messages, which the object serves, have no clause in the store: the first of them ends
  the process, with everything stored before it.\<close>

theorem persistent_object:
  assumes "stored small fuel room blocks lib sp name holds l m"
    and "map_of ob = obj_view m" and "distinct (map fst ob)" and "obj_run msgs ob = Value (as, ob')"
    and "obj_all_fit (table_key_ok sp name (sends small room)) (table_storable sp name (sends small room))
      (table_room fuel) ob msgs"
  shows "\<exists>l' m' bs. to_obj_run (table_store (run_query small fuel lib) sp) msgs l = Some (Value bs, l') \<and>
    list_all2 same_answer (map2 store_answer msgs as) bs \<and>
    stored small fuel room blocks lib sp name holds l' m' \<and> map_of ob' = obj_view m' \<and>
    (\<forall>upd rest. is_update upd \<longrightarrow>
       to_obj_run (table_store (run_query small fuel lib) sp) (msgs @ upd # rest) l = Some (no_clause, l'))"
proof -
  obtain l' m' bs where "to_obj_run (table_store (run_query small fuel lib) sp) msgs l = Some (Value bs, l')"
    "list_all2 same_answer (map2 store_answer msgs as) bs"
    "stored small fuel room blocks lib sp name holds l' m'" "map_of ob' = obj_view m'"
    using c_table.kv.obj_session [OF assms(1) [unfolded stored_def] assms(2-5)]
    unfolding stored_def by blast
  with update_not_served [OF this(1)] show ?thesis by blast
qed

definition toy_msgs :: "obj_msg list" where
  "toy_msgs = [Obj_find (e_atom ''red''), Obj_set (e_atom ''red'') (E_int 5), Obj_find (e_atom ''red'')]"

theorem persistent_object_witness:
  "\<exists>l'. to_obj_run (table_store (run_query False 10 mini_lib) toy_spec) toy_msgs mini_link =
     Some (Value [Ans_other (E_tuple [e_atom ''not_found'', e_atom ''red'']), Ans_ok, Ans_found (E_int 5)], l') \<and>
   to_obj_run (table_store (run_query False 10 mini_lib) toy_spec) (toy_msgs @ [Obj_update_map (\<lambda>m. Value (E_nil, m))])
     mini_link = Some (no_clause, l')"
proof -
  have run: "obj_run toy_msgs [] = Value ([Ans_other (e_atom ''error''), Ans_ok, Ans_found (E_int 5)],
      [(e_atom ''red'', E_int 5)])"
    by (simp add: toy_msgs_def)
  have "obj_all_fit (table_key_ok toy_spec mini_name (sends False 1000))
      (table_storable toy_spec mini_name (sends False 1000)) (table_room 10) [] toy_msgs"
    using toy_key_ok toy_storable
    by (simp add: toy_msgs_def obj_fits_def table_room_def tag_map_def)
  from persistent_object [OF mini_stored _ _ run this]
  obtain l' bs where l': "to_obj_run (table_store (run_query False 10 mini_lib) toy_spec) toy_msgs mini_link =
      Some (Value bs, l')"
    "list_all2 same_answer (map2 store_answer toy_msgs [Ans_other (e_atom ''error''), Ans_ok, Ans_found (E_int 5)]) bs"
    "\<forall>upd rest. is_update upd \<longrightarrow>
      to_obj_run (table_store (run_query False 10 mini_lib) toy_spec) (toy_msgs @ upd # rest) mini_link = Some (no_clause, l')"
    by auto
  from l'(2) have "bs = [Ans_other (E_tuple [e_atom ''not_found'', e_atom ''red'']), Ans_ok, Ans_found (E_int 5)]"
    by (auto simp: toy_msgs_def list_all2_Cons1 elim!: same_answer.elims)
  with l'(1) l'(3) [rule_format, of "Obj_update_map (\<lambda>m. Value (E_nil, m))" "[]"] show ?thesis by auto
qed

text \<open>C16: The check of a conditional write decides it, as long as SQLite carries out every statement
  (that is part of \<open>stored\<close>; when a statement fails, the writes before it are committed and the caller
  gets an exception, C37). The check is given the whole table as it will be; when it answers ok, the
  entries are stored, and when it fails, the caller gets its message as an exception and the table
  is what it was, since the transaction is rolled back before it is ended.\<close>

theorem checked_writes_decided:
  assumes "stored small fuel room blocks lib sp name holds l m"
    and "\<forall>(k, tv) \<in> set xs. table_storable sp name (sends small room) k tv"
    and "table_room fuel (m ++ map_of (rev xs))"
  shows "\<exists>new. map_of new = m ++ map_of (rev xs) \<and> distinct (map fst new) \<and>
    (check new = Check_ok \<longrightarrow>
      (\<exists>l'. kv_put_list_cond (table_store (run_query small fuel lib) sp) xs check l = Some (Value (), l') \<and>
        stored small fuel room blocks lib sp name holds l' (m ++ map_of (rev xs)))) \<and>
    (\<forall>msg. check new = Check_failed msg \<longrightarrow>
      (\<exists>l'. kv_put_list_cond (table_store (run_query small fuel lib) sp) xs check l =
          Some (Throw (E_tuple [e_atom ''put_list_cond'', sqlite3_abort msg]), l') \<and>
        stored small fuel room blocks lib sp name holds l' m))"
  using c_table.put_list_cond_op [OF assms(1) [unfolded stored_def] assms(2,3), of check]
  unfolding stored_def .

theorem checked_writes_decided_witness:
  "\<exists>l'. kv_put_list_cond (table_store (run_query False 10 mini_lib) toy_spec)
      [(e_atom ''red'', pterm_val (E_int 5))] (\<lambda>_. Check_failed (E_binary [33])) mini_link =
    Some (Throw (E_tuple [e_atom ''put_list_cond'', sqlite3_abort (E_binary [33])]), l') \<and>
    stored False 10 1000 0 mini_lib toy_spec mini_name mini_holds l' Map.empty"
  using checked_writes_decided [OF mini_stored, of "[(e_atom ''red'', pterm_val (E_int 5))]"
      "\<lambda>_. Check_failed (E_binary [33])"] toy_storable
  by (auto simp: table_room_def)

text \<open>A default is added where a key is missing, and only there: \<open>init\<close> returns the entries of
  the table over those of the defaults, the table then holds just these, and it is written to
  only if that changes it.\<close>

lemma defaults_added:
  assumes "stored small fuel room blocks lib sp name holds l m" and "distinct (map fst defaults)"
    and "\<forall>(k, tv) \<in> set defaults. table_storable sp name (sends small room) k tv"
    and "table_room fuel (map_of defaults ++ m)"
  shows "\<exists>l' new. kv_init (table_store (run_query small fuel lib) sp) defaults l = Some (Value new, l') \<and>
    map_of new = map_of defaults ++ m \<and> distinct (map fst new) \<and>
    stored small fuel room blocks lib sp name holds l' (map_of defaults ++ m)"
  using c_table.kv.init_merges [OF assms(1) [unfolded stored_def] assms(2-4)]
  unfolding stored_def .

lemma defaults_added_witness:
  "\<exists>l' new. kv_init (table_store (run_query False 10 mini_lib) toy_spec)
      [(e_atom ''red'', pterm_val (E_int 5))] mini_link = Some (Value new, l') \<and>
    map_of new = [e_atom ''red'' \<mapsto> pterm_val (E_int 5)]"
  using defaults_added [OF mini_stored, of "[(e_atom ''red'', pterm_val (E_int 5))]"] toy_storable
  by (auto simp: table_room_def)

text \<open>C40: An integer outside the range of its type can be stored but not read: the encoder does not
  check what the decoder does, so the write returns as any other; from then on a read of the key
  raises an exception, and so do
  \<open>to_list\<close> and \<open>to_map\<close> of the table it is in, with all its other keys.\<close>

theorem unchecked_range_poisons:
  assumes "stored small fuel room blocks lib sp name holds l m" and "Suc (card (dom m)) < fuel"
    and "t_mod sp = base_module (t_syntax sp) (t_others sp)" and "prints_plain (t_syntax sp)"
    and "\<not> (int_ge i mn \<and> int_le i mx)" and "spec_key sp k = Value bk"
    and "encode_type (t_syntax sp) (t_others sp) (int_type mn mx) = Value bt"
    and "sends small room (put_row_query name (bk, bt, int_bytes i))"
    and "sends small room (find_query name bk)"
  shows "\<exists>l'. kv_put (table_store (run_query small fuel lib) sp) k (int_type mn mx, E_int i) l =
      Some (Value (int_type mn mx, E_int i), l') \<and>
    (\<exists>e l2. kv_find (table_store (run_query small fuel lib) sp) k l' = Some (Throw e, l2)) \<and>
    (\<exists>e l2. kv_to_list (table_store (run_query small fuel lib) sp) l' = Some (Throw e, l2))"
proof -
  obtain msg where range:
    "type_encode (t_syntax sp) (t_others sp) (Named (int_type mn mx), E_int i) = Value (int_bytes i)"
    "type_decode (t_syntax sp) (t_others sp) (Named (int_type mn mx), int_bytes i) =
      Throw (E_tuple [e_atom ''type'', E_tuple [int_type mn mx, E_int i, E_binary msg]])"
    using range_not_checked [OF assms(4,5)] by blast
  have "spec_ktv sp (k, (int_type mn mx, E_int i)) = Value [bk, bt, int_bytes i]"
    using assms(3,6,7) range(1)
    by (simp add: spec_ktv_def spec_key_def encode_ktv_def base_module_def)
  moreover have "decode_tv (t_syntax sp) (t_others sp) (t_mod sp) (binary_row [bt, int_bytes i]) =
      Throw (E_tuple [e_atom ''type'', E_tuple [int_type mn mx, E_int i, E_binary msg]])"
    using assms(3) range(2) key_read_back(2) [OF assms(7)] by (simp add: base_module_def)
  ultimately show ?thesis
    using c_table.bad_row_op [OF assms(1) [unfolded stored_def] assms(2) _ assms(8) _ assms(9)] by blast
qed

theorem unchecked_range_poisons_witness:
  "\<exists>l'. kv_put (table_store (run_query False 10 mini_lib) toy_spec) (e_atom ''blue'') (toy_range, E_int 300)
      mini_link = Some (Value (toy_range, E_int 300), l') \<and>
    (\<exists>e l2. kv_to_list (table_store (run_query False 10 mini_lib) toy_spec) l' = Some (Throw e, l2))"
proof -
  have "length (int_bytes 300) = 3" by (simp add: int_bytes_def dec_bytes_rec)
  then have "sends False 1000 (put_row_query mini_name (bytes_of ''blue'', bytes_of ''{int,0,255}'', int_bytes 300))"
    by (simp add: sends_def request_ok_def request_def query_term_def arg_term_def MAX_NB_SLICES_def
        put_row_query_def put_query_def quoted_def mini_name_def sqlite_max_length_def)
  moreover have "sends False 1000 (find_query mini_name (bytes_of ''blue''))"
    by (simp add: sends_def request_ok_def request_def query_term_def arg_term_def bind_name_def
        MAX_NB_SLICES_def find_query_def quoted_def mini_name_def sqlite_max_length_def)
  moreover have "spec_key toy_spec (e_atom ''blue'') = Value (bytes_of ''blue'')"
    using toy_keys(2) by (simp add: spec_key_def toy_spec_def)
  ultimately show ?thesis
    using unchecked_range_poisons [OF mini_stored, of 300 "E_int 0" "E_int 255" "e_atom ''blue''"
        "bytes_of ''blue''" "bytes_of ''{int,0,255}''"] toy_plain toy_keys(3)
    by (auto simp: toy_spec_def toy_range_def)
qed

end
