(* ===== verification/Erl_Axo.thy ===== *)
theory Erl_Axo
  imports Erl_Port Axo_Usb
begin

text \<open>
  The Erlang end of the USB bridge, src/axo.erl: a process that sends messages to the device
  through c_src/axo_connect.c and gives the answers to the callers that wait for them, told apart
  by the four byte tag an answer starts with. The composition follows a call from the caller to
  the device's packets and back.
\<close>

section \<open>The process\<close>

text \<open>Its state is the map from \<open>{waiting, Tag}\<close> to the caller; a message, and what it does with
  one. A message that no clause of the process and of \<open>obj:handle\<close> is for ends it: None.\<close>

datatype 'pid axo_event = Send_raw "u8 list" | Call 'pid "u8 list" "u8 list" | From_port "u8 list"

datatype 'pid axo_action = To_port "u8 list" | Reply 'pid "u8 list" | Log_data "u8 list"

type_synonym 'pid waiting = "u8 list \<rightharpoonup> 'pid"

fun axo_handle :: "'pid axo_event \<Rightarrow> 'pid waiting \<Rightarrow> ('pid axo_action list \<times> 'pid waiting) option" where
  "axo_handle (Send_raw raw) w = Some ([To_port raw], w)"
| "axo_handle (Call pid reply_tag raw) w = Some ([To_port raw], w(reply_tag \<mapsto> pid))"
| "axo_handle (From_port bin) w =
     (if length bin < 4 then None
      else case w (take 4 bin) of
        Some pid \<Rightarrow> Some ([Reply pid (drop 4 bin)], w(take 4 bin := None))
      | None \<Rightarrow> Some ([Log_data bin], w))"

fun axo_run :: "'pid axo_event list \<Rightarrow> 'pid waiting \<Rightarrow> ('pid axo_action list \<times> 'pid waiting) option" where
  "axo_run [] w = Some ([], w)"
| "axo_run (e # es) w =
     (case axo_handle e w of
        None \<Rightarrow> None
      | Some (as, w1) \<Rightarrow> map_option (\<lambda>(bs, w2). (as @ bs, w2)) (axo_run es w1))"

text \<open>\<open>call_u32\<close>: a call whose message is a tag and 32 bit numbers in little endian order.\<close>

definition le32 :: "nat \<Rightarrow> u8 list" where
  "le32 n = rev (be_bytes 4 n)"

definition call_u32 :: "'pid \<Rightarrow> u8 list \<Rightarrow> u8 list \<Rightarrow> nat list \<Rightarrow> 'pid axo_event" where
  "call_u32 pid reply_tag tag ints = Call pid reply_tag (tag @ concat (map le32 ints))"

section \<open>Answers\<close>

definition replies_to :: "'pid \<Rightarrow> 'pid axo_action list \<Rightarrow> u8 list list" where
  "replies_to pid as = concat (map (\<lambda>a. case a of Reply p d \<Rightarrow> if p = pid then [d] else [] | _ \<Rightarrow> []) as)"

definition calls_of :: "'pid \<Rightarrow> 'pid axo_event list \<Rightarrow> nat" where
  "calls_of pid es = length (filter (\<lambda>e. case e of Call p t raw \<Rightarrow> p = pid | _ \<Rightarrow> False) es)"

definition waits :: "'pid \<Rightarrow> 'pid waiting \<Rightarrow> nat" where
  "waits pid w = card {t. w t = Some pid}"

lemma replies_simps [simp]:
  "replies_to pid [] = []" "replies_to pid (as @ bs) = replies_to pid as @ replies_to pid bs"
  "replies_to pid [To_port raw] = []" "replies_to pid [Log_data raw] = []" "replies_to pid [Reply p d] = (if p = pid then [d] else [])"
  by (simp_all add: replies_to_def)

lemma finite_waiting: "finite (dom w) \<Longrightarrow> finite {t. w t = Some pid}"
  by (rule finite_subset [of _ "dom w"]) auto

lemma waits_put: "finite (dom w) \<Longrightarrow> waits pid (w(t \<mapsto> p)) \<le> waits pid w + (if p = pid then 1 else 0)"
proof -
  assume f: "finite (dom w)"
  have "{u. (w(t \<mapsto> p)) u = Some pid} \<subseteq> {u. w u = Some pid} \<union> (if p = pid then {t} else {})" by auto
  then have "waits pid (w(t \<mapsto> p)) \<le> card ({u. w u = Some pid} \<union> (if p = pid then {t} else {}))"
    unfolding waits_def using finite_waiting [OF f] by (intro card_mono) auto
  also have "\<dots> \<le> waits pid w + card (if p = pid then {t} else {})"
    unfolding waits_def by (rule card_Un_le)
  finally show ?thesis by (simp split: if_splits)
qed

lemma waits_take:
  assumes "finite (dom w)" and "w t = Some p"
  shows "waits pid (w(t := None)) + (if p = pid then 1 else 0) = waits pid w"
proof (cases "p = pid")
  case True
  have "{u. (w(t := None)) u = Some pid} = {u. w u = Some pid} - {t}" by auto
  moreover have "t \<in> {u. w u = Some pid}" using assms(2) True by simp
  ultimately show ?thesis
    using True card_Suc_Diff1 [OF finite_waiting [OF assms(1)], of t pid] by (simp add: waits_def)
next
  case False
  then have "{u. (w(t := None)) u = Some pid} = {u. w u = Some pid}" using assms(2) by auto
  with False show ?thesis by (simp add: waits_def)
qed

text \<open>A caller gets no more answers than it has made calls.\<close>

lemma axo_handle_balance:
  assumes "axo_handle e w = Some (as, w')" and "finite (dom w)"
  shows "finite (dom w') \<and>
    length (replies_to pid as) + waits pid w' \<le> calls_of pid [e] + waits pid w"
proof (cases e)
  case (Call p t raw)
  then show ?thesis using assms waits_put [OF assms(2), of pid t p] by (auto simp: calls_of_def)
next
  case (From_port bin)
  then show ?thesis
    using assms waits_take [OF assms(2), of "take 4 bin" _ pid]
    by (auto simp: calls_of_def split: if_splits option.splits)
qed (use assms in \<open>auto simp: calls_of_def\<close>)

lemma axo_run_balance:
  assumes "axo_run es w = Some (as, w')" and "finite (dom w)"
  shows "finite (dom w') \<and>
    length (replies_to pid as) + waits pid w' \<le> calls_of pid es + waits pid w"
  using assms
proof (induction es arbitrary: w as)
  case Nil
  then show ?case by (simp add: calls_of_def)
next
  case (Cons e es)
  obtain as1 w1 as2 where r: "axo_handle e w = Some (as1, w1)" "axo_run es w1 = Some (as2, w')"
    "as = as1 @ as2"
    using Cons.prems(1) by (auto split: option.splits prod.splits)
  have "calls_of pid (e # es) = calls_of pid [e] + calls_of pid es" by (simp add: calls_of_def)
  with axo_handle_balance [OF r(1) Cons.prems(2), of pid] Cons.IH [OF r(2)] r(3) show ?case by simp
qed

text \<open>What passes while a caller waits: messages with other tags, and calls that wait for others.\<close>

definition passes_by :: "u8 list \<Rightarrow> 'pid axo_event \<Rightarrow> bool" where
  "passes_by tag e = (case e of
     Send_raw raw \<Rightarrow> True | Call p t raw \<Rightarrow> t \<noteq> tag | From_port bin \<Rightarrow> 4 \<le> length bin \<and> take 4 bin \<noteq> tag)"

lemma axo_handle_passes:
  "passes_by tag e \<Longrightarrow> \<exists>as w1. axo_handle e w = Some (as, w1) \<and> w1 tag = w tag"
proof (cases e)
  case (From_port bin)
  then show "passes_by tag e \<Longrightarrow> \<exists>as w1. axo_handle e w = Some (as, w1) \<and> w1 tag = w tag"
    by (cases "w (take 4 bin)") (auto simp: passes_by_def)
qed (auto simp: passes_by_def)

lemma axo_run_waits:
  assumes "\<forall>e \<in> set es. passes_by tag e"
  shows "\<exists>as w'. w' tag = w tag \<and>
    axo_run (es @ rest) w = map_option (\<lambda>(bs, w2). (as @ bs, w2)) (axo_run rest w')"
  using assms
proof (induction es arbitrary: w)
  case Nil
  then show ?case
    by (intro exI [of _ "[]"] exI [of _ w]) (simp add: option.map_ident)
next
  case (Cons e es)
  obtain as1 w1 where r: "axo_handle e w = Some (as1, w1)" "w1 tag = w tag"
    using axo_handle_passes [of tag e w] Cons.prems by auto
  obtain as2 w' where "w' tag = w1 tag"
    "axo_run (es @ rest) w1 = map_option (\<lambda>(bs, w2). (as2 @ bs, w2)) (axo_run rest w')"
    using Cons.IH [of w1] Cons.prems by auto
  with r show ?case
    by (intro exI [of _ "as1 @ as2"] exI [of _ w']) (cases "axo_run rest w'"; simp add: case_prod_beta)
qed

lemma call_answered:
  assumes "length tag = 4" and "\<forall>e \<in> set es. passes_by tag e"
  shows "\<exists>as w'. axo_run (Call pid tag raw # es @ [From_port (tag @ d)]) w = Some (as @ [Reply pid d], w') \<and>
    w' tag = None"
proof -
  obtain as w1 where "w1 tag = Some pid" "axo_run (es @ [From_port (tag @ d)]) (w(tag \<mapsto> pid)) =
      map_option (\<lambda>(bs, w2). (as @ bs, w2)) (axo_run [From_port (tag @ d)] w1)"
    using axo_run_waits [OF assms(2), of "w(tag \<mapsto> pid)" "[From_port (tag @ d)]"] by auto
  then show ?thesis using assms(1) by auto
qed

section \<open>Through the program\<close>

lemma answers_arrive:
  assumes "receives lib sent_by incoming" and "incoming (usb t) = concat (map packets ms)"
    and "writable 1 t" "out t 1 = []" and "\<forall>m \<in> set ms. length m < 1024 * 1024"
  shows "\<exists>r t'. reader_main (length (incoming (usb t))) lib 0 t = Ok r t' \<and> fst (cut_packets (out t' 1)) = ms"
proof -
  let ?r = "reader_start (1024 * 1024) 0"
  have "holds ?r []" "64 dvd length (rd_buf ?r)" by (simp_all add: holds_start)
  then obtain r t' where t': "reader_loop (length (concat (map packets ms))) lib ?r t = Ok r t'"
    "out t' 1 = concat (map frame ms)"
    using reader_loop_messages [OF assms(1), of t ms "[]" ?r] assms(2-5) by (auto simp: read_on_def)
  have "\<forall>m \<in> set ms. length m < 2 ^ 32" using assms(5) by fastforce
  then have "fst (cut_packets (out t' 1)) = ms"
    using cut_packets_frames [of ms "[]"] t'(2) by (simp add: cut_packets_short)
  then show ?thesis
    using t'(1) unfolding reader_main_def assms(2) by blast
qed

lemma call_leaves:
  assumes "delivers lib sent_by incoming" and "readable 0 s" "pending 0 s = frame raw"
    and "length raw < 2 ^ 31" "length raw < malloc_max s"
  shows "\<exists>s'. main_loop 1 lib s = Ok () s' \<and> sent_by (usb s') = sent_by (usb s) @ packets raw"
  using main_loop_messages [OF assms(1,2), of "[raw]" "[]"] assms(3-5) by auto

section \<open>Properties\<close>

text \<open>C21: A call through all three parts: the process passes the message to the program, which cuts
  it into packets for the device; when the device has sent its messages, the first of them with
  the tag that is waited for, however many others come before it, is joined from its packets,
  framed, and given to the caller, without the tag, and the tag is free again. This is so as long
  as the reader's total, which the program does not set, happens to be 0 at the start, the
  device's messages are shorter than the reader's buffer of 1 MiB (a longer one stops the reader),
  and the others have the four bytes of a tag (a shorter one ends the process).\<close>

theorem axo_call_roundtrip:
  assumes "delivers lib sent_by incoming" and "receives lib sent_by incoming"
    and "readable 0 s" "pending 0 s = frame raw" "length raw < 2 ^ 31" "length raw < malloc_max s"
    and "writable 1 t" "out t 1 = []" "incoming (usb t) = concat (map packets (others @ [tag @ d]))"
    and "\<forall>m \<in> set (others @ [tag @ d]). length m < 1024 * 1024"
    and "length tag = 4" and "\<forall>m \<in> set others. 4 \<le> length m \<and> take 4 m \<noteq> tag"
  shows "(\<exists>w1. axo_handle (Call pid tag raw) w = Some ([To_port raw], w1)) \<and>
    (\<exists>s'. main_loop 1 lib s = Ok () s' \<and> sent_by (usb s') = sent_by (usb s) @ packets raw) \<and>
    (\<exists>r t' as w'. reader_main (length (incoming (usb t))) lib 0 t = Ok r t' \<and>
       axo_run (Call pid tag raw # map From_port (fst (cut_packets (out t' 1)))) w =
         Some (as @ [Reply pid d], w') \<and> w' tag = None)"
proof -
  obtain r t' where t': "reader_main (length (incoming (usb t))) lib 0 t = Ok r t'"
    "fst (cut_packets (out t' 1)) = others @ [tag @ d]"
    using answers_arrive [OF assms(2,9,7,8,10)] by blast
  have "\<forall>e \<in> set (map From_port others). passes_by tag e"
    using assms(12) by (auto simp: passes_by_def)
  then obtain as w' where "axo_run (Call pid tag raw # map From_port others @ [From_port (tag @ d)]) w =
      Some (as @ [Reply pid d], w')" "w' tag = None"
    using call_answered [where pid = pid and raw = raw and d = d and w = w and
        es = "map From_port others", OF assms(11)] by auto
  then have "axo_run (Call pid tag raw # map From_port (fst (cut_packets (out t' 1)))) w =
      Some (as @ [Reply pid d], w') \<and> w' tag = None"
    unfolding t'(2) map_append list.map by blast
  moreover have "\<exists>w1. axo_handle (Call pid tag raw) w = Some ([To_port raw], w1)" by simp
  ultimately show ?thesis
    using t'(1) call_leaves [OF assms(1,3-6)] by blast
qed

definition toy_tag :: "u8 list" where "toy_tag = bytes_of ''AxoV''"

theorem axo_call_roundtrip_witness:
  "\<exists>r t' as w'. reader_main 2 toy_usb 0 (toy_axo [] [[1, 2, 3, 4], toy_tag @ [9]]) = Ok r t' \<and>
     axo_run (Call (0 :: nat) toy_tag toy_tag # map From_port (fst (cut_packets (out t' 1)))) Map.empty =
       Some (as @ [Reply 0 [9]], w')"
proof -
  have tag: "length toy_tag = 4" "frame toy_tag \<noteq> []" "[1, 2, 3, 4] \<noteq> toy_tag"
    by (simp_all add: toy_tag_def frame_def be_bytes_4 bytes_of_def)
  let ?t = "toy_axo [] [[1, 2, 3, 4], toy_tag @ [9]]"
  have p: "concat (map packets ([[1, 2, 3, 4]] @ [toy_tag @ [9]])) = [[1, 2, 3, 4], toy_tag @ [9]]"
    using tag(1) by (simp add: packets.simps [of "[1, 2, 3, 4]"] packets.simps [of "toy_tag @ [9]"])
  have "\<exists>r t' as w'. reader_main (length (snd (usb ?t))) toy_usb 0 ?t = Ok r t' \<and>
      axo_run (Call (0 :: nat) toy_tag toy_tag # map From_port (fst (cut_packets (out t' 1)))) Map.empty =
        Some (as @ [Reply 0 [9]], w') \<and> w' toy_tag = None"
    by (rule axo_call_roundtrip [where s = "toy_axo [Rd_data (frame toy_tag)] []" and others = "[[1, 2, 3, 4]]",
          OF toy_usb_ok, THEN conjunct2, THEN conjunct2]) (use tag in \<open>simp_all add: p [simplified]\<close>)
  then show ?thesis by (simp add: numeral_2_eq_2) blast
qed

text \<open>No answer is given twice and none is made up: over any messages in any order, a caller
  gets at most as many answers as it has made calls, less those it still waits for.\<close>

lemma axo_answers_bounded:
  assumes "axo_run es Map.empty = Some (as, w)"
  shows "length (replies_to pid as) + waits pid w \<le> calls_of pid es"
  using axo_run_balance [OF assms, of pid] by (simp add: waits_def)

lemma axo_answers_bounded_witness:
  "length (replies_to (1 :: nat) [To_port [7], Reply 1 [9], Log_data [1, 2, 3, 4, 8]]) \<le> 1"
proof -
  have "axo_run [Call 1 [1, 2, 3, 4] [7], From_port [1, 2, 3, 4, 9], From_port [1, 2, 3, 4, 8]] Map.empty =
      Some ([To_port [7], Reply (1 :: nat) [9], Log_data [1, 2, 3, 4, 8]], Map.empty)"
    by simp
  from axo_answers_bounded [OF this, of 1] show ?thesis by (simp add: calls_of_def)
qed

text \<open>A second call that waits for the same tag takes the place of the first, whose caller is not
  answered any more: the map has one caller for a tag.\<close>

lemma second_call_takes_over:
  assumes "length tag = 4" and "p \<noteq> q"
  shows "axo_run [Call p tag raw1, Call q tag raw2, From_port (tag @ d1), From_port (tag @ d2)] w =
    Some ([To_port raw1, To_port raw2, Reply q d1, Log_data (tag @ d2)], w(tag := None))"
  using assms by simp

end
