(* ===== verification/Erl_Axo_Load.thy ===== *)
theory Erl_Axo_Load
  imports Erl_Axo Erl_Types
begin

text \<open>
  The calls of src/axo.erl that put several messages together, over both threads of
  c_src/axo_connect.c: memory is allocated on the device, written and read back, and a patch is
  loaded and started that way. The device is an argument: what it does when packets have arrived,
  \<open>dev\<close>, and in the statements the protocol that the comments of axo.erl give for its firmware.
\<close>

section \<open>A message and what it leads to\<close>

record ('u, 'h, 'pid) axo_sys =
  bridge :: "('u, 'h) axo"
  thread :: reading
  callers :: "'pid waiting"

text \<open>The process handles an event and passes a message to the program; the main thread takes it to
  the device, the device does its work, the reader thread takes every packet it has sent, and the
  process handles the messages these make. The result is what the process has done by then.\<close>

definition axo_exchange ::
    "('u, 'v, 'h) usb_lib \<Rightarrow> ('u \<Rightarrow> 'u) \<Rightarrow> ('u \<Rightarrow> u8 list list) \<Rightarrow> 'pid axo_event \<Rightarrow> ('u, 'h, 'pid) axo_sys \<Rightarrow>
      ('pid axo_action list \<times> ('u, 'h, 'pid) axo_sys) option" where
  "axo_exchange lib dev incoming ev sys =
     (case axo_handle ev (callers sys) of
        Some ([To_port raw], w) \<Rightarrow>
          (case main_loop 1 lib (deliver raw (bridge sys)) of
             Ok u s1 \<Rightarrow>
               (let s2 = s1\<lparr>usb := dev (usb s1)\<rparr> in
                case reader_loop (length (incoming (usb s2))) lib (thread sys) s2 of
                  Ok r s3 \<Rightarrow>
                    map_option (\<lambda>(as, w'). (as, \<lparr>bridge = s3, thread = r, callers = w'\<rparr>))
                      (axo_run (map From_port (arrived s2 s3)) w)
                | Stop h s3 \<Rightarrow> None)
           | Stop h s1 \<Rightarrow> None)
      | _ \<Rightarrow> None)"

text \<open>\<open>obj:call\<close>: the caller waits for its answer; \<open>Pid ! {send, _}\<close> does not wait.\<close>

definition axo_await ::
    "('u, 'v, 'h) usb_lib \<Rightarrow> ('u \<Rightarrow> 'u) \<Rightarrow> ('u \<Rightarrow> u8 list list) \<Rightarrow> 'pid \<Rightarrow> 'pid axo_event \<Rightarrow>
      (('u, 'h, 'pid) axo_sys, u8 list) act" where
  "axo_await lib dev incoming pid ev sys =
     (case axo_exchange lib dev incoming ev sys of
        None \<Rightarrow> None
      | Some (as, sys') \<Rightarrow>
          (case replies_to pid as of [] \<Rightarrow> None | d # ds \<Rightarrow> Some (Value d, sys')))"

definition axo_send ::
    "('u, 'v, 'h) usb_lib \<Rightarrow> ('u \<Rightarrow> 'u) \<Rightarrow> ('u \<Rightarrow> u8 list list) \<Rightarrow> u8 list \<Rightarrow>
      (('u, 'h, 'pid) axo_sys, unit) act" where
  "axo_send lib dev incoming raw sys =
     map_option (\<lambda>(as, sys'). (Value (), sys')) (axo_exchange lib dev incoming (Send_raw raw) sys)"

section \<open>Calls\<close>

definition le_value :: "u8 list \<Rightarrow> nat" where
  "le_value bs = be_value (rev bs)"

definition mem_alloc ::
    "('u, 'v, 'h) usb_lib \<Rightarrow> ('u \<Rightarrow> 'u) \<Rightarrow> ('u \<Rightarrow> u8 list list) \<Rightarrow> 'pid \<Rightarrow> nat \<Rightarrow> nat \<Rightarrow> nat \<Rightarrow>
      (('u, 'h, 'pid) axo_sys, nat) act" where
  "mem_alloc lib dev incoming pid sz type_flags alignment = act_then
     (axo_await lib dev incoming pid
        (call_u32 pid (bytes_of ''AxoS'') (bytes_of ''AxMa'') [sz, type_flags, alignment]))
     (\<lambda>bin. act_of (if length bin = 4 then Value (le_value bin) else badmatch))"

definition mem_write ::
    "('u, 'v, 'h) usb_lib \<Rightarrow> ('u \<Rightarrow> 'u) \<Rightarrow> ('u \<Rightarrow> u8 list list) \<Rightarrow> nat \<Rightarrow> u8 list \<Rightarrow>
      (('u, 'h, 'pid) axo_sys, unit) act" where
  "mem_write lib dev incoming offset data = act_then
     (axo_send lib dev incoming (bytes_of ''AxMw'' @ le32 offset @ le32 (length data)))
     (\<lambda>_. axo_send lib dev incoming data)"

definition mem_read ::
    "('u, 'v, 'h) usb_lib \<Rightarrow> ('u \<Rightarrow> 'u) \<Rightarrow> ('u \<Rightarrow> u8 list list) \<Rightarrow> 'pid \<Rightarrow> nat \<Rightarrow> nat \<Rightarrow>
      (('u, 'h, 'pid) axo_sys, nat \<times> nat \<times> u8 list) act" where
  "mem_read lib dev incoming pid offset sz = act_then
     (axo_await lib dev incoming pid
        (call_u32 pid (bytes_of ''Axor'') (bytes_of ''AxMr'') [offset, sz]))
     (\<lambda>bin. act_of (if 8 \<le> length bin
        then Value (le_value (take 4 bin), le_value (take 4 (drop 4 bin)), drop 8 bin) else badmatch))"

definition fwid ::
    "('u, 'v, 'h) usb_lib \<Rightarrow> ('u \<Rightarrow> 'u) \<Rightarrow> ('u \<Rightarrow> u8 list list) \<Rightarrow> 'pid \<Rightarrow>
      (('u, 'h, 'pid) axo_sys, u8 list \<times> nat \<times> nat) act" where
  "fwid lib dev incoming pid = act_then
     (axo_await lib dev incoming pid (call_u32 pid (bytes_of ''AxoV'') (bytes_of ''AxoV'') []))
     (\<lambda>bin. act_of (if length bin = 12
        then Value (take 4 bin, le_value (take 4 (drop 4 bin)), le_value (drop 8 bin)) else badmatch))"

definition ping ::
    "('u, 'v, 'h) usb_lib \<Rightarrow> ('u \<Rightarrow> 'u) \<Rightarrow> ('u \<Rightarrow> u8 list list) \<Rightarrow> 'pid \<Rightarrow>
      (('u, 'h, 'pid) axo_sys, u8 list) act" where
  "ping lib dev incoming pid =
     axo_await lib dev incoming pid (call_u32 pid (bytes_of ''AxoA'') (bytes_of ''Axop'') [])"

text \<open>Loading a patch: the file or None when it cannot be read. The name the device is given has the
  address in eight digits.\<close>

definition mem_type_hint_large :: nat where "mem_type_hint_large = 2 ^ 17"

definition hex32 :: "nat \<Rightarrow> u8 list" where
  "hex32 n = map (\<lambda>i. hex_char (n div 16 ^ (7 - i) mod 16)) [0..<8]"

definition patch_file_name :: "nat \<Rightarrow> u8 list \<Rightarrow> u8 list" where
  "patch_file_name addr name = bytes_of ''@'' @ hex32 addr @ bytes_of '':'' @ name"

definition load_elf ::
    "('u, 'v, 'h) usb_lib \<Rightarrow> ('u \<Rightarrow> 'u) \<Rightarrow> ('u \<Rightarrow> u8 list list) \<Rightarrow> 'pid \<Rightarrow> u8 list option \<Rightarrow> u8 list \<Rightarrow>
      (('u, 'h, 'pid) axo_sys, u8 list) act" where
  "load_elf lib dev incoming pid elf_file name =
     act_then (act_of (case elf_file of Some elf \<Rightarrow> Value elf | None \<Rightarrow> badmatch)) (\<lambda>elf.
     act_then (mem_alloc lib dev incoming pid (length elf) mem_type_hint_large 16) (\<lambda>addr.
     act_then (mem_write lib dev incoming addr elf) (\<lambda>_.
     act_then (mem_read lib dev incoming pid addr (length elf)) (\<lambda>(_, _, verify).
     act_of (if verify = elf then Value (patch_file_name addr name) else badmatch)))))"

definition patch_start ::
    "('u, 'v, 'h) usb_lib \<Rightarrow> ('u \<Rightarrow> 'u) \<Rightarrow> ('u \<Rightarrow> u8 list list) \<Rightarrow> u8 list \<Rightarrow>
      (('u, 'h, 'pid) axo_sys, unit) act" where
  "patch_start lib dev incoming name = axo_send lib dev incoming (bytes_of ''AxPs'' @ name @ [0])"

definition transmit_start_live ::
    "('u, 'v, 'h) usb_lib \<Rightarrow> ('u \<Rightarrow> 'u) \<Rightarrow> ('u \<Rightarrow> u8 list list) \<Rightarrow> 'pid \<Rightarrow> u8 list option \<Rightarrow> u8 list \<Rightarrow>
      (('u, 'h, 'pid) axo_sys, unit) act" where
  "transmit_start_live lib dev incoming pid elf_file name = act_then
     (load_elf lib dev incoming pid elf_file name) (patch_start lib dev incoming)"

section \<open>What is relied on\<close>

text \<open>A device with the state \<open>dstate u\<close>, which a transfer leaves as it is: for a message whose
  packets it has been sent, it sends the packets of the messages it answers with, as \<open>respond\<close>
  says.\<close>

definition leaves_device :: "('u, 'v, 'h) usb_lib \<Rightarrow> ('u \<Rightarrow> 'd) \<Rightarrow> bool" where
  "leaves_device lib dstate \<longleftrightarrow>
     (\<forall>h ep mem len u. dstate (snd (lib_bulk_out lib h ep mem len u)) = dstate u) \<and>
     (\<forall>h ep len u. dstate (snd (snd (lib_bulk_in lib h ep len u))) = dstate u)"

definition responds ::
    "('u \<Rightarrow> 'u) \<Rightarrow> ('u \<Rightarrow> u8 list list) \<Rightarrow> ('u \<Rightarrow> u8 list list) \<Rightarrow> ('u \<Rightarrow> 'd) \<Rightarrow>
      ('d \<Rightarrow> u8 list \<Rightarrow> u8 list list \<times> 'd) \<Rightarrow> bool" where
  "responds dev sent_by incoming dstate respond \<longleftrightarrow>
     (\<forall>u raw. sent_by u = packets raw \<and> incoming u = [] \<longrightarrow>
        (case respond (dstate u) raw of (ms, d) \<Rightarrow>
           sent_by (dev u) = [] \<and> incoming (dev u) = concat (map packets ms) \<and> dstate (dev u) = d))"

definition axo_linked ::
    "('u, 'v, 'h) usb_lib \<Rightarrow> ('u \<Rightarrow> 'u) \<Rightarrow> ('u \<Rightarrow> u8 list list) \<Rightarrow> ('u \<Rightarrow> u8 list list) \<Rightarrow> ('u \<Rightarrow> 'd) \<Rightarrow>
      ('d \<Rightarrow> u8 list \<Rightarrow> u8 list list \<times> 'd) \<Rightarrow> bool" where
  "axo_linked lib dev sent_by incoming dstate respond \<longleftrightarrow>
     delivers lib sent_by incoming \<and> receives lib sent_by incoming \<and> leaves_device lib dstate \<and>
     responds dev sent_by incoming dstate respond"

text \<open>Nothing is on its way, nobody waits, and the reader's total is 0.\<close>

definition axo_idle ::
    "nat \<Rightarrow> ('u \<Rightarrow> u8 list list) \<Rightarrow> ('u \<Rightarrow> u8 list list) \<Rightarrow> ('u \<Rightarrow> 'd) \<Rightarrow> 'd \<Rightarrow> ('u, 'h, 'pid) axo_sys \<Rightarrow> bool" where
  "axo_idle room sent_by incoming dstate d sys \<longleftrightarrow>
     readable 0 (bridge sys) \<and> pending 0 (bridge sys) = [] \<and> writable 1 (bridge sys) \<and>
     malloc_max (bridge sys) = room \<and> sent_by (usb (bridge sys)) = [] \<and> incoming (usb (bridge sys)) = [] \<and>
     dstate (usb (bridge sys)) = d \<and> holds (thread sys) [] \<and> length (rd_buf (thread sys)) = 1024 * 1024 \<and>
     callers sys = Map.empty"

section \<open>An exchange\<close>

lemma keeps_device_more:
  "keeps posix.more m \<Longrightarrow> keeps (\<lambda>s. dstate (usb s)) (m :: ('u, 'h, 'a) axo_cm)"
  by (erule keeps_via) (metis axo_more)

lemma keeps_alloc [keep_intros]: "keeps posix.more (malloc n)" "keeps posix.more (free_block p)"
  by (auto simp: keeps_def malloc_def free_block_def split: option.splits)

lemma keeps_rd_more: "keeps all_but_rd m \<Longrightarrow> keeps posix.more m"
  by (erule keeps_via) (blast dest: all_but_rd_eq)

lemma keeps_reads [keep_intros]: "keeps posix.more (assert_read_packet4_len fd)"
  unfolding assert_read_packet4_len_def
  by (auto intro!: keep_intros keeps_rd_more [OF assert_read_fixed_rest] keeps_rd_more [OF assert_read_u32_rest]
      split: option.split)

lemma keeps_transfer:
  assumes "leaves_device lib dstate"
  shows "keeps (\<lambda>s. dstate (usb s)) (transfer_out lib ep mem len)"
    and "keeps (\<lambda>s. dstate (usb s)) (transfer_in lib ep len)"
proof -
  have "dstate (snd (lib_bulk_out lib h ep mem len u)) = dstate u"
    "dstate (snd (snd (lib_bulk_in lib h ep len u))) = dstate u" for h ep mem len u
    using assms by (simp_all add: leaves_device_def)
  then show "keeps (\<lambda>s. dstate (usb s)) (transfer_out lib ep mem len)"
    "keeps (\<lambda>s. dstate (usb s)) (transfer_in lib ep len)"
    by (simp_all add: keeps_def transfer_out_def transfer_in_def case_prod_beta)
qed

lemma keeps_to_axo: "leaves_device lib dstate \<Longrightarrow> keeps (\<lambda>s. dstate (usb s)) (to_axo lib mem len)"
proof (induction lib mem len rule: to_axo.induct)
  case (1 lib mem len)
  then show ?case
    by (subst to_axo.simps) (auto intro!: keep_intros keeps_transfer)
qed

lemma keeps_main: "leaves_device lib dstate \<Longrightarrow> keeps (\<lambda>s. dstate (usb s)) (main_step lib)"
  unfolding main_step_def
  by (auto intro!: keep_intros keeps_to_axo intro: keeps_device_more split: prod.split)

lemma keeps_reader:
  fixes lib :: "('u, 'v, 'h) usb_lib"
  assumes "leaves_device lib dstate"
  shows "keeps (\<lambda>s. dstate (usb s)) (reader_loop n lib r)"
proof (induction n arbitrary: r)
  case (Suc n)
  have wr: "keeps (\<lambda>s :: ('u, 'h) axo. dstate (usb s)) (assert_write_port32 1 msg nb)" for msg nb
    by (rule keeps_device_more) (auto simp: assert_write_port32_def intro!: keep_intros)
  have "keeps (\<lambda>s. dstate (usb s)) (reader_step lib r)" for r
    unfolding reader_step_def Let_def using assms
    by (auto intro!: keep_intros keeps_transfer wr split: option.split)
  with Suc show ?case by (auto intro!: keep_intros)
qed (simp add: keep_intros)

text \<open>The program takes the message, the device answers it, and the process handles the answers; then
  all is idle again.\<close>

lemma exchange_ok:
  assumes "axo_linked lib dev sent_by incoming dstate respond"
    and "axo_idle room sent_by incoming dstate d sys"
    and "length raw < 2 ^ 31" and "length raw < room"
    and "respond d raw = (ms, d')" and "\<forall>m \<in> set ms. length m < 1024 * 1024"
    and "axo_handle ev Map.empty = Some ([To_port raw], w)"
    and "axo_run (map From_port ms) w = Some (as, Map.empty)"
  shows "\<exists>sys'. axo_exchange lib dev incoming ev sys = Some (as, sys') \<and>
    axo_idle room sent_by incoming dstate d' sys'"
proof -
  note linked = assms(1) [unfolded axo_linked_def]
  let ?s = "deliver raw (bridge sys)"
  have idle: "readable 0 ?s" "pending 0 ?s = frame raw @ []" "writable 1 ?s" "malloc_max ?s = room"
    "holds (thread sys) []" "length (rd_buf (thread sys)) = 1024 * 1024" "callers sys = Map.empty"
    using assms(2) by (simp_all add: axo_idle_def)
  have usb: "usb ?s = usb (bridge sys)" using axo_more [of ?s "bridge sys"] by simp
  obtain s1 where s1: "main_step lib ?s = Ok () s1" "pending 0 s1 = []" "readable 0 s1"
    "sent_by (usb s1) = packets raw" "incoming (usb s1) = []" "wr s1 = wr ?s" "out s1 = out ?s"
    "malloc_max s1 = room"
    using main_step_ok [OF _ idle(1,2), of lib sent_by incoming] linked assms(2-4) usb idle(4)
    by (auto simp: axo_idle_def)
  have d: "dstate (usb s1) = d"
    using keeps_Ok [OF keeps_main s1(1)] linked assms(2) usb by (metis axo_idle_def)
  have dev: "sent_by (dev (usb s1)) = []" "incoming (dev (usb s1)) = concat (map packets ms)"
    "dstate (dev (usb s1)) = d'"
  proof -
    have "responds dev sent_by incoming dstate respond" using linked by blast
    from this [unfolded responds_def, rule_format, of "usb s1" raw]
    show "sent_by (dev (usb s1)) = []" "incoming (dev (usb s1)) = concat (map packets ms)"
      "dstate (dev (usb s1)) = d'"
      by (simp_all add: s1(4,5) d assms(5))
  qed
  let ?t = "s1\<lparr>usb := dev (usb s1)\<rparr>"
  have "writable 1 ?t" using idle(3) s1(6) by (simp add: writable_def)
  moreover have "64 dvd length (rd_buf (thread sys))" unfolding idle(6) by simp
  ultimately obtain r s3 where r: "reader_loop (length (concat (map packets ms))) lib (thread sys) ?t = Ok r s3"
    "incoming (usb s3) = []" "read_on sent_by incoming ?t ms s3" "holds r []"
    "length (rd_buf r) = length (rd_buf (thread sys))"
    using reader_loop_messages [of lib sent_by incoming ?t ms "[]" "thread sys"] linked dev(2) idle(5,6) assms(6)
    by auto
  have "dstate (usb s3) = d'" using keeps_Ok [OF keeps_reader r(1)] linked dev(3) by auto
  moreover have "\<forall>m \<in> set ms. length m < 2 ^ 32" using assms(6) by fastforce
  then have "arrived ?t s3 = ms"
    using r(3) by (intro arrived_frames) (auto simp: read_on_def)
  ultimately show ?thesis
    using s1 r dev idle assms(7,8)
    by (auto simp: axo_exchange_def axo_idle_def read_on_def Let_def pending_def readable_def)
qed

text \<open>While nobody but the caller waits, messages with other tags are logged.\<close>

definition is_log :: "u8 list \<Rightarrow> bool" where
  "is_log m \<longleftrightarrow> take 4 m = bytes_of ''AxoT'' \<and> length m < 1024 * 1024"

lemma log_length: "is_log m \<Longrightarrow> 4 \<le> length m"
proof -
  assume "is_log m"
  then have "length (take 4 m) = 4" by (simp add: is_log_def bytes_of_def)
  then show ?thesis by simp
qed

lemma axo_run_logs:
  assumes "list_all is_log logs" and "w (bytes_of ''AxoT'') = None"
  shows "axo_run (map From_port logs @ es) w = map_option (\<lambda>(as, w'). (map Log_data logs @ as, w')) (axo_run es w)"
  using assms(1)
proof (induction logs)
  case Nil
  then show ?case by (cases "axo_run es w") auto
next
  case (Cons m logs)
  then show ?case
    using log_length [of m] assms(2) by (cases "axo_run es w") (auto simp: is_log_def)
qed

lemma replies_logs [simp]: "replies_to pid (map Log_data logs) = []"
  by (induction logs) (simp_all add: replies_to_def)

lemma await_ok:
  assumes "axo_linked lib dev sent_by incoming dstate respond"
    and "axo_idle room sent_by incoming dstate d sys"
    and "length raw < 2 ^ 31" and "length raw < room"
    and "respond d raw = (logs @ [tag @ bin], d')" and "list_all is_log logs"
    and "length tag = 4" and "tag \<noteq> bytes_of ''AxoT''" and "length bin + 4 < 1024 * 1024"
  shows "\<exists>sys'. axo_await lib dev incoming pid (Call pid tag raw) sys = Some (Value bin, sys') \<and>
    axo_idle room sent_by incoming dstate d' sys'"
proof -
  have "axo_run (map From_port (logs @ [tag @ bin])) [tag \<mapsto> pid] =
      Some (map Log_data logs @ [Reply pid bin], Map.empty)"
    using axo_run_logs [OF assms(6), of "[tag \<mapsto> pid]" "[From_port (tag @ bin)]"] assms(7,8) by simp
  moreover have "\<forall>m \<in> set (logs @ [tag @ bin]). length m < 1024 * 1024"
    using assms(6,7,9) by (auto simp: list_all_iff is_log_def)
  ultimately obtain sys' where
    "axo_exchange lib dev incoming (Call pid tag raw) sys = Some (map Log_data logs @ [Reply pid bin], sys')"
    "axo_idle room sent_by incoming dstate d' sys'"
    using exchange_ok [OF assms(1-5), of "Call pid tag raw" "[tag \<mapsto> pid]" "map Log_data logs @ [Reply pid bin]"]
    by auto
  then show ?thesis by (auto simp: axo_await_def)
qed

lemma axo_send_ok:
  assumes "axo_linked lib dev sent_by incoming dstate respond"
    and "axo_idle room sent_by incoming dstate d sys"
    and "length raw < 2 ^ 31" and "length raw < room"
    and "respond d raw = (logs, d')" and "list_all is_log logs"
  shows "\<exists>sys'. axo_send lib dev incoming raw sys = Some (Value (), sys') \<and>
    axo_idle room sent_by incoming dstate d' sys'"
proof -
  have "axo_run (map From_port logs) Map.empty = Some (map Log_data logs, Map.empty)"
    using axo_run_logs [OF assms(6), of Map.empty "[]"] by simp
  moreover have "\<forall>m \<in> set logs. length m < 1024 * 1024"
    using assms(6) by (auto simp: list_all_iff is_log_def)
  ultimately show ?thesis
    using exchange_ok [OF assms(1-5), of "Send_raw raw" Map.empty "map Log_data logs"]
    by (auto simp: axo_send_def)
qed

section \<open>The protocol of the device\<close>

text \<open>For observations of a device's memory, of the write whose data it waits for, of the memory it
  has to give and of the patch it was asked to start. It may log at any time.\<close>

definition axo_memory ::
    "('d \<Rightarrow> u8 list \<Rightarrow> u8 list list \<times> 'd) \<Rightarrow> ('d \<Rightarrow> nat \<Rightarrow> u8) \<Rightarrow> ('d \<Rightarrow> (nat \<times> nat) option) \<Rightarrow>
      ('d \<Rightarrow> nat) \<Rightarrow> ('d \<Rightarrow> u8 list option) \<Rightarrow> bool" where
  "axo_memory respond memory writing free started \<longleftrightarrow>
     (\<forall>d. writing d = None \<longrightarrow>
       (\<forall>sz flags align. sz \<le> free d \<longrightarrow> (\<exists>logs addr d'.
          respond d (bytes_of ''AxMa'' @ le32 sz @ le32 flags @ le32 align) =
            (logs @ [bytes_of ''AxoS'' @ le32 addr], d') \<and>
          list_all is_log logs \<and> addr < 2 ^ 32 \<and> addr + sz \<le> 2 ^ 32 \<and> writing d' = None)) \<and>
       (\<forall>off sz. off < 2 ^ 32 \<and> sz < 2 ^ 32 \<and> off + sz \<le> 2 ^ 32 \<longrightarrow> (\<exists>logs d'.
          respond d (bytes_of ''AxMw'' @ le32 off @ le32 sz) = (logs, d') \<and>
          list_all is_log logs \<and> writing d' = Some (off, sz))) \<and>
       (\<forall>off sz. off < 2 ^ 32 \<and> sz < 2 ^ 32 \<and> off + sz \<le> 2 ^ 32 \<longrightarrow> (\<exists>logs d'.
          respond d (bytes_of ''AxMr'' @ le32 off @ le32 sz) =
            (logs @ [bytes_of ''Axor'' @ le32 off @ le32 sz @ map (memory d) [off..<off + sz]], d') \<and>
          list_all is_log logs \<and> memory d' = memory d \<and> writing d' = None)) \<and>
       (\<forall>name. \<exists>logs d'. respond d (bytes_of ''AxPs'' @ name @ [0]) = (logs, d') \<and>
          list_all is_log logs \<and> memory d' = memory d \<and> started d' = Some name \<and> writing d' = None)) \<and>
     (\<forall>d off data. writing d = Some (off, length data) \<longrightarrow> (\<exists>logs d'. respond d data = (logs, d') \<and>
          list_all is_log logs \<and> writing d' = None \<and> map (memory d') [off..<off + length data] = data))"

lemma length_le32 [simp]: "length (le32 n) = 4"
  by (simp add: le32_def)

lemma le_value_le32: "n < 2 ^ 32 \<Longrightarrow> le_value (le32 n) = n"
  by (simp add: le_value_def le32_def be_value_be_bytes)

lemma tag_bytes [simp]:
  "length (bytes_of ''AxMa'') = 4" "length (bytes_of ''AxMw'') = 4" "length (bytes_of ''AxMr'') = 4"
  "length (bytes_of ''AxPs'') = 4" "length (bytes_of ''AxoS'') = 4" "length (bytes_of ''Axor'') = 4"
  "bytes_of ''AxoS'' \<noteq> bytes_of ''AxoT''" "bytes_of ''Axor'' \<noteq> bytes_of ''AxoT''"
  by (simp_all add: bytes_of_def)

lemma memory_laws:
  assumes "axo_memory respond memory writing free started" and "writing d = None"
  shows "sz \<le> free d \<Longrightarrow> \<exists>logs addr d'.
      respond d (bytes_of ''AxMa'' @ le32 sz @ le32 flags @ le32 align) = (logs @ [bytes_of ''AxoS'' @ le32 addr], d') \<and>
      list_all is_log logs \<and> addr < 2 ^ 32 \<and> addr + sz \<le> 2 ^ 32 \<and> writing d' = None"
    and "off < 2 ^ 32 \<Longrightarrow> sz < 2 ^ 32 \<Longrightarrow> off + sz \<le> 2 ^ 32 \<Longrightarrow> \<exists>logs d'.
      respond d (bytes_of ''AxMw'' @ le32 off @ le32 sz) = (logs, d') \<and>
      list_all is_log logs \<and> writing d' = Some (off, sz)"
    and "off < 2 ^ 32 \<Longrightarrow> sz < 2 ^ 32 \<Longrightarrow> off + sz \<le> 2 ^ 32 \<Longrightarrow> \<exists>logs d'.
      respond d (bytes_of ''AxMr'' @ le32 off @ le32 sz) =
        (logs @ [bytes_of ''Axor'' @ le32 off @ le32 sz @ map (memory d) [off..<off + sz]], d') \<and>
      list_all is_log logs \<and> memory d' = memory d \<and> writing d' = None"
    and "\<exists>logs d'. respond d (bytes_of ''AxPs'' @ name @ [0]) = (logs, d') \<and>
      list_all is_log logs \<and> memory d' = memory d \<and> started d' = Some name \<and> writing d' = None"
  using assms unfolding axo_memory_def by simp_all

lemma memory_data:
  "axo_memory respond memory writing free started \<Longrightarrow> writing d = Some (off, length data) \<Longrightarrow>
    \<exists>logs d'. respond d data = (logs, d') \<and> list_all is_log logs \<and> writing d' = None \<and>
      map (memory d') [off..<off + length data] = data"
  unfolding axo_memory_def by simp

text \<open>What is written is in the memory, and what is in the memory is read.\<close>

lemma mem_write_ok:
  assumes "axo_linked lib dev sent_by incoming dstate respond"
    and "axo_memory respond memory writing free started"
    and "axo_idle room sent_by incoming dstate d sys" and "writing d = None"
    and "addr < 2 ^ 32" "addr + length data \<le> 2 ^ 32"
    and "12 < room" and "length data < room" and "length data < 2 ^ 31"
  shows "\<exists>d' sys'. mem_write lib dev incoming addr data sys = Some (Value (), sys') \<and>
    axo_idle room sent_by incoming dstate d' sys' \<and> writing d' = None \<and>
    map (memory d') [addr..<addr + length data] = data"
proof -
  obtain logs d1 where d1: "respond d (bytes_of ''AxMw'' @ le32 addr @ le32 (length data)) = (logs, d1)"
    "list_all is_log logs" "writing d1 = Some (addr, length data)"
    using memory_laws(2) [OF assms(2,4,5) _ assms(6)] assms(9) by auto
  obtain sys1 where s1: "axo_send lib dev incoming (bytes_of ''AxMw'' @ le32 addr @ le32 (length data)) sys =
      Some (Value (), sys1)" "axo_idle room sent_by incoming dstate d1 sys1"
    using axo_send_ok [OF assms(1,3) _ _ d1(1,2)] assms(7) by auto
  obtain logs' d2 where d2: "respond d1 data = (logs', d2)" "list_all is_log logs'" "writing d2 = None"
    "map (memory d2) [addr..<addr + length data] = data"
    using memory_data [OF assms(2) d1(3)] by blast
  obtain sys2 where "axo_send lib dev incoming data sys1 = Some (Value (), sys2)"
    "axo_idle room sent_by incoming dstate d2 sys2"
    using axo_send_ok [OF assms(1) s1(2) assms(9,8) d2(1,2)] by auto
  with s1(1) d2 show ?thesis by (auto simp: mem_write_def)
qed

lemma mem_read_ok:
  assumes "axo_linked lib dev sent_by incoming dstate respond"
    and "axo_memory respond memory writing free started"
    and "axo_idle room sent_by incoming dstate d sys" and "writing d = None"
    and "addr < 2 ^ 32" "addr + sz \<le> 2 ^ 32" and "12 < room" and "sz + 12 < 1024 * 1024"
  shows "\<exists>d' sys'. mem_read lib dev incoming pid addr sz sys =
      Some (Value (addr, sz, map (memory d) [addr..<addr + sz]), sys') \<and>
    axo_idle room sent_by incoming dstate d' sys' \<and> writing d' = None \<and> memory d' = memory d"
proof -
  let ?data = "map (memory d) [addr..<addr + sz]"
  let ?raw = "bytes_of ''AxMr'' @ le32 addr @ le32 sz"
  obtain logs d' where d': "respond d ?raw = (logs @ [bytes_of ''Axor'' @ (le32 addr @ le32 sz @ ?data)], d')"
    "list_all is_log logs" "memory d' = memory d" "writing d' = None"
    using memory_laws(3) [OF assms(2,4,5) _ assms(6)] assms(8) by auto
  obtain sys' where "axo_await lib dev incoming pid (Call pid (bytes_of ''Axor'') ?raw) sys =
      Some (Value (le32 addr @ le32 sz @ ?data), sys')" "axo_idle room sent_by incoming dstate d' sys'"
    using await_ok [OF assms(1,3) _ _ d'(1,2), of pid] assms(7,8) by auto
  moreover have "sz < 2 ^ 32" using assms(8) by simp
  ultimately show ?thesis
    using d'(3,4) assms(5) by (auto simp: mem_read_def call_u32_def le_value_le32)
qed

lemma mem_alloc_ok:
  assumes "axo_linked lib dev sent_by incoming dstate respond"
    and "axo_memory respond memory writing free started"
    and "axo_idle room sent_by incoming dstate d sys" and "writing d = None" and "sz \<le> free d" and "16 < room"
  shows "\<exists>addr d' sys'. mem_alloc lib dev incoming pid sz flags align sys = Some (Value addr, sys') \<and>
    axo_idle room sent_by incoming dstate d' sys' \<and> writing d' = None \<and> addr < 2 ^ 32 \<and> addr + sz \<le> 2 ^ 32"
proof -
  let ?raw = "bytes_of ''AxMa'' @ le32 sz @ le32 flags @ le32 align"
  obtain logs addr d' where d': "respond d ?raw = (logs @ [bytes_of ''AxoS'' @ le32 addr], d')"
    "list_all is_log logs" "addr < 2 ^ 32" "addr + sz \<le> 2 ^ 32" "writing d' = None"
    using memory_laws(1) [OF assms(2,4,5)] by blast
  obtain sys' where "axo_await lib dev incoming pid (Call pid (bytes_of ''AxoS'') ?raw) sys =
      Some (Value (le32 addr), sys')" "axo_idle room sent_by incoming dstate d' sys'"
    using await_ok [OF assms(1,3) _ _ d'(1,2), of pid] assms(6) by auto
  with d'(3-5) show ?thesis by (auto simp: mem_alloc_def call_u32_def le_value_le32)
qed

lemma load_elf_ok:
  assumes "axo_linked lib dev sent_by incoming dstate respond"
    and "axo_memory respond memory writing free started"
    and "axo_idle room sent_by incoming dstate d sys" and "writing d = None"
    and "length elf \<le> free d" and "16 < room" and "length elf < room" and "length elf + 12 < 1024 * 1024"
  shows "\<exists>addr d' sys'. load_elf lib dev incoming pid (Some elf) name sys =
      Some (Value (patch_file_name addr name), sys') \<and>
    axo_idle room sent_by incoming dstate d' sys' \<and> writing d' = None \<and>
    map (memory d') [addr..<addr + length elf] = elf"
proof -
  obtain addr d1 sys1 where 1: "mem_alloc lib dev incoming pid (length elf) mem_type_hint_large 16 sys = Some (Value addr, sys1)"
    "axo_idle room sent_by incoming dstate d1 sys1" "writing d1 = None" "addr < 2 ^ 32" "addr + length elf \<le> 2 ^ 32"
    using mem_alloc_ok [OF assms(1-6)] by blast
  obtain d2 sys2 where 2: "mem_write lib dev incoming addr elf sys1 = Some (Value (), sys2)"
    "axo_idle room sent_by incoming dstate d2 sys2" "writing d2 = None" "map (memory d2) [addr..<addr + length elf] = elf"
    using mem_write_ok [OF assms(1,2) 1(2-5) _ assms(7)] assms(6,8) by auto
  obtain d3 sys3 where 3: "mem_read lib dev incoming pid addr (length elf) sys2 =
      Some (Value (addr, length elf, map (memory d2) [addr..<addr + length elf]), sys3)"
    "axo_idle room sent_by incoming dstate d3 sys3" "writing d3 = None" "memory d3 = memory d2"
    using mem_read_ok [OF assms(1,2) 2(2,3) 1(4,5) _ assms(8), of pid] assms(6) by auto
  have "load_elf lib dev incoming pid (Some elf) name sys = Some (Value (patch_file_name addr name), sys3)"
    by (simp add: load_elf_def 1(1) 2(1,4) 3(1))
  with 2(4) 3(2-4) show ?thesis by (intro exI [of _ addr] exI [of _ d3] exI [of _ sys3]) simp
qed

section \<open>Properties\<close>

text \<open>C24: A patch gets to the device whole. On a device that keeps the memory protocol
  (\<open>axo_memory\<close>: it grants an address for the size asked for, takes a write in a header and
  its data, reads its memory back, starts a named patch, and sends nothing but log messages
  besides) and on a link with nothing under way and the reader's total at 0 (\<open>axo_idle\<close>),
  \<open>transmit_start_live\<close> returns after five exchanges over both threads of the program: for the address,
  the header and the data of the write, the read that checks it, and the start. The file is then in
  the device's memory at the address the device gave, and the device was asked to start just that
  file: the name it was sent has this address in hexadecimal. The file has to be shorter than 1 MiB
  less the twelve bytes in front of the data when it is read back: an answer that fills the reader's
  buffer stops the reader on its assertion.\<close>

theorem patch_loaded:
  assumes "axo_linked lib dev sent_by incoming dstate respond"
    and "axo_memory respond memory writing free started"
    and "axo_idle room sent_by incoming dstate d sys" and "writing d = None"
    and "length elf \<le> free d" and "length elf < room" and "length elf + 12 < 1024 * 1024"
    and "length name + 15 < room" and "16 < room" and "length name + 15 < 2 ^ 31"
  shows "\<exists>addr d' sys'. transmit_start_live lib dev incoming pid (Some elf) name sys = Some (Value (), sys') \<and>
    axo_idle room sent_by incoming dstate d' sys' \<and> writing d' = None \<and>
    map (memory d') [addr..<addr + length elf] = elf \<and> started d' = Some (patch_file_name addr name)"
proof -
  obtain addr d1 sys1 where 1: "load_elf lib dev incoming pid (Some elf) name sys =
      Some (Value (patch_file_name addr name), sys1)" "axo_idle room sent_by incoming dstate d1 sys1"
    "writing d1 = None" "map (memory d1) [addr..<addr + length elf] = elf"
    using load_elf_ok [OF assms(1-5,9,6,7)] by blast
  let ?raw = "bytes_of ''AxPs'' @ patch_file_name addr name @ [0]"
  obtain logs d2 where 2: "respond d1 ?raw = (logs, d2)" "list_all is_log logs" "memory d2 = memory d1"
    "started d2 = Some (patch_file_name addr name)" "writing d2 = None"
    using memory_laws(4) [OF assms(2) 1(3)] by blast
  have "length ?raw = length name + 15"
    by (simp add: patch_file_name_def hex32_def bytes_of_def)
  then obtain sys2 where "axo_send lib dev incoming ?raw sys1 = Some (Value (), sys2)"
    "axo_idle room sent_by incoming dstate d2 sys2"
    using axo_send_ok [OF assms(1) 1(2) _ _ 2(1,2)] assms(8,10) by auto
  with 1 2(3-5) show ?thesis
    by (intro exI [of _ addr] exI [of _ d2] exI [of _ sys2]) (simp add: transmit_start_live_def patch_start_def)
qed

text \<open>A device for the witness: its memory, a write in progress and the patch started.\<close>

record board =
  b_memory :: "nat \<Rightarrow> u8"
  b_writing :: "(nat \<times> nat) option"
  b_started :: "u8 list option"

definition board_respond :: "board \<Rightarrow> u8 list \<Rightarrow> u8 list list \<times> board" where
  "board_respond d raw =
     (let off = le_value (take 4 (drop 4 raw)); sz = le_value (take 4 (drop 8 raw)) in
      case b_writing d of
        Some (to, n) \<Rightarrow> ([], d\<lparr>b_memory := (\<lambda>a. if to \<le> a \<and> a < to + length raw then raw ! (a - to)
           else b_memory d a), b_writing := None\<rparr>)
      | None \<Rightarrow>
          if take 4 raw = bytes_of ''AxMa'' then ([bytes_of ''AxoS'' @ le32 4096], d)
          else if take 4 raw = bytes_of ''AxMw'' then ([], d\<lparr>b_writing := Some (off, sz)\<rparr>)
          else if take 4 raw = bytes_of ''AxMr''
          then ([bytes_of ''Axor'' @ take 8 (drop 4 raw) @ map (b_memory d) [off..<off + sz]], d)
          else if take 4 raw = bytes_of ''AxPs'' then ([], d\<lparr>b_started := Some (butlast (drop 4 raw))\<rparr>)
          else ([bytes_of ''AxoT''], d))"

lemma board_memory: "axo_memory board_respond b_memory b_writing (\<lambda>_. 1000) b_started"
proof -
  have tags: "bytes_of ''AxMw'' \<noteq> bytes_of ''AxMa''" "bytes_of ''AxMr'' \<noteq> bytes_of ''AxMa''"
    "bytes_of ''AxMr'' \<noteq> bytes_of ''AxMw''" "bytes_of ''AxPs'' \<noteq> bytes_of ''AxMa''"
    "bytes_of ''AxPs'' \<noteq> bytes_of ''AxMw''" "bytes_of ''AxPs'' \<noteq> bytes_of ''AxMr''"
    by (simp_all add: bytes_of_def)
  have data: "map (\<lambda>a. if to \<le> a \<and> a < to + length raw then raw ! (a - to) else f a) [to..<to + length raw] = raw"
    for to f and raw :: "u8 list"
    by (rule nth_equalityI) simp_all
  show ?thesis
    unfolding axo_memory_def
    by (auto simp: board_respond_def Let_def tags le_value_le32 data intro!: exI [of _ "[]"])
qed

definition board_usb :: "((u8 list list \<times> u8 list list) \<times> board, u16, u16) usb_lib" where
  "board_usb = \<lparr>
     lib_init = (\<lambda>u. (0, u)), lib_device_list = (\<lambda>u. (Inr [0x442], u)),
     lib_descriptor = (\<lambda>v u. (0, 0x16c0, v)), lib_usb_open = (\<lambda>v u. (0, v, u)),
     lib_bulk_out = (\<lambda>h ep mem len ((sent, inc), d). (0, ((sent @ [take (nat len) mem], inc), d))),
     lib_bulk_in = (\<lambda>h ep len ((sent, inc), d).
       case inc of [] \<Rightarrow> (- 4, [], ((sent, inc), d)) | p # q \<Rightarrow> (0, p, ((sent, q), d)))\<rparr>"

definition board_turn ::
    "(u8 list list \<times> u8 list list) \<times> board \<Rightarrow> (u8 list list \<times> u8 list list) \<times> board" where
  "board_turn = (\<lambda>((sent, inc), d). case board_respond d (concat sent) of
     (ms, d') \<Rightarrow> (([], inc @ concat (map packets ms)), d'))"

lemma board_linked: "axo_linked board_usb board_turn (fst \<circ> fst) (snd \<circ> fst) snd board_respond"
  by (auto simp: axo_linked_def delivers_def receives_def leaves_device_def responds_def board_usb_def
      board_turn_def concat_packets split: list.splits prod.splits)

definition board_sys :: "((u8 list list \<times> u8 list list) \<times> board, u16, nat) axo_sys" where
  "board_sys = \<lparr>
     bridge = \<lparr>rd = (\<lambda>_. []), wr = (\<lambda>_. []), out = (\<lambda>_. []), malloc_max = 1000, live_blocks = 0,
       usb = (([], []), \<lparr>b_memory = (\<lambda>_. 0), b_writing = None, b_started = None\<rparr>), handle = None\<rparr>,
     thread = reader_start (1024 * 1024) 0, callers = Map.empty\<rparr>"

definition toy_elf :: "u8 list" where "toy_elf = [127, 69, 76, 70]"

theorem patch_loaded_witness:
  "\<exists>addr sys'. transmit_start_live board_usb board_turn (snd \<circ> fst) 1 (Some toy_elf) [120] board_sys =
      Some (Value (), sys') \<and>
    map (b_memory (snd (usb (bridge sys')))) [addr..<addr + length toy_elf] = toy_elf \<and>
    b_started (snd (usb (bridge sys'))) = Some (patch_file_name addr [120])"
proof -
  have "axo_idle 1000 (fst \<circ> fst) (snd \<circ> fst) snd
      \<lparr>b_memory = (\<lambda>_. 0), b_writing = None, b_started = None\<rparr> board_sys"
    by (simp add: axo_idle_def board_sys_def readable_def writable_def pending_def holds_start)
  note loaded = patch_loaded [OF board_linked board_memory this, of toy_elf "[120]" 1]
  have "length toy_elf = 4" by (simp add: toy_elf_def)
  then obtain addr d sys' where
    "transmit_start_live board_usb board_turn (snd \<circ> fst) 1 (Some toy_elf) [120] board_sys = Some (Value (), sys')"
    "axo_idle 1000 (fst \<circ> fst) (snd \<circ> fst) snd d sys'"
    "map (b_memory d) [addr..<addr + length toy_elf] = toy_elf"
    "b_started d = Some (patch_file_name addr [120])"
    using loaded by auto
  then show ?thesis unfolding axo_idle_def by blast
qed

end
