(* ===== verification/Erl_Leb128.thy ===== *)
theory Erl_Leb128
  imports Erl_Types
begin

text \<open>
  Terms as bytes that delimit themselves, src/leb128.erl: integers in groups of seven bits, and a
  type in front of a term, or once in front of all elements of a list. The writer's bytes go to a
  sink (src/sink.erl) and are Erlang integers, the reader takes them from a generator
  (src/igen.erl), here the list of those to come. Reading and writing files is not modelled, nor are
  floating point numbers, which the writer takes for integers.
\<close>

section \<open>Reading\<close>

definition e_eof :: evalue where "e_eof = e_atom ''eof''"

definition leb_byte :: "(int list, int) act" where
  "leb_byte s = (case s of [] \<Rightarrow> Some (Throw e_eof, []) | b # bs \<Rightarrow> Some (Value b, bs))"

text \<open>\<open>[F() || _ <- lists:seq(1,N)]\<close>.\<close>

primrec repeat_act :: "nat \<Rightarrow> ('s, 'a) act \<Rightarrow> ('s, 'a list) act" where
  "repeat_act 0 m = act_of (Value [])"
| "repeat_act (Suc n) m = act_then m (\<lambda>a. act_then (repeat_act n m) (\<lambda>as. act_of (Value (a # as))))"

text \<open>A binary of integers is an error unless they are bytes; a byte in a bit pattern is cut to
  eight bits.\<close>

fun byte_list :: "int list \<Rightarrow> u8 list option" where
  "byte_list [] = Some []"
| "byte_list (b # bs) =
     (if 0 \<le> b \<and> b < 256 then map_option ((#) (word_of_int b)) (byte_list bs) else None)"

definition leb_bytes :: "int \<Rightarrow> (int list, u8 list) act" where
  "leb_bytes n = act_then (repeat_act (nat n) leb_byte) (\<lambda>bs.
     act_of (case byte_list bs of Some b \<Rightarrow> Value b | None \<Rightarrow> Raise (e_atom ''badarg'')))"

fun leb_int_from :: "int \<Rightarrow> nat \<Rightarrow> (int list, int) act" where
  "leb_int_from v n [] = Some (Throw e_eof, [])"
| "leb_int_from v n (b # bs) =
     (let c = b mod 256; v' = v + (c mod 128) * 2 ^ n in
      if c < 128 then Some (Value v', bs) else leb_int_from v' (n + 7) bs)"

definition leb_int :: "(int list, int) act" where
  "leb_int = leb_int_from 0 0"

definition leb_sym :: "(int list, evalue) act" where
  "leb_sym = act_then leb_int (\<lambda>n. act_then (leb_bytes n) (\<lambda>bs.
     act_of (case binary_to_atom bs of Some a \<Rightarrow> Value a | None \<Rightarrow> Raise (e_atom ''badarg''))))"

fun skip_comment :: "(int list, unit) act" where
  "skip_comment [] = Some (Throw e_eof, [])"
| "skip_comment (b # bs) = (if b = 10 then Some (Value (), bs) else skip_comment bs)"

definition leb_ints :: "int \<Rightarrow> (int list, evalue) act" where
  "leb_ints n = act_then (repeat_act (nat n) leb_int) (\<lambda>vs. act_of (Value (E_list (map E_int vs) E_nil)))"

definition leb_tag :: "(int list, evalue) act" where
  "leb_tag = act_then leb_int (\<lambda>nf. act_then (leb_ints nf) (\<lambda>from.
     act_then leb_int (\<lambda>nt. act_then (leb_ints nt) (\<lambda>to.
     act_then leb_int (\<lambda>nb. act_then (leb_bytes nb) (\<lambda>bin.
     act_of (Value (E_tuple [e_atom ''tag'', E_tuple [from, to, E_binary bin]]))))))))"

text \<open>\<open>read\<close> and \<open>read_type\<close>; the first argument bounds the depth of the calls.\<close>

fun leb_read :: "nat \<Rightarrow> (int list, evalue) act"
  and leb_read_type :: "nat \<Rightarrow> int \<Rightarrow> (int list, evalue) act" where
  "leb_read 0 = (\<lambda>s. None)"
| "leb_read (Suc n) = act_then leb_int (\<lambda>T.
     if T = 0 then leb_read n
     else if T = 0x23 then act_then skip_comment (\<lambda>_. leb_read n)
     else leb_read_type n T)"
| "leb_read_type 0 T = (\<lambda>s. None)"
| "leb_read_type (Suc n) T =
     (if T = 1 then act_then leb_int (\<lambda>v. act_of (Value (E_int v)))
      else if T = 2 then act_then leb_int (\<lambda>k.
        act_then (repeat_act (nat k) (leb_read n)) (\<lambda>vs. act_of (Value (E_tuple vs))))
      else if T = 4 then act_then leb_int (\<lambda>k. act_then leb_int (\<lambda>T1.
        act_then (repeat_act (nat k) (leb_read_type n T1)) (\<lambda>vs. act_of (Value (E_list vs E_nil)))))
      else if T = 3 then act_then leb_int (\<lambda>k. act_then (leb_bytes k) (\<lambda>bs. act_of (Value (E_binary bs))))
      else if T = 5 then leb_sym
      else if T = 7 then leb_tag
      else act_of (Throw (E_tuple [e_atom ''type'', E_int T])))"

text \<open>A depth of one more than the bytes there are.\<close>

definition leb_decode :: "(int list, evalue) act" where
  "leb_decode s = leb_read (Suc (length s)) s"

section \<open>Writing\<close>

function leb_write_int :: "int \<Rightarrow> int list" where
  "leb_write_int n = (if n \<le> 127 then [n] else (128 + n mod 128) # leb_write_int (n div 128))"
  by pat_completeness auto
termination by (relation "measure nat") auto

declare leb_write_int.simps [simp del]

definition is_tag :: "evalue list \<Rightarrow> bool" where
  "is_tag vs \<longleftrightarrow> length vs = 2 \<and> hd vs = e_atom ''tag''"

fun leb_type :: "evalue \<Rightarrow> int" where
  "leb_type (E_tuple vs) = (if is_tag vs then 7 else 2)"
| "leb_type (E_int v) = 1"
| "leb_type (E_binary b) = 3"
| "leb_type E_nil = 4"
| "leb_type (E_cons x xs) = 4"
| "leb_type (E_atom a) = 5"

fun list_length :: "evalue \<Rightarrow> nat option" where
  "list_length E_nil = Some 0"
| "list_length (E_cons x xs) = map_option Suc (list_length xs)"
| "list_length v = None"

definition leb_write_bytes :: "u8 list \<Rightarrow> int list" where
  "leb_write_bytes b = leb_write_int (int (length b)) @ map uint b"

fun leb_int_elements :: "evalue \<Rightarrow> int list erl" where
  "leb_int_elements E_nil = Value []"
| "leb_int_elements (E_cons x xs) = erl_then (case x of E_int v \<Rightarrow> Value (leb_write_int v) | _ \<Rightarrow> badmatch)
     (\<lambda>a. erl_then (leb_int_elements xs) (\<lambda>b. Value (a @ b)))"
| "leb_int_elements v = no_clause"

definition leb_write_ints :: "evalue \<Rightarrow> int list erl" where
  "leb_write_ints l =
     (case list_length l of
        None \<Rightarrow> Raise (e_atom ''badarg'')
      | Some n \<Rightarrow> erl_then (leb_int_elements l) (\<lambda>bs. Value (leb_write_int (int n) @ bs)))"

definition leb_write_tag :: "evalue list \<Rightarrow> int list erl" where
  "leb_write_tag vs =
     (case vs of
        [_, E_tuple [from, to, bin]] \<Rightarrow>
          erl_then (leb_write_ints from) (\<lambda>a. erl_then (leb_write_ints to) (\<lambda>b.
            case bin of E_binary bs \<Rightarrow> Value (a @ b @ leb_write_bytes bs) | _ \<Rightarrow> Raise (e_atom ''badarg'')))
      | _ \<Rightarrow> no_clause)"

text \<open>\<open>write_type\<close>, \<open>write\<close> for the elements of a tuple, and \<open>write_elements\<close>. The type given is
  asserted, which makes the elements of a list have one type.\<close>

fun leb_write_type :: "int \<Rightarrow> evalue \<Rightarrow> int list erl"
  and leb_write_all :: "evalue list \<Rightarrow> int list erl"
  and leb_elements :: "int \<Rightarrow> evalue \<Rightarrow> int list erl" where
  "leb_write_type T (E_int v) = (if T = 1 then Value (leb_write_int v) else badmatch)"
| "leb_write_type T (E_binary b) = (if T = 3 then Value (leb_write_bytes b) else badmatch)"
| "leb_write_type T (E_atom a) = (if T = 5 then Value (leb_write_bytes a) else badmatch)"
| "leb_write_type T (E_tuple vs) =
     (if T \<noteq> leb_type (E_tuple vs) then badmatch
      else if is_tag vs then leb_write_tag vs
      else erl_then (leb_write_all vs) (\<lambda>bs. Value (leb_write_int (int (length vs)) @ bs)))"
| "leb_write_type T E_nil = (if T = 4 then Value (leb_write_int 0 @ leb_write_int 1) else badmatch)"
| "leb_write_type T (E_cons x xs) =
     (if T \<noteq> 4 then badmatch
      else case list_length xs of
        None \<Rightarrow> Raise (e_atom ''badarg'')
      | Some n \<Rightarrow> erl_then (leb_write_type (leb_type x) x) (\<lambda>a.
          erl_then (leb_elements (leb_type x) xs) (\<lambda>b.
          Value (leb_write_int (int (Suc n)) @ leb_write_int (leb_type x) @ a @ b))))"
| "leb_write_all [] = Value []"
| "leb_write_all (v # vs) = erl_then (leb_write_type (leb_type v) v) (\<lambda>a.
     erl_then (leb_write_all vs) (\<lambda>b. Value (leb_write_int (leb_type v) @ a @ b)))"
| "leb_elements T E_nil = Value []"
| "leb_elements T (E_cons x xs) = erl_then (leb_write_type T x) (\<lambda>a.
     erl_then (leb_elements T xs) (\<lambda>b. Value (a @ b)))"
| "leb_elements T v = no_clause"

definition leb_write :: "evalue \<Rightarrow> int list erl" where
  "leb_write t = erl_then (leb_write_type (leb_type t) t) (\<lambda>a. Value (leb_write_int (leb_type t) @ a))"

text \<open>\<open>to_list\<close>: the bytes through a sink.\<close>

definition leb_to_list :: "evalue \<Rightarrow> int list erl option" where
  "leb_to_list t =
     (case leb_write t of
        Value bs \<Rightarrow> map_option Value (gen_to_list (map Data bs @ [Eof]))
      | Throw e \<Rightarrow> Some (Throw e) | Raise e \<Rightarrow> Some (Raise e))"

section \<open>Integers and binaries\<close>

lemma leb_int_step:
  "leb_int_from v n (b # bs) = (if b mod 256 < 128 then Some (Value (v + b mod 256 * 2 ^ n), bs)
     else leb_int_from (v + (b mod 256 mod 128) * 2 ^ n) (n + 7) bs)"
  by (simp add: Let_def)

lemma leb_int_from_write:
  "0 \<le> k \<Longrightarrow> leb_int_from v n (leb_write_int k @ rest) = Some (Value (v + k * 2 ^ n), rest)"
proof (induction k arbitrary: v n rule: leb_write_int.induct)
  case (1 k)
  show ?case
  proof (cases "k \<le> 127")
    case True
    with 1(2) show ?thesis by (simp add: leb_write_int.simps [of k])
  next
    case False
    let ?c = "128 + k mod 128"
    have c: "?c mod 256 = ?c" "\<not> ?c < 128" "?c mod 128 = k mod 128"
      using pos_mod_bound [of 128 k] by (simp_all add: mod_pos_pos_trivial)
    have p: "(2 :: int) ^ (n + 7) = 2 ^ n * 128" by (simp add: power_add)
    have "k mod 128 * 2 ^ n + k div 128 * 2 ^ (n + 7) = (k div 128 * 128 + k mod 128) * 2 ^ n"
      unfolding p by (simp only: algebra_simps)
    then have "v + k mod 128 * 2 ^ n + k div 128 * 2 ^ (n + 7) = v + k * 2 ^ n" by simp
    with False 1 c show ?thesis
      by (simp add: leb_write_int.simps [of k] leb_int_step pos_imp_zdiv_nonneg_iff del: leb_int_from.simps)
  qed
qed

lemma leb_int_write [simp]: "0 \<le> k \<Longrightarrow> leb_int (leb_write_int k @ rest) = Some (Value k, rest)"
  by (simp add: leb_int_def leb_int_from_write)

lemma leb_write_int_small: "k \<le> 127 \<Longrightarrow> leb_write_int k = [k]"
  by (simp add: leb_write_int.simps)

lemma leb_write_int_nonempty: "leb_write_int k \<noteq> []"
  by (subst leb_write_int.simps) simp

lemma byte_list_uint [simp]: "byte_list (map uint b) = Some b"
proof (induction b)
  case (Cons a b)
  have "uint a < 2 ^ LENGTH(8)" by (rule unsigned_less)
  with Cons show ?case by simp
qed simp

lemma repeat_byte: "repeat_act (length bs) leb_byte (bs @ rest) = Some (Value bs, rest)"
  by (induction bs) (simp_all add: leb_byte_def)

lemma leb_bytes_write: "leb_bytes (int (length b)) (map uint b @ rest) = Some (Value b, rest)"
  using repeat_byte [of "map uint b" rest] by (simp add: leb_bytes_def)

text \<open>What is written is read back, by an action that a writer belongs to.\<close>

lemma repeat_act_reads:
  assumes "\<And>a rest. a \<in> set as \<Longrightarrow> m (w a @ rest) = Some (Value (f a), rest)"
  shows "repeat_act (length as) m (concat (map w as) @ rest) = Some (Value (map f as), rest)"
  using assms by (induction as) simp_all

section \<open>Lists of integers, and tags\<close>

definition nat_list :: "evalue \<Rightarrow> bool" where
  "nat_list l \<longleftrightarrow> (\<exists>vs. l = E_list (map E_int vs) E_nil \<and> (\<forall>v \<in> set vs. 0 \<le> v))"

lemma E_list_simps [simp]: "E_list [] t = t" "E_list (v # vs) t = E_cons v (E_list vs t)"
  by (simp_all add: E_list_def)

lemma list_length_list [simp]: "list_length (E_list vs E_nil) = Some (length vs)"
  by (induction vs) simp_all

lemma leb_int_elements_list:
  "leb_int_elements (E_list (map E_int vs) E_nil) = Value (concat (map leb_write_int vs))"
  by (induction vs) simp_all

lemma leb_ints_roundtrip:
  assumes "nat_list l"
  obtains n bs where "leb_write_ints l = Value (leb_write_int (int n) @ bs)"
    "\<And>rest. leb_ints (int n) (bs @ rest) = Some (Value l, rest)"
proof -
  obtain vs where l: "l = E_list (map E_int vs) E_nil" "\<forall>v \<in> set vs. 0 \<le> v"
    using assms by (auto simp: nat_list_def)
  have "leb_ints (int (length vs)) (concat (map leb_write_int vs) @ rest) = Some (Value l, rest)" for rest
    using repeat_act_reads [of vs leb_int leb_write_int id rest] l(2) by (simp add: leb_ints_def l(1))
  then show thesis
    using that [of "length vs" "concat (map leb_write_int vs)"]
    by (simp add: leb_write_ints_def l(1) leb_int_elements_list del: map_map)
qed

fun tag_ok :: "evalue list \<Rightarrow> bool" where
  "tag_ok [_, E_tuple [from, to, E_binary _]] = (nat_list from \<and> nat_list to)"
| "tag_ok _ = False"

lemma leb_tag_roundtrip:
  assumes "is_tag vs" and "tag_ok vs"
  shows "\<exists>bs. leb_write_tag vs = Value bs \<and> bs \<noteq> [] \<and> (\<forall>rest. leb_tag (bs @ rest) = Some (Value (E_tuple vs), rest))"
proof -
  obtain src dst b where vs: "vs = [e_atom ''tag'', E_tuple [src, dst, E_binary b]]" "nat_list src" "nat_list dst"
    using assms by (cases vs rule: tag_ok.cases) (auto simp: is_tag_def)
  obtain n cs where 1: "leb_write_ints src = Value (leb_write_int (int n) @ cs)"
    "\<And>rest. leb_ints (int n) (cs @ rest) = Some (Value src, rest)"
    using leb_ints_roundtrip [OF vs(2)] by blast
  obtain k bs where 2: "leb_write_ints dst = Value (leb_write_int (int k) @ bs)"
    "\<And>rest. leb_ints (int k) (bs @ rest) = Some (Value dst, rest)"
    using leb_ints_roundtrip [OF vs(3)] by blast
  show ?thesis
    by (simp add: leb_write_tag_def vs(1) 1 2 leb_tag_def leb_write_bytes_def leb_bytes_write leb_write_int_nonempty)
qed

section \<open>Terms\<close>

text \<open>Natural numbers, binaries, atoms that are valid UTF-8, tuples of such terms, tags, and lists whose
  elements are of one type.\<close>

fun leb_ok :: "evalue \<Rightarrow> bool" and leb_elements_ok :: "int \<Rightarrow> evalue \<Rightarrow> bool" where
  "leb_ok (E_int v) = (0 \<le> v)"
| "leb_ok (E_binary b) = True"
| "leb_ok (E_atom a) = (binary_to_atom a = Some (E_atom a))"
| "leb_ok (E_tuple vs) = (if is_tag vs then tag_ok vs else list_all leb_ok vs)"
| "leb_ok E_nil = True"
| "leb_ok (E_cons x xs) = (leb_ok x \<and> leb_elements_ok (leb_type x) xs)"
| "leb_elements_ok T E_nil = True"
| "leb_elements_ok T (E_cons x xs) = (leb_type x = T \<and> leb_ok x \<and> leb_elements_ok T xs)"
| "leb_elements_ok T v = False"

fun leb_cells :: "evalue \<Rightarrow> evalue list" where
  "leb_cells (E_cons x xs) = x # leb_cells xs"
| "leb_cells v = []"

lemma leb_elements_list: "leb_elements_ok T xs \<Longrightarrow> list_length xs = Some (length (leb_cells xs))"
  by (induction xs) simp_all

lemma leb_type_range: "0 < leb_type t" "leb_type t \<le> 127" "leb_type t \<noteq> 0x23"
  by (cases t; simp)+

lemma leb_read_typed:
  assumes "leb_read_type n (leb_type t) (bs @ rest) = r"
  shows "leb_read (Suc n) (leb_write_int (leb_type t) @ bs @ rest) = r"
  using assms leb_type_range [of t] by simp

lemma depth_left:
  assumes "length (leb_write_int k @ bs) \<le> n"
  obtains m where "n = Suc m" "length bs \<le> m"
proof -
  have "0 < length (leb_write_int k)" by (simp add: leb_write_int_nonempty)
  with assms that show thesis by (cases n) auto
qed

text \<open>Bytes that are read back as a value, and as several values one after the other, by a reader whose
  depth is the number of bytes. Each form of term, then the three writers.\<close>

definition read_back :: "int \<Rightarrow> evalue \<Rightarrow> int list \<Rightarrow> bool" where
  "read_back T v bs \<longleftrightarrow> bs \<noteq> [] \<and>
     (\<forall>n rest. length bs \<le> n \<longrightarrow> leb_read_type n T (bs @ rest) = Some (Value v, rest))"

definition read_each :: "(nat \<Rightarrow> (int list, evalue) act) \<Rightarrow> evalue list \<Rightarrow> int list \<Rightarrow> bool" where
  "read_each f vs bs \<longleftrightarrow>
     (\<forall>n rest. length bs \<le> n \<longrightarrow> repeat_act (length vs) (f n) (bs @ rest) = Some (Value vs, rest))"

lemma read_backI:
  assumes "bs \<noteq> []" and "\<And>n rest. length bs \<le> Suc n \<Longrightarrow> leb_read_type (Suc n) T (bs @ rest) = Some (Value v, rest)"
  shows "read_back T v bs"
  unfolding read_back_def
proof (intro conjI allI impI)
  fix n rest
  assume len: "length bs \<le> n"
  then obtain m where "n = Suc m" using assms(1) by (cases n) simp_all
  with assms(2) len show "leb_read_type n T (bs @ rest) = Some (Value v, rest)" by simp
qed (fact assms(1))

lemma read_back_int: "0 \<le> v \<Longrightarrow> read_back 1 (E_int v) (leb_write_int v)"
  by (rule read_backI) (simp_all add: leb_write_int_nonempty)

lemma read_back_binary: "read_back 3 (E_binary b) (leb_write_bytes b)"
  by (rule read_backI) (simp_all add: leb_write_bytes_def leb_write_int_nonempty leb_bytes_write)

lemma read_back_atom: "binary_to_atom a = Some (E_atom a) \<Longrightarrow> read_back 5 (E_atom a) (leb_write_bytes a)"
  by (rule read_backI) (simp_all add: leb_write_bytes_def leb_write_int_nonempty leb_bytes_write leb_sym_def)

lemma read_back_tag:
  assumes "is_tag vs" and "tag_ok vs"
  shows "\<exists>bs. leb_write_tag vs = Value bs \<and> read_back 7 (E_tuple vs) bs"
proof -
  obtain bs where bs: "leb_write_tag vs = Value bs" "bs \<noteq> []"
    "\<And>rest. leb_tag (bs @ rest) = Some (Value (E_tuple vs), rest)"
    using leb_tag_roundtrip [OF assms] by auto
  have "read_back 7 (E_tuple vs) bs" by (rule read_backI) (simp_all add: bs(2,3))
  with bs(1) show ?thesis by blast
qed

lemma read_back_tuple:
  assumes "read_each leb_read vs bs"
  shows "read_back 2 (E_tuple vs) (leb_write_int (int (length vs)) @ bs)"
proof (rule read_backI)
  fix n rest
  assume "length (leb_write_int (int (length vs)) @ bs) \<le> Suc n"
  then have "length bs \<le> n" using depth_left [of "int (length vs)" bs "Suc n"] by simp
  then show "leb_read_type (Suc n) 2 ((leb_write_int (int (length vs)) @ bs) @ rest) = Some (Value (E_tuple vs), rest)"
    using assms by (simp add: read_each_def)
qed (simp add: leb_write_int_nonempty)

lemma read_back_nil: "read_back 4 E_nil (leb_write_int 0 @ leb_write_int 1)"
  by (rule read_backI) (simp_all add: leb_write_int_nonempty)

lemma read_each_cons:
  assumes "read_back T x a" and "read_each (\<lambda>n. leb_read_type n T) es b"
  shows "read_each (\<lambda>n. leb_read_type n T) (x # es) (a @ b)"
  using assms by (simp add: read_each_def read_back_def)

lemma read_each_typed:
  assumes "read_back (leb_type v) v a" and "read_each leb_read vs b"
  shows "read_each leb_read (v # vs) (leb_write_int (leb_type v) @ a @ b)"
  unfolding read_each_def
proof (intro allI impI)
  fix n rest
  assume "length (leb_write_int (leb_type v) @ a @ b) \<le> n"
  then obtain m where m: "n = Suc m" "length (a @ b) \<le> m" by (rule depth_left)
  then have "leb_read n (leb_write_int (leb_type v) @ a @ b @ rest) = Some (Value v, b @ rest)"
    using leb_read_typed [of m v a "b @ rest"] assms(1) by (simp add: read_back_def)
  then show "repeat_act (length (v # vs)) (leb_read n) ((leb_write_int (leb_type v) @ a @ b) @ rest) =
      Some (Value (v # vs), rest)"
    using assms(2) m(2) \<open>length (leb_write_int (leb_type v) @ a @ b) \<le> n\<close> by (simp add: read_each_def)
qed

lemma read_back_cons:
  assumes "read_each (\<lambda>n. leb_read_type n (leb_type x)) (x # es) bs"
  shows "read_back 4 (E_cons x (E_list es E_nil))
    (leb_write_int (int (Suc (length es))) @ leb_write_int (leb_type x) @ bs)"
proof (rule read_backI)
  fix n rest
  assume "length (leb_write_int (int (Suc (length es))) @ leb_write_int (leb_type x) @ bs) \<le> Suc n"
  then have "length bs \<le> n"
    using leb_write_int_nonempty [of "int (Suc (length es))"] by (cases "leb_write_int (int (Suc (length es)))") simp_all
  then have "repeat_act (Suc (length es)) (leb_read_type n (leb_type x)) (bs @ rest) = Some (Value (x # es), rest)"
    using assms by (simp add: read_each_def)
  then show "leb_read_type (Suc n) 4 ((leb_write_int (int (Suc (length es))) @ leb_write_int (leb_type x) @ bs) @ rest) =
      Some (Value (E_cons x (E_list es E_nil)), rest)"
    using leb_type_range [of x] by (simp add: nat_add_distrib del: repeat_act.simps)
qed (simp add: leb_write_int_nonempty)

lemma leb_written:
  "leb_ok t \<Longrightarrow> T = leb_type t \<Longrightarrow> \<exists>bs. leb_write_type T t = Value bs \<and> read_back T t bs"
  "list_all leb_ok vs \<Longrightarrow> \<exists>bs. leb_write_all vs = Value bs \<and> read_each leb_read vs bs"
  "leb_elements_ok T xs \<Longrightarrow> \<exists>bs es. leb_elements T xs = Value bs \<and> xs = E_list es E_nil \<and>
     read_each (\<lambda>n. leb_read_type n T) es bs"
proof (induction T t and vs and T xs rule: leb_write_type_leb_write_all_leb_elements.induct)
  case (4 T vs)
  show ?case
  proof (cases "is_tag vs")
    case True
    with 4 read_back_tag [of vs] show ?thesis by auto
  next
    case False
    with 4 read_back_tuple [of vs] show ?thesis by auto
  qed
next
  case (6 T x xs)
  have ok: "leb_ok x" "leb_elements_ok (leb_type x) xs" "T = 4" using 6(3,4) by simp_all
  have len: "\<not> T \<noteq> 4" "list_length xs = Some (length (leb_cells xs))"
    using ok(3) leb_elements_list [OF ok(2)] by simp_all
  obtain b es where b: "leb_elements (leb_type x) xs = Value b" "xs = E_list es E_nil"
    "read_each (\<lambda>n. leb_read_type n (leb_type x)) es b"
    using 6(2) [OF len] ok(2) by blast
  obtain a where a: "leb_write_type (leb_type x) x = Value a" "read_back (leb_type x) x a"
    using 6(1) [OF len] ok(1) by blast
  from read_back_cons [OF read_each_cons [OF a(2) b(3)]] show ?case
    using ok(3) a(1) b(1,2) by simp
next
  case (8 v vs)
  then obtain a b where "leb_write_type (leb_type v) v = Value a" "leb_write_all vs = Value b"
    "read_back (leb_type v) v a" "read_each leb_read vs b" by auto
  with read_each_typed show ?case by simp
next
  case (9 T)
  then show ?case by (intro exI [of _ "[]"]) (simp add: read_each_def)
next
  case (10 T x xs)
  have ok: "leb_type x = T" "leb_ok x" "leb_elements_ok T xs" using 10(3) by simp_all
  obtain a where a: "leb_write_type T x = Value a" "read_back T x a"
    using 10(1) ok by auto
  obtain b es where b: "leb_elements T xs = Value b" "xs = E_list es E_nil"
    "read_each (\<lambda>n. leb_read_type n T) es b"
    using 10(2) ok(3) a(1) by blast
  then show ?case
    using a(1) read_each_cons [OF a(2) b(3)] by (intro exI [of _ "a @ b"] exI [of _ "x # es"]) simp
qed (simp_all add: read_back_int read_back_binary read_back_atom read_back_nil read_each_def)

section \<open>The reader ends\<close>

text \<open>On inputs shorter than n an action returns and leaves no more than it was given; one that eats
  leaves less when it returns a value.\<close>

definition reads :: "nat \<Rightarrow> (int list, 'a) act \<Rightarrow> bool" where
  "reads n m \<longleftrightarrow> (\<forall>s. length s < n \<longrightarrow> (\<exists>r s'. m s = Some (r, s') \<and> length s' \<le> length s))"

definition eats :: "(int list, 'a) act \<Rightarrow> bool" where
  "eats m \<longleftrightarrow> (\<forall>s. \<exists>r s'. m s = Some (r, s') \<and> length s' \<le> length s \<and>
     (case r of Value a \<Rightarrow> length s' < length s | _ \<Rightarrow> True))"

named_theorems read_intros \<open>actions that return\<close>

lemma reads_act_of [read_intros]: "reads n (act_of r)"
  by (simp add: reads_def)

lemma reads_then [read_intros]:
  assumes "reads n m" and "\<And>a. reads n (f a)"
  shows "reads n (act_then m f)"
  unfolding reads_def
proof (intro allI impI)
  fix s :: "int list" assume s: "length s < n"
  then obtain r s1 where 1: "m s = Some (r, s1)" "length s1 \<le> length s"
    using assms(1) unfolding reads_def by blast
  have "\<exists>r' s2. f a s1 = Some (r', s2) \<and> length s2 \<le> length s1" for a
    using assms(2) s 1(2) unfolding reads_def by (meson le_less_trans)
  with 1 show "\<exists>r s'. act_then m f s = Some (r, s') \<and> length s' \<le> length s"
    by (cases r) (fastforce intro: order_trans)+
qed

lemma reads_after [read_intros]:
  assumes "eats m" and "\<And>a. reads n (f a)"
  shows "reads (Suc n) (act_then m f)"
  unfolding reads_def
proof (intro allI impI)
  fix s :: "int list" assume s: "length s < Suc n"
  obtain r s1 where 1: "m s = Some (r, s1)" "length s1 \<le> length s"
    "case r of Value a \<Rightarrow> length s1 < length s | _ \<Rightarrow> True"
    using assms(1) unfolding eats_def by blast
  show "\<exists>r s'. act_then m f s = Some (r, s') \<and> length s' \<le> length s"
  proof (cases r)
    case (Value a)
    with 1(3) s have "length s1 < n" by simp
    then obtain r' s2 where "f a s1 = Some (r', s2)" "length s2 \<le> length s1"
      using assms(2) unfolding reads_def by blast
    with 1(1,2) Value show ?thesis by simp
  qed (use 1 in simp_all)
qed

lemma reads_repeat [read_intros]: "reads n m \<Longrightarrow> reads n (repeat_act k m)"
  by (induction k) (auto intro: read_intros)

lemma reads_skip_comment [read_intros]: "reads n skip_comment"
proof -
  have "\<exists>r s'. skip_comment s = Some (r, s') \<and> length s' \<le> length s" for s
    by (induction s rule: skip_comment.induct) auto
  then show ?thesis by (simp add: reads_def)
qed

lemma eats_leb_int [read_intros]: "eats leb_int"
proof -
  have "\<exists>r s'. leb_int_from v n s = Some (r, s') \<and> length s' \<le> length s \<and>
      (case r of Value a \<Rightarrow> length s' < length s | _ \<Rightarrow> True)" for v n s
  proof (induction s arbitrary: v n)
    case (Cons b s)
    obtain r s' where "leb_int_from (v + b mod 256 mod 128 * 2 ^ n) (n + 7) s = Some (r, s')"
      "length s' \<le> length s" "case r of Value a \<Rightarrow> length s' < length s | _ \<Rightarrow> True"
      using Cons.IH by blast
    then show ?case by (cases r) (simp_all add: Let_def)
  qed simp
  then show ?thesis by (simp add: eats_def leb_int_def)
qed

lemma eats_reads: "eats m \<Longrightarrow> reads n m"
  unfolding eats_def reads_def by blast

lemma reads_leb_int [read_intros]: "reads n leb_int"
  by (rule eats_reads) (rule eats_leb_int)

lemma reads_leb_bytes [read_intros]: "reads n (leb_bytes k)"
proof -
  have "reads n leb_byte" by (auto simp: reads_def leb_byte_def split: list.split)
  then show ?thesis unfolding leb_bytes_def by (intro read_intros)
qed

lemma reads_leb_tag [read_intros]: "reads n leb_tag"
  unfolding leb_tag_def leb_ints_def by (intro read_intros)

lemma reads_leb_sym [read_intros]: "reads n leb_sym"
  unfolding leb_sym_def by (intro read_intros)

lemma leb_read_ends: "reads n (leb_read n) \<and> (\<forall>T. reads n (leb_read_type n T))"
proof (induction n)
  case 0
  then show ?case by (simp add: reads_def)
next
  case (Suc n)
  then have r: "reads n (leb_read n)" "\<And>T. reads n (leb_read_type n T)" by blast+
  have "reads (Suc n) (leb_read (Suc n))"
    by (auto intro!: read_intros r)
  moreover have "reads (Suc n) (leb_read_type (Suc n) T)" for T
    by (auto intro!: read_intros r)
  ultimately show ?case by blast
qed

section \<open>Properties\<close>

text \<open>What may stand in front of a term: bytes without meaning, and comments up to the end of a line.\<close>

fun pad :: "int list option \<Rightarrow> int list" where
  "pad None = [0]"
| "pad (Some c) = 0x23 # c @ [10]"

definition pads_ok :: "int list option list \<Rightarrow> bool" where
  "pads_ok ps \<longleftrightarrow> (\<forall>c. Some c \<in> set ps \<longrightarrow> 10 \<notin> set c)"

lemma leb_read_pads:
  assumes "pads_ok ps" and "\<And>n. length bs \<le> n \<Longrightarrow> leb_read n (bs @ rest) = r"
  shows "length ps + length bs \<le> n \<Longrightarrow> leb_read n (concat (map pad ps) @ bs @ rest) = r"
  using assms(1)
proof (induction ps arbitrary: n)
  case (Cons p ps)
  then obtain m where n: "n = Suc m" "length ps + length bs \<le> m" by (cases n) auto
  have rest: "leb_read m (concat (map pad ps) @ bs @ rest) = r"
    using Cons.IH [OF n(2)] Cons.prems(2) by (simp add: pads_ok_def)
  have skip: "10 \<notin> set c \<Longrightarrow> skip_comment (c @ 10 # s) = Some (Value (), s)" for c s
    by (induction c) auto
  show ?case
  proof (cases p)
    case None
    with rest n(1) show ?thesis by (simp add: leb_int_def)
  next
    case (Some c)
    then have "10 \<notin> set c" using Cons.prems(2) by (simp add: pads_ok_def)
    with rest n(1) Some show ?thesis by (simp add: leb_int_def skip)
  qed
qed (use assms(2) in simp)

lemma length_pads: "length ps \<le> length (concat (map pad ps))"
proof (induction ps)
  case (Cons p ps)
  then show ?case by (cases p) simp_all
qed simp

text \<open>C28: Terms go through bytes unchanged: what the writer sends to its sink for a term, the reader
  gives back as that term, whatever padding and comments stand in front of it, and it leaves what
  follows unread. This holds for natural numbers of any size, binaries, atoms, tuples, tagged
  messages and lists whose elements have one type, nested in each other at will.\<close>

theorem leb128_roundtrip:
  assumes "leb_ok t" and "pads_ok ps"
  shows "\<exists>bs. leb_to_list t = Some (Value bs) \<and>
    (\<forall>rest. leb_decode (concat (map pad ps) @ bs @ rest) = Some (Value t, rest))"
proof -
  obtain a where a: "leb_write_type (leb_type t) t = Value a"
    "\<And>n rest. length a \<le> n \<Longrightarrow> leb_read_type n (leb_type t) (a @ rest) = Some (Value t, rest)"
    using leb_written(1) [OF assms(1) refl] unfolding read_back_def by blast
  let ?bs = "leb_write_int (leb_type t) @ a"
  have read: "leb_read n (?bs @ rest) = Some (Value t, rest)" if len: "length ?bs \<le> n" for n rest
  proof -
    obtain m where "n = Suc m" "length a \<le> m" using depth_left [OF len] .
    then show ?thesis using leb_read_typed [of m t a rest] a(2) by simp
  qed
  have "leb_decode (concat (map pad ps) @ ?bs @ rest) = Some (Value t, rest)" for rest
    unfolding leb_decode_def
  proof (rule leb_read_pads [OF assms(2) read])
    show "length ps + length ?bs \<le> Suc (length (concat (map pad ps) @ ?bs @ rest))"
      using length_pads [of ps] by simp
  qed
  then show ?thesis
    using a(1) gen_to_list_data [of ?bs "[]"]
    by (intro exI [of _ ?bs]) (simp add: leb_to_list_def leb_write_def)
qed

theorem leb128_roundtrip_witness:
  "\<exists>bs. leb_to_list (E_tuple [E_int 300, E_cons (E_binary [1]) E_nil]) = Some (Value bs) \<and>
     leb_decode ([0, 0x23, 33, 10] @ bs @ [9]) =
       Some (Value (E_tuple [E_int 300, E_cons (E_binary [1]) E_nil]), [9])"
proof -
  have "leb_ok (E_tuple [E_int 300, E_cons (E_binary [1]) E_nil])" by (simp add: is_tag_def)
  moreover have "pads_ok [None, Some [33]]" by (simp add: pads_ok_def)
  ultimately show ?thesis using leb128_roundtrip [of _ "[None, Some [33]]"] by fastforce
qed

text \<open>The reader ends on every input, with a term, or with an exception where the bytes end or are no
  term: lengths in the input cannot make it run on, as every element it reads takes a byte.\<close>

lemma leb128_reader_ends: "\<exists>r rest. leb_decode s = Some (r, rest) \<and> length rest \<le> length s"
  using leb_read_ends [of "Suc (length s)"] unfolding reads_def leb_decode_def by blast

text \<open>A negative number is written as it is, and as a byte it is the first of a longer number.\<close>

lemma negative_not_read_back:
  "leb_to_list (E_int (- 1)) = Some (Value [1, - 1]) \<and> leb_decode [1, - 1] = Some (Throw e_eof, [])"
  by (simp add: leb_to_list_def leb_write_def leb_write_int_small gen_to_list_def leb_decode_def leb_int_def
      numeral_2_eq_2)

end
