(* ===== verification/Erl_Rsp.thy ===== *)
theory Erl_Rsp
  imports Erl_Types
begin

text \<open>
  Packets of the remote serial protocol of GDB, src/rsp.erl: a text between \<open>$\<close> and \<open>#\<close> with a
  checksum behind it, put together again from the chunks a connection delivers. Characters are
  bytes. Sockets, ports and the processes around them are not modelled.
\<close>

section \<open>Packets\<close>

fun rsp_unesc :: "u8 list \<Rightarrow> u8 list" where
  "rsp_unesc [] = []"
| "rsp_unesc [c] = [c]"
| "rsp_unesc (c # h # t) = (if c = 125 then h # rsp_unesc t else c # rsp_unesc (h # t))"

definition rsp_special :: "u8 \<Rightarrow> bool" where
  "rsp_special c \<longleftrightarrow> c \<in> {35, 125, 36, 42}"

fun rsp_esc :: "u8 list \<Rightarrow> u8 list" where
  "rsp_esc [] = []"
| "rsp_esc (h # t) = (if rsp_special h then 125 # xor 0x20 h # rsp_esc t else h # rsp_esc t)"

definition rsp_chk :: "u8 list \<Rightarrow> int" where
  "rsp_chk l = foldl (\<lambda>a h. a + uint h) 0 l mod 256"

definition rsp_wrap :: "u8 list \<Rightarrow> u8 list" where
  "rsp_wrap l = (let w = rsp_esc l in [43, 36] @ w @ [35] @ hex8 (rsp_chk w))"

text \<open>The checksum is not looked at, but something has to be there.\<close>

fun rsp_chop_end :: "u8 list \<Rightarrow> u8 list erl" where
  "rsp_chop_end [] = no_clause"
| "rsp_chop_end (h # t) =
     (if h = 35 \<and> t \<noteq> [] then Value [] else erl_then (rsp_chop_end t) (\<lambda>r. Value (h # r)))"

fun rsp_chop :: "u8 list \<Rightarrow> u8 list erl" where
  "rsp_chop [] = no_clause"
| "rsp_chop (h # t) =
     (if h = 43 \<or> h = 45 then rsp_chop t else if h = 36 then rsp_chop_end t else no_clause)"

definition rsp_unwrap :: "u8 list \<Rightarrow> u8 list erl" where
  "rsp_unwrap l = erl_then (rsp_chop l) (\<lambda>c. Value (rsp_unesc c))"

text \<open>A remote command, or None for false.\<close>

definition rsp_qRcmd :: "u8 list \<Rightarrow> int list option erl" where
  "rsp_qRcmd req =
     (if req = [43] then Value None
      else erl_then (rsp_unwrap req) (\<lambda>l.
        if take 6 l = bytes_of ''qRcmd,''
        then (case unhex (drop 6 l) of Some bs \<Rightarrow> Value (Some bs) | None \<Rightarrow> Raise (e_atom ''badarg''))
        else Value None))"

fun hex_digits :: "nat \<Rightarrow> u8 list" where
  "hex_digits n = (if n < 16 then [hex_char n] else hex_digits (n div 16) @ [hex_char (n mod 16)])"

declare hex_digits.simps [simp del]

definition int_hex :: "int \<Rightarrow> u8 list" where
  "int_hex v = (if v < 0 then 45 # hex_digits (nat (- v)) else hex_digits (nat v))"

fun rsp_comma :: "u8 list list \<Rightarrow> u8 list" where
  "rsp_comma [] = []"
| "rsp_comma (a # b) = a @ [44] @ rsp_comma b"

definition rsp_hex_csv :: "u8 list \<Rightarrow> int list \<Rightarrow> u8 list \<Rightarrow> u8 list" where
  "rsp_hex_csv code args payload = rsp_wrap (code @ rsp_comma (map int_hex args) @ payload)"

section \<open>Chunks\<close>

fun rsp_delim :: "u8 list \<Rightarrow> bool" where
  "rsp_delim [] = False"
| "rsp_delim (c # t) = (c # t = [43] \<or> c = 35 \<and> length t = 2 \<or> rsp_delim t)"

text \<open>\<open>gather\<close>: a message and nothing left, or the text so far.\<close>

definition rsp_gather :: "u8 list \<Rightarrow> u8 list \<Rightarrow> u8 list option \<times> u8 list" where
  "rsp_gather data accu =
     (let next = accu @ data in if rsp_delim next then (Some next, []) else (None, next))"

text \<open>\<open>singleshot\<close> takes chunks up to a message: the message and the chunks left, or None when there are
  not enough of them; \<open>loop\<close> goes on with the next message.\<close>

fun rsp_singleshot :: "u8 list list \<Rightarrow> u8 list \<Rightarrow> (u8 list \<times> u8 list list) option" where
  "rsp_singleshot [] accu = None"
| "rsp_singleshot (data # chunks) accu =
     (case rsp_gather data accu of
        (Some msg, _) \<Rightarrow> Some (msg, chunks)
      | (None, next) \<Rightarrow> rsp_singleshot chunks next)"

lemma singleshot_shorter: "rsp_singleshot chunks accu = Some (msg, rest) \<Longrightarrow> length rest < length chunks"
  by (induction chunks arbitrary: accu) (fastforce split: prod.splits option.splits)+

function rsp_loop :: "u8 list list \<Rightarrow> u8 list list" where
  "rsp_loop chunks =
     (case rsp_singleshot chunks [] of None \<Rightarrow> [] | Some (msg, rest) \<Rightarrow> msg # rsp_loop rest)"
  by pat_completeness auto
termination by (relation "measure length") (auto dest: singleshot_shorter)

declare rsp_loop.simps [simp del]

section \<open>What a packet is\<close>

lemma hex_char_not_special: "n < 16 \<Longrightarrow> hex_char n \<notin> {35, 36, 42, 125}"
proof -
  assume "n < 16"
  then have "n \<in> set [0..<16]" by simp
  then show ?thesis by (auto simp: hex_char_def upt_rec)
qed

lemma hex8_chars: "c \<in> set (hex8 v) \<Longrightarrow> \<not> rsp_special c"
  using hex_char_not_special [of "nat (v mod 256) div 16"] hex_char_not_special [of "nat (v mod 256) mod 16"]
  by (auto simp: hex8_def Let_def rsp_special_def div_less_dividend less_mult_imp_div_less nat_less_iff)

lemma length_hex8 [simp]: "length (hex8 v) = 2"
  by (simp add: hex8_def Let_def)

lemma esc_no_hash: "35 \<notin> set (rsp_esc l)"
  by (induction l) (auto simp: rsp_special_def)

text \<open>Escaped characters are sent with one bit turned, and the reader does not turn it back.\<close>

definition rsp_seen :: "u8 \<Rightarrow> u8" where
  "rsp_seen c = (if rsp_special c then xor 0x20 c else c)"

lemma unesc_cons: "c \<noteq> 125 \<Longrightarrow> rsp_unesc (c # l) = c # rsp_unesc l"
  by (cases l) simp_all

lemma unesc_esc: "rsp_unesc (rsp_esc l) = map rsp_seen l"
proof (induction l)
  case (Cons c l)
  then show ?case by (auto simp: rsp_seen_def unesc_cons rsp_special_def)
qed simp

lemma chop_end_hash: "35 \<notin> set w \<Longrightarrow> e \<noteq> [] \<Longrightarrow> rsp_chop_end (w @ 35 # e) = Value w"
  by (induction w) auto

lemma unwrap_wrap: "rsp_unwrap (rsp_wrap l) = Value (map rsp_seen l)"
proof -
  have "hex8 v \<noteq> []" for v using length_hex8 [of v] by (metis list.size(3) zero_neq_numeral)
  then show ?thesis
    by (simp add: rsp_unwrap_def rsp_wrap_def Let_def chop_end_hash esc_no_hash unesc_esc)
qed

section \<open>Where a packet ends\<close>

lemma delim_iff: "rsp_delim s \<longleftrightarrow> (\<exists>u. s = u @ [43]) \<or> (\<exists>u x y. s = u @ [35, x, y])"
proof (induction s)
  case (Cons c t)
  have "(\<exists>u. c # t = u @ [43]) \<longleftrightarrow> c # t = [43] \<or> (\<exists>u. t = u @ [43])"
    by (auto simp: Cons_eq_append_conv)
  moreover have "(\<exists>u x y. c # t = u @ [35, x, y]) \<longleftrightarrow> c = 35 \<and> length t = 2 \<or> (\<exists>u x y. t = u @ [35, x, y])"
    by (auto simp: Cons_eq_append_conv length_Suc_conv numeral_2_eq_2)
  ultimately show ?case using Cons by auto
qed simp

lemma wrap_parts:
  obtains x y where "rsp_wrap l = ([43, 36] @ rsp_esc l) @ [35, x, y]" "35 \<notin> set ([43, 36] @ rsp_esc l)" "x \<noteq> 35" "y \<noteq> 35"
proof -
  obtain x y where h: "hex8 (rsp_chk (rsp_esc l)) = [x, y]" by (simp add: hex8_def Let_def)
  then have "\<not> rsp_special x" "\<not> rsp_special y"
    using hex8_chars [of _ "rsp_chk (rsp_esc l)"] by auto
  with that [of x y] h esc_no_hash [of l] show thesis
    by (auto simp: rsp_wrap_def Let_def rsp_special_def)
qed

lemma wrap_delim: "rsp_delim (rsp_wrap l)"
  by (rule wrap_parts [of l]) (auto simp: delim_iff)

lemma first_split: "w @ x # t = u @ x # r \<Longrightarrow> x \<notin> set w \<Longrightarrow> x \<notin> set t \<Longrightarrow> t = r"
proof (induction w arbitrary: u)
  case Nil
  then show ?case by (cases u) auto
next
  case (Cons c w)
  then show ?case by (cases u) auto
qed

text \<open>A packet does not seem complete before it is, as long as what has arrived of it does not end
  with a plus sign.\<close>

lemma prefix_no_delim:
  assumes "rsp_wrap l = p @ q" and "p \<noteq> []" "q \<noteq> []" and "last p \<noteq> 43"
  shows "\<not> rsp_delim p"
proof
  assume "rsp_delim p"
  with assms(2,4) obtain u a b where p: "p = u @ [35, a, b]" by (auto simp: delim_iff)
  obtain x y where w: "rsp_wrap l = ([43, 36] @ rsp_esc l) @ [35, x, y]" "35 \<notin> set ([43, 36] @ rsp_esc l)"
    "x \<noteq> 35" "y \<noteq> 35"
    by (rule wrap_parts)
  have "([43, 36] @ rsp_esc l) @ 35 # [x, y] = u @ 35 # (a # b # q)"
    using assms(1) w(1) p by simp
  then have "[x, y] = a # b # q"
    by (rule first_split) (use w(2-4) in auto)
  with assms(3) show False by simp
qed

section \<open>Messages put together\<close>

text \<open>A packet cut into chunks: none is empty, and none but the final one ends in a plus sign, which
  the reader takes for the end of a message.\<close>

definition cut_of :: "u8 list list \<Rightarrow> u8 list \<Rightarrow> bool" where
  "cut_of cs m \<longleftrightarrow> concat cs = m \<and> (\<forall>c\<in>set cs. c \<noteq> []) \<and> (\<forall>c\<in>set (butlast cs). last c \<noteq> 43)"

lemma singleshot_packet:
  "accu @ concat cs = rsp_wrap l \<Longrightarrow> cs \<noteq> [] \<Longrightarrow> \<forall>c\<in>set cs. c \<noteq> []
    \<Longrightarrow> \<forall>c\<in>set (butlast cs). last c \<noteq> 43
    \<Longrightarrow> rsp_singleshot (cs @ rest) accu = Some (rsp_wrap l, rest)"
proof (induction cs arbitrary: accu)
  case (Cons c cs)
  show ?case
  proof (cases "cs = []")
    case True
    then show ?thesis using Cons.prems(1) wrap_delim [of l] by (simp add: rsp_gather_def)
  next
    case False
    then have "concat cs \<noteq> []" "last c \<noteq> 43" "c \<noteq> []" using Cons.prems(3,4) by (cases cs; auto)+
    then have "\<not> rsp_delim (accu @ c)"
      using prefix_no_delim [of l "accu @ c" "concat cs"] Cons.prems(1) by simp
    moreover have "rsp_singleshot (cs @ rest) (accu @ c) = Some (rsp_wrap l, rest)"
      using Cons False by simp
    ultimately show ?thesis by (simp add: rsp_gather_def)
  qed
qed simp

lemma loop_packets:
  "list_all2 (\<lambda>cs l. cut_of cs (rsp_wrap l)) css ls \<Longrightarrow> rsp_loop (concat css) = map rsp_wrap ls"
proof (induction css arbitrary: ls)
  case (Cons cs css)
  then obtain l ls' where ls: "ls = l # ls'" "cut_of cs (rsp_wrap l)"
      "list_all2 (\<lambda>cs l. cut_of cs (rsp_wrap l)) css ls'"
    by (auto simp: list_all2_Cons1)
  then have "cs \<noteq> []" by (auto simp: cut_of_def rsp_wrap_def Let_def)
  with ls have "rsp_singleshot (cs @ concat css) [] = Some (rsp_wrap l, concat css)"
    by (intro singleshot_packet) (auto simp: cut_of_def)
  with ls Cons.IH show ?case by (simp add: rsp_loop.simps [of "cs @ concat css"])
qed (simp add: rsp_loop.simps)

text \<open>Whatever the chunks are, every byte is passed on, in order, but for those behind the last
  message.\<close>

lemma singleshot_bytes:
  "rsp_singleshot chunks accu = Some (msg, rest) \<Longrightarrow> accu @ concat chunks = msg @ concat rest \<and> rsp_delim msg"
  by (induction chunks arbitrary: accu) (fastforce simp: rsp_gather_def Let_def split: if_splits)+

lemma singleshot_waits:
  "rsp_singleshot chunks accu = None \<Longrightarrow> \<not> rsp_delim accu \<Longrightarrow> \<not> rsp_delim (accu @ concat chunks)"
proof (induction chunks arbitrary: accu)
  case (Cons data chunks)
  from Cons.IH [of "accu @ data"] Cons.prems show ?case
    by (auto simp: rsp_gather_def Let_def split: if_splits)
qed simp

lemma loop_bytes:
  "(\<exists>left. concat chunks = concat (rsp_loop chunks) @ left \<and> \<not> rsp_delim left) \<and>
    (\<forall>m \<in> set (rsp_loop chunks). rsp_delim m)"
proof (induction chunks rule: rsp_loop.induct)
  case (1 chunks)
  show ?case
  proof (cases "rsp_singleshot chunks []")
    case None
    then show ?thesis using singleshot_waits [OF None] by (simp add: rsp_loop.simps [of chunks])
  next
    case (Some r)
    then obtain msg rest where r: "rsp_singleshot chunks [] = Some (msg, rest)" by (cases r) simp
    from 1 [OF r refl] singleshot_bytes [OF r] show ?thesis
      by (auto simp: rsp_loop.simps [of chunks] r)
  qed
qed

text \<open>Packets that come in one chunk are one message, of which the reader sees the first packet.\<close>

lemma delim_append: "rsp_delim b \<Longrightarrow> rsp_delim (a @ b)"
  by (induction a) simp_all

lemma wraps_delim: "rsp_delim (concat (map rsp_wrap (l # ls)))"
proof (induction ls arbitrary: l)
  case (Cons l' ls)
  show ?case using delim_append [OF Cons, of "rsp_wrap l"] by simp
qed (simp add: wrap_delim)

lemma unwrap_first: "rsp_unwrap (rsp_wrap l @ rest) = Value (map rsp_seen l)"
proof -
  have "hex8 v \<noteq> []" for v using length_hex8 [of v] by (metis list.size(3) zero_neq_numeral)
  then show ?thesis
    by (simp add: rsp_unwrap_def rsp_wrap_def Let_def chop_end_hash esc_no_hash unesc_esc)
qed

text \<open>C29: Packets sent one after the other are passed on one message each, in order, if the
  connection keeps the borders of packets: no chunk holds bytes of two packets, none is empty and
  none but the last of a packet ends in a plus sign. Each message then unwraps to the text that was
  wrapped, with one bit turned in the characters that had to be escaped: the reader leaves them as
  they were sent. For any chunks at all, nothing is lost or reordered up to the last delimiter a
  chunk ends with, and every message ends with one; but packets that come in one chunk are one
  message, which unwraps to the text of the first of them.\<close>

theorem rsp_packets_delivered:
  "(list_all2 (\<lambda>cs l. cut_of cs (rsp_wrap l)) css ls \<longrightarrow>
      map rsp_unwrap (rsp_loop (concat css)) = map (\<lambda>l. Value (map rsp_seen l)) ls) \<and>
    (\<exists>left. concat chunks = concat (rsp_loop chunks) @ left \<and> \<not> rsp_delim left) \<and>
    (\<forall>m \<in> set (rsp_loop chunks). rsp_delim m) \<and>
    rsp_loop [concat (map rsp_wrap (l # others))] = [concat (map rsp_wrap (l # others))] \<and>
    rsp_unwrap (concat (map rsp_wrap (l # others))) = Value (map rsp_seen l)"
proof -
  have "rsp_loop [concat (map rsp_wrap (l # others))] = [concat (map rsp_wrap (l # others))]"
    using wraps_delim [of l others] by (simp add: rsp_loop.simps rsp_gather_def)
  moreover have "rsp_unwrap (concat (map rsp_wrap (l # others))) = Value (map rsp_seen l)"
    by (simp add: unwrap_first)
  ultimately show ?thesis
    using loop_packets [of css ls] loop_bytes [of chunks] by (auto simp: unwrap_wrap)
qed

theorem rsp_packets_delivered_witness:
  "map rsp_unwrap (rsp_loop [[43, 36], [109, 125, 3], [35], [69, 68], [43, 36, 35, 48, 48]])
    = [Value [109, 3], Value []] \<and>
   map rsp_unwrap (rsp_loop [rsp_wrap [109] @ rsp_wrap [110]]) = [Value [109]]"
proof
  have "rsp_wrap [109, 35] = [43, 36, 109, 125, 3, 35, 69, 68]" "rsp_wrap [] = [43, 36, 35, 48, 48]"
    by (simp_all add: rsp_wrap_def rsp_chk_def rsp_special_def hex8_def hex_char_def Let_def)
  then have "list_all2 (\<lambda>cs l. cut_of cs (rsp_wrap l))
      [[[43, 36], [109, 125, 3], [35], [69, 68]], [[43, 36, 35, 48, 48]]] [[109, 35], []]"
    by (simp add: cut_of_def)
  from rsp_packets_delivered [THEN conjunct1, rule_format, OF this]
  show "map rsp_unwrap (rsp_loop [[43, 36], [109, 125, 3], [35], [69, 68], [43, 36, 35, 48, 48]])
      = [Value [109, 3], Value []]"
    by (simp add: rsp_seen_def rsp_special_def)
  show "map rsp_unwrap (rsp_loop [rsp_wrap [109] @ rsp_wrap [110]]) = [Value [109]]"
    using rsp_packets_delivered [of "[]" "[]" "[]" "[109]" "[[110]]"]
    by (simp add: rsp_seen_def rsp_special_def)
qed

text \<open>Without the condition on plus signs a packet may arrive as two messages.\<close>

lemma plus_ends_message: "rsp_loop [[43], [36, 35, 48, 48]] = [[43], [36, 35, 48, 48]]"
  by (simp add: rsp_loop.simps rsp_gather_def)

text \<open>A remote command with its argument in hexadecimal digits is read back.\<close>

lemma unhex_hex8:
  assumes "\<forall>b\<in>set bs. 0 \<le> b \<and> b < 256"
  shows "unhex (concat (map hex8 bs)) = Some bs"
  using assms
proof (induction bs)
  case (Cons b bs)
  then have "nat b div 16 < 16" by (simp add: less_mult_imp_div_less nat_less_iff)
  moreover have "int (nat b div 16) * 16 + int (nat b mod 16) = b"
    using Cons.prems by (simp add: zmod_int zdiv_int)
  ultimately show ?case
    using Cons hex_char_value [of "nat b div 16"] hex_char_value [of "nat b mod 16"]
    by (simp add: hex8_def Let_def hex_pair_def mult.commute)
qed simp

lemma qRcmd_read_back:
  assumes "\<forall>b\<in>set bs. 0 \<le> b \<and> b < 256"
  shows "rsp_qRcmd (rsp_wrap (bytes_of ''qRcmd,'' @ concat (map hex8 bs))) = Value (Some bs)"
proof -
  let ?l = "bytes_of ''qRcmd,'' @ concat (map hex8 bs)"
  have "map rsp_seen ?l = map id ?l"
    by (intro map_cong) (auto simp: rsp_seen_def rsp_special_def bytes_of_def dest: hex8_chars)
  moreover have "rsp_wrap ?l \<noteq> [43]" by (simp add: rsp_wrap_def Let_def)
  ultimately show ?thesis
    by (simp add: rsp_qRcmd_def unwrap_wrap unhex_hex8 [OF assms] bytes_of_def)
qed

end
