(* ===== verification/Erl_Zip.thy ===== *)
theory Erl_Zip
  imports Erl_Types "HOL-Library.AList"
begin

text \<open>
  Archives written as a stream, src/zip_stream.erl: a state machine whose commands append to an
  output, a list of bytes or a sink (src/sink.erl), and which keeps offset, size and checksum of
  each file for the directory at the end. Folds over binaries are the lists of their elements, the
  map of files is a list of pairs as in the other theories. The reader these archives are for is not
  part of the repository; \<open>unzip\<close> is what the format asks of one.
\<close>

section \<open>Fields\<close>

text \<open>\<open><<V:16/little>>\<close> and its like: integers are cut to their width.\<close>

definition le_bytes :: "nat \<Rightarrow> nat \<Rightarrow> u8 list" where
  "le_bytes n v = rev (be_bytes n v)"

definition le_fields :: "(nat \<times> nat) list \<Rightarrow> u8 list" where
  "le_fields fs = concat (map (\<lambda>(n, v). le_bytes n v) fs)"

text \<open>\<open>erlang:crc32/2\<close> goes on from a checksum: the reflected polynomial EDB88320, complemented before
  and after.\<close>

definition crc_bit :: "u32 \<Rightarrow> u32" where
  "crc_bit c = (if c AND 1 \<noteq> 0 then drop_bit 1 c XOR 0xEDB88320 else drop_bit 1 c)"

definition crc_byte :: "u32 \<Rightarrow> u8 \<Rightarrow> u32" where
  "crc_byte c b = (crc_bit ^^ 8) (c XOR ucast b)"

definition crc32 :: "u32 \<Rightarrow> u8 list \<Rightarrow> u32" where
  "crc32 c bs = NOT (foldl crc_byte (NOT c) bs)"

lemma crc32_append: "crc32 (crc32 c a) b = crc32 c (a @ b)"
  by (simp add: crc32_def)

lemma crc32_Nil [simp]: "crc32 c [] = c"
  by (simp add: crc32_def)

lemma length_le_bytes [simp]: "length (le_bytes n v) = n"
  by (simp add: le_bytes_def)

section \<open>Records\<close>

record zip_info =
  zi_crc :: u32
  zi_size :: nat
  zi_offset :: nat

definition end_of_central_directory :: "nat \<Rightarrow> nat \<Rightarrow> nat \<Rightarrow> u8 list" where
  "end_of_central_directory nb_entries offset sz = be_bytes 4 0x504b0506 @
     le_fields [(2, 0), (2, 0), (2, nb_entries), (2, nb_entries), (4, sz), (4, offset), (2, 0)]"

text \<open>The directory never gets the times of a file.\<close>

definition central_directory_record :: "u8 list \<Rightarrow> zip_info \<Rightarrow> u8 list" where
  "central_directory_record name info = be_bytes 4 0x504b0102 @
     le_fields [(2, 20), (2, 20), (2, 8), (2, 0), (2, 0), (2, 0), (4, unat (zi_crc info)),
       (4, zi_size info), (4, zi_size info), (2, length name), (2, 0), (2, 0), (2, 0), (2, 0), (4, 0),
       (4, zi_offset info)] @ name"

definition local_file_header :: "u8 list \<Rightarrow> nat \<Rightarrow> nat \<Rightarrow> u8 list" where
  "local_file_header name mod_time mod_date = be_bytes 4 0x504b0304 @
     le_fields [(2, 20), (2, 8), (2, 0), (2, mod_time), (2, mod_date), (4, 0), (4, 0), (4, 0),
       (2, length name), (2, 0)] @ name"

definition data_descriptor :: "zip_info \<Rightarrow> u8 list" where
  "data_descriptor info = be_bytes 4 0x504b0708 @
     le_fields [(4, unat (zi_crc info)), (4, zi_size info), (4, zi_size info)]"

section \<open>The state machine\<close>

text \<open>A sink's answer is asserted to be \<open>ok\<close>.\<close>

datatype 's zip_out = Zip_iolist "u8 list" | Zip_sink "u8 list sink_msg \<Rightarrow> ('s, evalue) act"

record 's zip_state =
  zs_out :: "'s zip_out"
  zs_offset :: nat
  zs_files :: "(u8 list \<times> zip_info) list"

definition ask_ok :: "('s, evalue) act \<Rightarrow> ('s, unit) act" where
  "ask_ok m = act_then m (\<lambda>r. act_of (if r = e_atom ''ok'' then Value () else badmatch))"

definition zip_put :: "'s zip_out \<Rightarrow> u8 list \<Rightarrow> ('s, 's zip_out) act" where
  "zip_put dst bs =
     (case dst of
        Zip_iolist iol \<Rightarrow> act_of (Value (Zip_iolist (iol @ bs)))
      | Zip_sink sink \<Rightarrow> act_then (ask_ok (sink (Data bs))) (\<lambda>_. act_of (Value dst)))"

definition zip_close :: "'s zip_out \<Rightarrow> ('s, unit) act" where
  "zip_close dst = (case dst of Zip_iolist iol \<Rightarrow> act_of (Value ()) | Zip_sink sink \<Rightarrow> ask_ok (sink Eof))"

definition zip_data :: "u8 list \<Rightarrow> 's zip_state \<Rightarrow> ('s, 's zip_state) act" where
  "zip_data bs z = act_then (zip_put (zs_out z) bs) (\<lambda>dst.
     act_of (Value (z\<lparr>zs_out := dst, zs_offset := zs_offset z + length bs\<rparr>)))"

definition badkey :: "u8 list \<Rightarrow> 'a erl" where
  "badkey name = Raise (E_tuple [e_atom ''badkey'', E_binary name])"

definition zip_append_data :: "u8 list \<Rightarrow> u8 list \<Rightarrow> 's zip_state \<Rightarrow> ('s, 's zip_state) act" where
  "zip_append_data name bs z =
     (case map_of (zs_files z) name of
        None \<Rightarrow> act_of (badkey name)
      | Some info \<Rightarrow>
          (let info' = info\<lparr>zi_crc := crc32 (zi_crc info) bs, zi_size := zi_size info + length bs\<rparr>
           in zip_data bs (z\<lparr>zs_files := AList.update name info' (zs_files z)\<rparr>)))"

datatype zip_content = Zip_bytes "u8 list" | Zip_fold "u8 list list" | Zip_pfold "u8 list list"

fun zip_append_all :: "u8 list \<Rightarrow> u8 list list \<Rightarrow> 's zip_state \<Rightarrow> ('s, 's zip_state) act" where
  "zip_append_all name [] z = act_of (Value z)"
| "zip_append_all name (bs # chunks) z = act_then (zip_append_data name bs z) (zip_append_all name chunks)"

definition zip_append :: "u8 list \<Rightarrow> zip_content \<Rightarrow> 's zip_state \<Rightarrow> ('s, 's zip_state) act" where
  "zip_append name content z =
     (case content of
        Zip_bytes bs \<Rightarrow> zip_append_data name bs z
      | Zip_fold chunks \<Rightarrow> zip_append_all name chunks z
      | Zip_pfold chunks \<Rightarrow> zip_append_all name chunks z)"

definition zip_header :: "u8 list \<Rightarrow> nat \<Rightarrow> nat \<Rightarrow> 's zip_state \<Rightarrow> ('s, 's zip_state) act" where
  "zip_header name mod_time mod_date z = zip_data (local_file_header name mod_time mod_date)
     (z\<lparr>zs_files := AList.update name \<lparr>zi_crc = 0, zi_size = 0, zi_offset = zs_offset z\<rparr> (zs_files z)\<rparr>)"

definition zip_descriptor :: "u8 list \<Rightarrow> 's zip_state \<Rightarrow> ('s, 's zip_state) act" where
  "zip_descriptor name z =
     (case map_of (zs_files z) name of
        None \<Rightarrow> act_of (badkey name)
      | Some info \<Rightarrow> zip_data (data_descriptor info) z)"

fun zip_records :: "(u8 list \<times> zip_info) list \<Rightarrow> 's zip_state \<Rightarrow> ('s, 's zip_state) act" where
  "zip_records [] z = act_of (Value z)"
| "zip_records ((name, info) # l) z =
     act_then (zip_data (central_directory_record name info) z) (zip_records l)"

definition zip_directory :: "'s zip_state \<Rightarrow> ('s, 's zip_state) act" where
  "zip_directory z =
     (let files = zs_files z; start = zs_offset z in
      act_then (zip_records files z) (\<lambda>z1.
      act_then (zip_data (end_of_central_directory (length files) start (zs_offset z1 - start)) z1) (\<lambda>z2.
      act_then (zip_close (zs_out z)) (\<lambda>_. act_of (Value z2)))))"

record zip_file =
  zf_name :: "u8 list"
  zf_content :: zip_content
  zf_time :: nat
  zf_date :: nat

datatype zip_command =
    Zc_data "u8 list"
  | Zc_append "u8 list" zip_content
  | Zc_header "u8 list" nat nat
  | Zc_descriptor "u8 list"
  | Zc_directory
  | Zc_file zip_file

fun zip_cmd :: "zip_command \<Rightarrow> 's zip_state \<Rightarrow> ('s, 's zip_state) act" where
  "zip_cmd (Zc_data bs) z = zip_data bs z"
| "zip_cmd (Zc_append name content) z = zip_append name content z"
| "zip_cmd (Zc_header name mod_time mod_date) z = zip_header name mod_time mod_date z"
| "zip_cmd (Zc_descriptor name) z = zip_descriptor name z"
| "zip_cmd Zc_directory z = zip_directory z"
| "zip_cmd (Zc_file f) z =
     act_then (zip_header (zf_name f) (zf_time f) (zf_date f) z) (\<lambda>z.
     act_then (zip_append (zf_name f) (zf_content f) z) (zip_descriptor (zf_name f)))"

fun zip_cmds :: "zip_command list \<Rightarrow> 's zip_state \<Rightarrow> ('s, 's zip_state) act" where
  "zip_cmds [] z = act_of (Value z)"
| "zip_cmds (c # cs) z = act_then (zip_cmd c z) (zip_cmds cs)"

definition zip_init :: "'s zip_out \<Rightarrow> 's zip_state" where
  "zip_init dst = \<lparr>zs_out = dst, zs_offset = 0, zs_files = []\<rparr>"

text \<open>\<open>sink:file\<close>, over the function that appends to the file.\<close>

definition file_sink :: "(u8 list \<Rightarrow> ('s, evalue) act) \<Rightarrow> u8 list sink_msg \<Rightarrow> ('s, evalue) act" where
  "file_sink write m = (case m of Data bs \<Rightarrow> write bs | Eof \<Rightarrow> act_of (Value (e_atom ''ok'')))"

text \<open>The sink \<open>gen_to_list\<close> gives to its generator sends to a process, here to its mailbox, and returns
  the message as \<open>!\<close> does.\<close>

definition list_sink :: "u8 list sink_msg \<Rightarrow> (u8 list sink_msg list, evalue) act" where
  "list_sink m s = Some (Value (case m of
     Data bs \<Rightarrow> E_tuple [e_atom ''data'', E_binary bs] | Eof \<Rightarrow> e_atom ''eof''), s @ [m])"

section \<open>What a reader does with an archive\<close>

text \<open>Fields of given widths, and what is left.\<close>

fun get_fields :: "nat list \<Rightarrow> u8 list \<Rightarrow> (nat list \<times> u8 list) option" where
  "get_fields [] s = Some ([], s)"
| "get_fields (n # ns) s =
     (if length s < n then None
      else map_option (\<lambda>(vs, r). (be_value (rev (take n s)) # vs, r)) (get_fields ns (drop n s)))"

definition get_record :: "nat \<Rightarrow> nat list \<Rightarrow> u8 list \<Rightarrow> (nat list \<times> u8 list) option" where
  "get_record sig ns s = (if take 4 s = be_bytes 4 sig then get_fields ns (drop 4 s) else None)"

text \<open>The file an entry of the directory leads to: its header, without compression, the data, and the
  descriptor, which agree with the entry and with each other. An empty file is refused: the module
  says that it does not support them.\<close>

definition unzip_file :: "u8 list \<Rightarrow> u8 list \<Rightarrow> nat \<Rightarrow> nat \<Rightarrow> nat \<Rightarrow> u8 list option" where
  "unzip_file z name crc sz offset =
     (case get_record 0x504b0304 [2, 2, 2, 2, 2, 4, 4, 4, 2, 2] (drop offset z) of
        Some ([_, flags, method, _, _, _, _, _, n, extra], r) \<Rightarrow>
          (let bs = take sz (drop (n + extra) r) in
           case get_record 0x504b0708 [4, 4, 4] (drop (n + extra + sz) r) of
             Some ([crc', csize, usize], _) \<Rightarrow>
               if 0 < sz \<and> flags = 8 \<and> method = 0 \<and> take n r = name \<and> length bs = sz \<and> crc' = crc \<and> csize = sz \<and>
                 usize = sz \<and> unat (crc32 0 bs) = crc then Some bs else None
           | _ \<Rightarrow> None)
      | _ \<Rightarrow> None)"

fun unzip_entries :: "u8 list \<Rightarrow> nat \<Rightarrow> u8 list \<Rightarrow> (u8 list \<times> u8 list) list option" where
  "unzip_entries z 0 s = Some []"
| "unzip_entries z (Suc k) s =
     (case get_record 0x504b0102 [2, 2, 2, 2, 2, 2, 4, 4, 4, 2, 2, 2, 2, 2, 4, 4] s of
        Some ([_, _, _, _, _, _, crc, _, sz, n, extra, comment, _, _, _, offset], r) \<Rightarrow>
          (case (unzip_file z (take n r) crc sz offset, unzip_entries z k (drop (n + extra + comment) r)) of
             (Some bs, Some es) \<Rightarrow> Some ((take n r, bs) # es)
           | _ \<Rightarrow> None)
      | _ \<Rightarrow> None)"

definition unzip :: "u8 list \<Rightarrow> (u8 list \<times> u8 list) list option" where
  "unzip z =
     (case get_record 0x504b0506 [2, 2, 2, 2, 4, 4, 2] (drop (length z - 22) z) of
        Some ([_, _, _, entries, sz, offset, 0], []) \<Rightarrow>
          if offset + sz + 22 = length z then unzip_entries z entries (drop offset z) else None
      | _ \<Rightarrow> None)"

section \<open>Reading fields back\<close>

lemma le_fields_simps [simp]:
  "le_fields [] = []" "le_fields ((n, v) # fs) = le_bytes n v @ le_fields fs"
  by (simp_all add: le_fields_def)

lemma get_le_fields:
  "get_fields (map fst fs) (le_fields fs @ r) = Some (map (\<lambda>(n, v). v mod 256 ^ n) fs, r)"
proof (induction fs)
  case (Cons f fs)
  then show ?case by (cases f) (simp add: le_bytes_def be_value_be_bytes)
qed simp

lemma get_record_fields:
  "map fst fs = ns \<Longrightarrow> get_record sig ns (be_bytes 4 sig @ le_fields fs @ r) = Some (map (\<lambda>(n, v). v mod 256 ^ n) fs, r)"
  using get_le_fields [of fs r] by (simp add: get_record_def)

lemma length_records:
  "length (local_file_header name t d) = 30 + length name"
  "length (data_descriptor info) = 16"
  "length (central_directory_record name info) = 46 + length name"
  "length (end_of_central_directory k off sz) = 22"
  by (simp_all add: local_file_header_def data_descriptor_def central_directory_record_def
      end_of_central_directory_def)

lemma get_header:
  "get_record 0x504b0304 [2, 2, 2, 2, 2, 4, 4, 4, 2, 2] (local_file_header name t d @ r) =
     Some ([20, 8, 0, t mod 65536, d mod 65536, 0, 0, 0, length name mod 65536, 0], name @ r)"
  unfolding local_file_header_def append_assoc by (subst get_record_fields) simp_all

lemma get_descriptor:
  "get_record 0x504b0708 [4, 4, 4] (data_descriptor info @ r) =
     Some ([unat (zi_crc info) mod 256 ^ 4, zi_size info mod 256 ^ 4, zi_size info mod 256 ^ 4], r)"
  unfolding data_descriptor_def append_assoc by (subst get_record_fields) simp_all

lemma get_central:
  "get_record 0x504b0102 [2, 2, 2, 2, 2, 2, 4, 4, 4, 2, 2, 2, 2, 2, 4, 4]
     (central_directory_record name info @ r) =
     Some ([20, 20, 8, 0, 0, 0, unat (zi_crc info) mod 256 ^ 4, zi_size info mod 256 ^ 4,
       zi_size info mod 256 ^ 4, length name mod 65536, 0, 0, 0, 0, 0, zi_offset info mod 256 ^ 4], name @ r)"
  unfolding central_directory_record_def append_assoc by (subst get_record_fields) simp_all

lemma get_end:
  "get_record 0x504b0506 [2, 2, 2, 2, 4, 4, 2] (end_of_central_directory k off sz) =
     Some ([0, 0, k mod 65536, k mod 65536, sz mod 256 ^ 4, off mod 256 ^ 4, 0], [])"
  using get_record_fields [of "[(2, 0), (2, 0), (2, k), (2, k), (4, sz), (4, off), (2, 0)]" _ "0x504b0506" "[]"]
  by (simp add: end_of_central_directory_def)

section \<open>Files in an archive\<close>

fun content_bytes :: "zip_content \<Rightarrow> u8 list" where
  "content_bytes (Zip_bytes bs) = bs"
| "content_bytes (Zip_fold chunks) = concat chunks"
| "content_bytes (Zip_pfold chunks) = concat chunks"

definition info_of :: "zip_file \<Rightarrow> nat \<Rightarrow> zip_info" where
  "info_of f offset = (let bs = content_bytes (zf_content f) in
     \<lparr>zi_crc = crc32 0 bs, zi_size = length bs, zi_offset = offset\<rparr>)"

definition file_bytes :: "zip_file \<Rightarrow> u8 list" where
  "file_bytes f = local_file_header (zf_name f) (zf_time f) (zf_date f) @ content_bytes (zf_content f) @
     data_descriptor (info_of f 0)"

lemma unzip_file_ok:
  assumes "drop offset z = file_bytes f @ r" and "length (zf_name f) < 65536"
    and "length (content_bytes (zf_content f)) < 256 ^ 4"
  shows "unzip_file z (zf_name f) (unat (crc32 0 (content_bytes (zf_content f))))
    (length (content_bytes (zf_content f))) offset =
      (if content_bytes (zf_content f) = [] then None else Some (content_bytes (zf_content f)))"
proof -
  define bs where "bs = content_bytes (zf_content f)"
  have "drop offset z = local_file_header (zf_name f) (zf_time f) (zf_date f) @ bs @
      data_descriptor (info_of f 0) @ r"
    using assms(1) by (simp add: file_bytes_def bs_def)
  moreover have "unat (crc32 0 bs) mod 256 ^ 4 = unat (crc32 0 bs)"
    using unat_u32_less [of "crc32 0 bs"] by simp
  moreover have "info_of f 0 = \<lparr>zi_crc = crc32 0 bs, zi_size = length bs, zi_offset = 0\<rparr>"
    by (simp add: info_of_def bs_def Let_def)
  ultimately show ?thesis
    using assms(2,3)
    by (cases bs) (simp_all add: unzip_file_def get_header get_descriptor flip: bs_def)
qed

text \<open>The entries of the directory: where each file starts.\<close>

fun infos_from :: "nat \<Rightarrow> zip_file list \<Rightarrow> (u8 list \<times> zip_info) list" where
  "infos_from offset [] = []"
| "infos_from offset (f # fs) = (zf_name f, info_of f offset) # infos_from (offset + length (file_bytes f)) fs"

definition directory_bytes :: "(u8 list \<times> zip_info) list \<Rightarrow> u8 list" where
  "directory_bytes l = concat (map (\<lambda>(name, info). central_directory_record name info) l)"

lemma infos_names: "map fst (infos_from offset fs) = map zf_name fs"
  by (induction fs arbitrary: offset) simp_all

lemma infos_append:
  "infos_from offset (fs @ [f]) = infos_from offset fs @ [(zf_name f, info_of f (offset + length (concat (map file_bytes fs))))]"
  by (induction fs arbitrary: offset) (simp_all add: add.assoc)

definition zip_fits :: "zip_file list \<Rightarrow> bool" where
  "zip_fits fs \<longleftrightarrow> distinct (map zf_name fs) \<and> length fs < 65536 \<and>
     list_all (\<lambda>f. content_bytes (zf_content f) \<noteq> [] \<and> length (zf_name f) < 65536 \<and>
       length (content_bytes (zf_content f)) < 256 ^ 4) fs \<and>
     length (concat (map file_bytes fs)) < 256 ^ 4 \<and> length (directory_bytes (infos_from 0 fs)) < 256 ^ 4"

lemma unzip_entries_ok:
  assumes "list_all (\<lambda>f. content_bytes (zf_content f) \<noteq> [] \<and> length (zf_name f) < 65536 \<and>
      length (content_bytes (zf_content f)) < 256 ^ 4) fs"
    and "drop offset z = concat (map file_bytes fs) @ r" and "offset + length (concat (map file_bytes fs)) < 256 ^ 4"
  shows "unzip_entries z (length fs) (directory_bytes (infos_from offset fs) @ s) =
    Some (map (\<lambda>f. (zf_name f, content_bytes (zf_content f))) fs)"
  using assms
proof (induction fs arbitrary: offset)
  case (Cons f fs)
  define bs where "bs = content_bytes (zf_content f)"
  have i: "info_of f offset = \<lparr>zi_crc = crc32 0 bs, zi_size = length bs, zi_offset = offset\<rparr>"
    by (simp add: info_of_def bs_def Let_def)
  have "drop (offset + length (file_bytes f)) z = concat (map file_bytes fs) @ r"
    using arg_cong [OF Cons.prems(2), of "drop (length (file_bytes f))"] by (simp add: add.commute)
  then have "unzip_entries z (length fs) (directory_bytes (infos_from (offset + length (file_bytes f)) fs) @ s) =
      Some (map (\<lambda>f. (zf_name f, content_bytes (zf_content f))) fs)"
    using Cons.prems by (intro Cons.IH) simp_all
  moreover have "unzip_file z (zf_name f) (unat (crc32 0 bs)) (length bs) offset = Some bs"
    using Cons.prems unzip_file_ok [of offset z f "concat (map file_bytes fs) @ r"] by (simp add: bs_def)
  moreover have "unat (crc32 0 bs) mod 256 ^ 4 = unat (crc32 0 bs)"
    using unat_u32_less [of "crc32 0 bs"] by simp
  moreover have "directory_bytes (infos_from offset (f # fs)) @ s = central_directory_record (zf_name f)
      (info_of f offset) @ directory_bytes (infos_from (offset + length (file_bytes f)) fs) @ s"
    by (simp add: directory_bytes_def)
  ultimately show ?case
    using Cons.prems(1,3) by (simp add: get_central i flip: bs_def)
qed (simp add: directory_bytes_def)

definition archive :: "zip_file list \<Rightarrow> u8 list" where
  "archive fs = concat (map file_bytes fs) @ directory_bytes (infos_from 0 fs) @
     end_of_central_directory (length fs) (length (concat (map file_bytes fs)))
       (length (directory_bytes (infos_from 0 fs)))"

lemma unzip_archive:
  assumes "zip_fits fs"
  shows "unzip (archive fs) = Some (map (\<lambda>f. (zf_name f, content_bytes (zf_content f))) fs)"
proof -
  let ?b = "concat (map file_bytes fs)" and ?d = "directory_bytes (infos_from 0 fs)"
  let ?e = "end_of_central_directory (length fs) (length ?b) (length ?d)"
  have z: "archive fs = ?b @ ?d @ ?e" "length (archive fs) - 22 = length (?b @ ?d)"
    by (simp_all add: archive_def length_records)
  then have "drop (length (archive fs) - 22) (archive fs) = ?e" by simp
  moreover have "unzip_entries (archive fs) (length fs) (drop (length ?b) (archive fs)) =
      Some (map (\<lambda>f. (zf_name f, content_bytes (zf_content f))) fs)"
    using assms unzip_entries_ok [of fs 0 "archive fs" "?d @ ?e" ?e] by (simp add: z(1) zip_fits_def)
  moreover have "length fs mod 65536 = length fs" "length ?b mod 256 ^ 4 = length ?b"
      "length ?d mod 256 ^ 4 = length ?d"
    using assms by (simp_all add: zip_fits_def)
  ultimately show ?thesis
    using z(1) by (simp add: unzip_def get_end length_records)
qed

section \<open>What the commands write\<close>

text \<open>A command that appends bytes to the output and leaves the files given.\<close>

definition puts ::
    "('s zip_out \<Rightarrow> bool) \<Rightarrow> ('s zip_out \<Rightarrow> 's \<Rightarrow> u8 list) \<Rightarrow> ('s, 's zip_state) act \<Rightarrow> 's zip_state \<Rightarrow> 's \<Rightarrow>
      u8 list \<Rightarrow> (u8 list \<times> zip_info) list \<Rightarrow> bool" where
  "puts good written m z s bs files \<longleftrightarrow>
     (\<exists>z' s'. m s = Some (Value z', s') \<and> good (zs_out z') \<and>
        written (zs_out z') s' = written (zs_out z) s @ bs \<and>
        zs_offset z' = zs_offset z + length bs \<and> zs_files z' = files)"

lemma puts_then:
  assumes "puts good written m z s bs files"
    and "\<And>z' s'. good (zs_out z') \<Longrightarrow> zs_offset z' = zs_offset z + length bs \<Longrightarrow> zs_files z' = files \<Longrightarrow>
      puts good written (f z') z' s' bs' files'"
  shows "puts good written (act_then m f) z s (bs @ bs') files'"
proof -
  from assms(1) obtain z1 s1 where 1: "m s = Some (Value z1, s1)" "good (zs_out z1)"
      "written (zs_out z1) s1 = written (zs_out z) s @ bs" "zs_offset z1 = zs_offset z + length bs" "zs_files z1 = files"
    unfolding puts_def by blast
  moreover from assms(2) [OF 1(2,4,5)] have "puts good written (f z1) z1 s1 bs' files'" .
  ultimately show ?thesis unfolding puts_def by fastforce
qed

lemma puts_nothing: "good (zs_out z) \<Longrightarrow> puts good written (act_of (Value z)) z s [] (zs_files z)"
  by (simp add: puts_def)

lemma update_new [simp]: "k \<notin> fst ` set l \<Longrightarrow> AList.update k v l = l @ [(k, v)]"
  by (induction l) auto

lemma update_end [simp]: "k \<notin> fst ` set l \<Longrightarrow> AList.update k v (l @ [(k, w)]) = l @ [(k, v)]"
  by (induction l) auto

lemma map_of_end [simp]: "k \<notin> fst ` set l \<Longrightarrow> ([k \<mapsto> v] ++ map_of l) k = Some v"
  by (simp add: map_add_dom_app_simps(3) dom_map_of_conv_image_fst)

text \<open>The contract of an output: what is put is appended, and the end changes nothing.\<close>

locale zip_output =
  fixes good :: "'s zip_out \<Rightarrow> bool" and written :: "'s zip_out \<Rightarrow> 's \<Rightarrow> u8 list"
  assumes put: "good dst \<Longrightarrow> \<exists>dst' s'. zip_put dst bs s = Some (Value dst', s') \<and> good dst' \<and>
      written dst' s' = written dst s @ bs"
    and close: "good dst \<Longrightarrow> good dst' \<Longrightarrow> \<exists>s'. zip_close dst s = Some (Value (), s') \<and>
      written dst' s' = written dst' s"
begin

lemma data_puts: "good (zs_out z) \<Longrightarrow> puts good written (zip_data bs z) z s bs (zs_files z)"
  using put [of "zs_out z" bs s] by (fastforce simp: zip_data_def puts_def)

lemma data_puts_files:
  "good (zs_out z) \<Longrightarrow> puts good written (zip_data bs (z\<lparr>zs_files := files\<rparr>)) z s bs files"
  using data_puts [of "z\<lparr>zs_files := files\<rparr>" bs s] by (simp add: puts_def)

lemma append_data_puts:
  assumes "good (zs_out z)" and "zs_files z = l @ [(name, info)]" and "name \<notin> fst ` set l"
  shows "puts good written (zip_append_data name bs z) z s bs
    (l @ [(name, info\<lparr>zi_crc := crc32 (zi_crc info) bs, zi_size := zi_size info + length bs\<rparr>)])"
  using assms data_puts_files by (simp add: zip_append_data_def Let_def)

lemma append_all_puts:
  assumes "good (zs_out z)" and "zs_files z = l @ [(name, info)]" and "name \<notin> fst ` set l"
  shows "puts good written (zip_append_all name chunks z) z s (concat chunks)
    (l @ [(name, info\<lparr>zi_crc := crc32 (zi_crc info) (concat chunks),
       zi_size := zi_size info + length (concat chunks)\<rparr>)])"
  using assms(1,2)
proof (induction chunks arbitrary: z s info)
  case Nil
  then show ?case by (simp add: puts_def)
next
  case (Cons bs chunks)
  have "puts good written (act_then (zip_append_data name bs z) (zip_append_all name chunks)) z s (bs @ concat chunks)
      (l @ [(name, (info\<lparr>zi_crc := crc32 (zi_crc info) bs, zi_size := zi_size info + length bs\<rparr>)
        \<lparr>zi_crc := crc32 (crc32 (zi_crc info) bs) (concat chunks),
         zi_size := zi_size info + length bs + length (concat chunks)\<rparr>)])"
    by (rule puts_then [OF append_data_puts [OF Cons.prems assms(3)]])
      (use Cons.IH [of _ "info\<lparr>zi_crc := crc32 (zi_crc info) bs, zi_size := zi_size info + length bs\<rparr>"] in simp)
  then show ?case by (simp add: crc32_append add.assoc)
qed

lemma append_puts:
  assumes "good (zs_out z)" and "zs_files z = l @ [(name, \<lparr>zi_crc = 0, zi_size = 0, zi_offset = n\<rparr>)]"
    and "name \<notin> fst ` set l"
  shows "puts good written (zip_append name content z) z s (content_bytes content)
    (l @ [(name, \<lparr>zi_crc = crc32 0 (content_bytes content), zi_size = length (content_bytes content),
       zi_offset = n\<rparr>)])"
  using append_data_puts [OF assms] append_all_puts [OF assms]
  by (cases content) (simp_all add: zip_append_def)

lemma file_puts:
  assumes "good (zs_out z)" and "zf_name f \<notin> fst ` set (zs_files z)"
  shows "puts good written (zip_cmd (Zc_file f) z) z s (file_bytes f)
    (zs_files z @ [(zf_name f, info_of f (zs_offset z))])"
proof -
  let ?n = "zf_name f" and ?bs = "content_bytes (zf_content f)"
  let ?l = "zs_files z @ [(?n, info_of f (zs_offset z))]"
  have i: "info_of f n = \<lparr>zi_crc = crc32 0 ?bs, zi_size = length ?bs, zi_offset = n\<rparr>" for n
    by (simp add: info_of_def Let_def)
  have h: "puts good written (zip_header ?n (zf_time f) (zf_date f) z) z s
      (local_file_header ?n (zf_time f) (zf_date f)) (zs_files z @ [(?n, \<lparr>zi_crc = 0, zi_size = 0, zi_offset = zs_offset z\<rparr>)])"
    using assms data_puts_files by (simp add: zip_header_def)
  have d: "puts good written (zip_descriptor ?n z') z' s' (data_descriptor (info_of f 0)) ?l"
    if "good (zs_out z')" "zs_files z' = ?l" for z' s'
    using data_puts [OF that(1), of "data_descriptor (info_of f 0)" s'] that(2) assms(2)
    by (simp add: zip_descriptor_def data_descriptor_def i)
  show ?thesis
    unfolding zip_cmd.simps file_bytes_def
    by (intro puts_then [OF h] puts_then [OF append_puts [where l = "zs_files z" and n = "zs_offset z"]])
      (use assms d in \<open>simp_all add: i\<close>)
qed

lemma files_puts:
  assumes "good (zs_out z)" and "zs_files z = infos_from 0 old"
    and "zs_offset z = length (concat (map file_bytes old))" and "distinct (map zf_name (old @ fs))"
  shows "puts good written (zip_cmds (map Zc_file fs) z) z s (concat (map file_bytes fs)) (infos_from 0 (old @ fs))"
  using assms
proof (induction fs arbitrary: z s old)
  case Nil
  then show ?case by (simp add: puts_def)
next
  case (Cons f fs)
  have "zf_name f \<notin> fst ` set (zs_files z)"
    using Cons.prems(2,4) by (metis infos_names list.set_map distinct_append disjoint_iff list.set_intros(1) map_append list.simps(9))
  then have "puts good written (zip_cmd (Zc_file f) z) z s (file_bytes f) (infos_from 0 (old @ [f]))"
    using file_puts [of z f s] Cons.prems by (simp add: infos_append)
  then have "puts good written (act_then (zip_cmd (Zc_file f) z) (zip_cmds (map Zc_file fs))) z s
      (file_bytes f @ concat (map file_bytes fs)) (infos_from 0 ((old @ [f]) @ fs))"
    by (rule puts_then) (use Cons.IH [of _ "old @ [f]"] Cons.prems in simp)
  then show ?case by simp
qed

lemma records_puts:
  "good (zs_out z) \<Longrightarrow> puts good written (zip_records l z) z s (directory_bytes l) (zs_files z)"
proof (induction l arbitrary: z s)
  case Nil
  then show ?case by (simp add: puts_def directory_bytes_def)
next
  case (Cons e l)
  obtain name info where e: "e = (name, info)" by (cases e)
  have "puts good written (act_then (zip_data (central_directory_record name info) z) (zip_records l)) z s
      (central_directory_record name info @ directory_bytes l) (zs_files z)"
    by (rule puts_then [OF data_puts [OF Cons.prems]]) (metis Cons.IH)
  then show ?case by (simp add: e directory_bytes_def)
qed

lemma directory_puts:
  assumes "good (zs_out z)"
  shows "puts good written (zip_directory z) z s (directory_bytes (zs_files z) @
    end_of_central_directory (length (zs_files z)) (zs_offset z) (length (directory_bytes (zs_files z)))) (zs_files z)"
proof -
  have c: "puts good written (act_then (zip_close (zs_out z)) (\<lambda>_. act_of (Value z'))) z' s' [] (zs_files z')"
    if "good (zs_out z')" for z' s'
    using close [OF assms that, of s'] that by (fastforce simp: puts_def)
  have "puts good written (zip_directory z) z s (directory_bytes (zs_files z) @
      (end_of_central_directory (length (zs_files z)) (zs_offset z) (length (directory_bytes (zs_files z))) @ [])) (zs_files z)"
    unfolding zip_directory_def Let_def
  proof (rule puts_then [OF records_puts [OF assms]])
    fix z1 :: "'s zip_state" and s1
    assume 1: "good (zs_out z1)" "zs_offset z1 = zs_offset z + length (directory_bytes (zs_files z))"
      "zs_files z1 = zs_files z"
    have "puts good written (act_then (zip_data bs z1) (\<lambda>z2. act_then (zip_close (zs_out z)) (\<lambda>_. act_of (Value z2)))) z1 s1
        (bs @ []) (zs_files z)" for bs
      by (rule puts_then [OF data_puts [OF 1(1)]]) (metis c 1(3))
    with 1(2) show "puts good written (act_then (zip_data (end_of_central_directory (length (zs_files z)) (zs_offset z)
          (zs_offset z1 - zs_offset z)) z1) (\<lambda>z2. act_then (zip_close (zs_out z)) (\<lambda>_. act_of (Value z2)))) z1 s1
        (end_of_central_directory (length (zs_files z)) (zs_offset z) (length (directory_bytes (zs_files z))) @ [])
        (zs_files z)"
      by simp
  qed
  then show ?thesis by simp
qed

lemma cmds_append: "zip_cmds (as @ bs) z s = act_then (zip_cmds as z) (zip_cmds bs) s"
  by (induction as arbitrary: z s) (auto simp: act_then_def split: option.splits erl.splits)

lemma archive_written:
  assumes "good dst" and "distinct (map zf_name fs)"
  shows "\<exists>z s'. zip_cmds (map Zc_file fs @ [Zc_directory]) (zip_init dst) s = Some (Value z, s') \<and>
    good (zs_out z) \<and> written (zs_out z) s' = written dst s @ archive fs"
proof -
  have "puts good written (act_then (zip_cmds (map Zc_file fs) (zip_init dst)) (zip_cmds [Zc_directory]))
      (zip_init dst) s (concat (map file_bytes fs) @ (directory_bytes (infos_from 0 fs) @
        end_of_central_directory (length fs) (length (concat (map file_bytes fs)))
          (length (directory_bytes (infos_from 0 fs))))) (infos_from 0 fs)"
  proof (rule puts_then)
    show "puts good written (zip_cmds (map Zc_file fs) (zip_init dst)) (zip_init dst) s
        (concat (map file_bytes fs)) (infos_from 0 fs)"
      using files_puts [of "zip_init dst" "[]" fs s] assms by (simp add: zip_init_def)
  next
    fix z' :: "'s zip_state" and s'
    assume z: "good (zs_out z')" "zs_offset z' = zs_offset (zip_init dst) + length (concat (map file_bytes fs))"
      "zs_files z' = infos_from 0 fs"
    have "length (infos_from 0 fs) = length fs" using infos_names [of 0 fs] by (metis length_map)
    then have "puts good written (zip_directory z') z' s' (directory_bytes (infos_from 0 fs) @
        end_of_central_directory (length fs) (length (concat (map file_bytes fs)))
          (length (directory_bytes (infos_from 0 fs)))) (infos_from 0 fs)"
      using directory_puts [OF z(1), of s'] z(2,3) by (simp add: zip_init_def)
    then show "puts good written (zip_cmds [Zc_directory] z') z' s' (directory_bytes (infos_from 0 fs) @
        end_of_central_directory (length fs) (length (concat (map file_bytes fs)))
          (length (directory_bytes (infos_from 0 fs)))) (infos_from 0 fs)"
      by (auto simp: puts_def)
  qed
  then show ?thesis by (auto simp: puts_def cmds_append archive_def zip_init_def)
qed

end

section \<open>Outputs\<close>

definition iolist_bytes :: "'s zip_out \<Rightarrow> 's \<Rightarrow> u8 list" where
  "iolist_bytes dst s = (case dst of Zip_iolist iol \<Rightarrow> iol | Zip_sink _ \<Rightarrow> [])"

interpretation zip_memory: zip_output "\<lambda>dst. \<exists>iol. dst = Zip_iolist iol" iolist_bytes
  by unfold_locales (auto simp: zip_put_def zip_close_def iolist_bytes_def)

text \<open>A file that can be appended to.\<close>

definition append_file :: "u8 list \<Rightarrow> (u8 list, evalue) act" where
  "append_file bs s = Some (Value (e_atom ''ok''), s @ bs)"

interpretation zip_on_disk: zip_output "\<lambda>dst. dst = Zip_sink (file_sink append_file)" "\<lambda>dst s. s"
  by unfold_locales (auto simp: zip_put_def zip_close_def ask_ok_def file_sink_def append_file_def)

text \<open>C25: An archive written file by file, its data given as binaries, as folds or as folds that stop,
  to memory or through the file sink, is one a reader can take the files from: it finds the directory
  at the end, in it every file once, and where the directory says the file's own header, its data whole
  and the descriptor behind it, with sizes and checksums that agree. The names are distinct, no file
  is empty (the module does not support that), and names, sizes and offsets fit the fields of the
  format. The reader is not part of the repository: \<open>unzip\<close> is written from the format, and
  reads no archive with an empty file.\<close>

theorem zip_readable:
  fixes s :: 's
  assumes "zip_fits fs"
  shows "(\<exists>z s'. zip_cmds (map Zc_file fs @ [Zc_directory]) (zip_init (Zip_iolist [])) s = Some (Value z, s') \<and>
      (\<exists>a. zs_out z = Zip_iolist a \<and> unzip a = Some (map (\<lambda>f. (zf_name f, content_bytes (zf_content f))) fs))) \<and>
    (\<exists>z a. zip_cmds (map Zc_file fs @ [Zc_directory]) (zip_init (Zip_sink (file_sink append_file))) [] =
        Some (Value z, a) \<and> unzip a = Some (map (\<lambda>f. (zf_name f, content_bytes (zf_content f))) fs))"
  using zip_memory.archive_written [of "Zip_iolist []" fs s] zip_on_disk.archive_written [of _ fs "[]"]
    assms unzip_archive [OF assms]
  by (fastforce simp: zip_fits_def iolist_bytes_def)

definition toy_files :: "zip_file list" where
  "toy_files = [\<lparr>zf_name = [97], zf_content = Zip_bytes [1, 2], zf_time = 0, zf_date = 0\<rparr>,
     \<lparr>zf_name = [98], zf_content = Zip_fold [[3], [4]], zf_time = 7, zf_date = 0\<rparr>]"

theorem zip_readable_witness:
  "\<exists>z a. zip_cmds (map Zc_file toy_files @ [Zc_directory]) (zip_init (Zip_sink (file_sink append_file))) [] =
      Some (Value z, a) \<and> unzip a = Some [([97], [1, 2]), ([98], [3, 4])]"
proof -
  have "zip_fits toy_files"
    by (simp add: zip_fits_def toy_files_def file_bytes_def directory_bytes_def length_records)
  from conjunct2 [OF zip_readable [OF this]] show ?thesis by (simp add: toy_files_def)
qed

section \<open>Limits\<close>

text \<open>The sink that \<open>gen_to_list\<close> makes does not answer \<open>ok\<close>: an archive cannot be written to it.\<close>

lemma list_sink_refused:
  "zs_out z = Zip_sink list_sink \<Longrightarrow> zip_data bs z s = Some (badmatch, s @ [Data bs])"
  by (simp add: zip_data_def zip_put_def ask_ok_def list_sink_def act_then_def bytes_of_def badmatch_def)

text \<open>The commands take an empty file like any other, and a reader that does not take empty files
  fails on the whole archive.\<close>

lemma empty_file_written:
  assumes "zf_content f = Zip_bytes []" and "length (zf_name f) < 65000"
  shows "\<exists>z a. zip_cmds [Zc_file f, Zc_directory] (zip_init (Zip_sink (file_sink append_file))) [] =
      Some (Value z, a) \<and> a = archive [f] \<and> unzip a = None"
proof -
  let ?e = "end_of_central_directory 1 (length (file_bytes f)) (length (directory_bytes (infos_from 0 [f])))"
  have a: "archive [f] = file_bytes f @ directory_bytes (infos_from 0 [f]) @ ?e"
    "drop (length (archive [f]) - 22) (archive [f]) = ?e"
    by (simp_all add: archive_def length_records)
  have i: "info_of f 0 = \<lparr>zi_crc = 0, zi_size = 0, zi_offset = 0\<rparr>"
    using assms(1) by (simp add: info_of_def)
  have "unzip_file (archive [f]) (zf_name f) 0 0 0 = None"
    using unzip_file_ok [of 0 "archive [f]" f "directory_bytes (infos_from 0 [f]) @ ?e"] a(1) assms by simp
  then have "unzip (archive [f]) = None"
    using assms(2) i by (simp add: unzip_def a get_end get_central directory_bytes_def length_records
        file_bytes_def assms(1))
  then show ?thesis
    using zip_on_disk.archive_written [of "Zip_sink (file_sink append_file)" "[f]" "[]"] by auto
qed

end
