(* ===== verification/Erl_Diff.thy ===== *)
theory Erl_Diff
  imports Erl_Types "HOL-Library.AList" "HOL-Library.List_Lexorder"
begin

text \<open>
  Differences of nested maps as edit commands, src/diff.erl. A tree is a leaf or a map from atoms to
  trees; a map is the list of its pairs in the order of its keys, so that equal maps are equal lists.
  Applying edits is not part of the source, \<open>apply_edit\<close> is what the commands mean.
\<close>

section \<open>Trees and edits\<close>

type_synonym key = "u8 list"

datatype tree = Leaf evalue | Node "(key \<times> tree) list"

datatype edit = Insert "key list" tree | Delete "key list" | Update "key list" tree tree

text \<open>\<open>lists:subtract\<close>: for each element of the second list, its first occurrence in the first is
  removed.\<close>

definition lists_subtract :: "'a list \<Rightarrow> 'a list \<Rightarrow> 'a list" where
  "lists_subtract xs ys = foldl (\<lambda>l y. remove1 y l) xs ys"

definition badmap :: "'a erl" where "badmap = Raise (e_atom ''badmap'')"

definition no_key :: "'a erl" where "no_key = Raise (e_atom ''badkey'')"

definition maps_get :: "key \<Rightarrow> (key \<times> 'v) list \<Rightarrow> 'v erl" where
  "maps_get k m = (case map_of m k of Some v \<Rightarrow> Value v | None \<Rightarrow> no_key)"

lemma erl_then_cong [fundef_cong]:
  "r = r' \<Longrightarrow> (\<And>a. r' = Value a \<Longrightarrow> f a = g a) \<Longrightarrow> erl_then r f = erl_then r' g"
  by (cases r') simp_all

lemma erl_map_cong [fundef_cong]:
  "xs = ys \<Longrightarrow> (\<And>x. x \<in> set ys \<Longrightarrow> f x = g x) \<Longrightarrow> erl_map f xs = erl_map g ys"
  by (induction xs arbitrary: ys) auto

lemma node_smaller [termination_simp]: "map_of m k = Some t \<Longrightarrow> size t < size (Node m)"
  by (drule map_of_SomeD, drule size_list_estimation [where f = "size_prod (\<lambda>_. 0) size" and y = "size t"]) auto

text \<open>\<open>diff/4\<close>, with the edits it hands to \<open>SaveEdit\<close> in order. A common key whose new value is a map
  is followed whatever the old value is.\<close>

function diff_maps :: "key list \<Rightarrow> (key \<times> tree) list \<Rightarrow> (key \<times> tree) list \<Rightarrow> edit list erl" where
  "diff_maps parent old new =
     (let del = lists_subtract (map fst old) (map fst new);
          ins = lists_subtract (map fst new) (map fst old);
          common = lists_subtract (map fst new) ins in
      erl_then (erl_map (\<lambda>k. Value (Delete (parent @ [k]))) del) (\<lambda>a.
      erl_then (erl_map (\<lambda>k. erl_then (maps_get k new) (\<lambda>v. Value (Insert (parent @ [k]) v))) ins) (\<lambda>b.
      erl_then (erl_map (\<lambda>k.
        erl_then (maps_get k old) (\<lambda>old_val.
        erl_then (maps_get k new) (\<lambda>new_val.
          if new_val = old_val then Value []
          else case new_val of
            Leaf _ \<Rightarrow> Value [Update (parent @ [k]) old_val new_val]
          | Node n \<Rightarrow>
              (case old_val of
                 Node m \<Rightarrow> diff_maps (parent @ [k]) m n
               | Leaf _ \<Rightarrow> badmap)))) common) (\<lambda>c.
      Value (a @ b @ concat c)))))"
  by pat_completeness auto
termination
proof (relation "measure (\<lambda>(_, _, new). size (Node new))", goal_cases)
  case (2 parent old new del ins common a b k old_val new_val m)
  then show ?case using node_smaller [of new k new_val]
    by (simp add: maps_get_def no_key_def split: option.splits)
qed simp

declare diff_maps.simps [simp del]

definition diff :: "tree \<Rightarrow> tree \<Rightarrow> edit list erl" where
  "diff a b = (case (a, b) of (Node old, Node new) \<Rightarrow> diff_maps [] old new | _ \<Rightarrow> badmap)"

text \<open>\<open>split\<close>: containers, holes, and what fills them.\<close>

datatype split_op = Env "key list" | Var "key list" | Bind tree "key list" | Other edit

fun split_insert :: "key list \<Rightarrow> tree \<Rightarrow> split_op list" where
  "split_insert path (Node m) = Env path # concat (map (\<lambda>(k, v). split_insert (path @ [k]) v) m)"
| "split_insert path (Leaf v) = [Var path, Bind (Leaf v) path]"

fun split :: "edit \<Rightarrow> split_op list" where
  "split (Insert path t) = split_insert path t"
| "split (Update path old new) = [Bind new path]"
| "split (Delete path) = [Other (Delete path)]"

definition diff_split :: "tree \<Rightarrow> tree \<Rightarrow> split_op list erl" where
  "diff_split a b = erl_then (diff a b) (\<lambda>es. Value (concat (map split es)))"

text \<open>\<open>diffi\<close>: maps whose values are not looked into.\<close>

datatype 'v flat_edit = Flat_delete key | Flat_insert key 'v | Flat_update key 'v 'v

definition diffi :: "(key \<times> 'v) list \<Rightarrow> (key \<times> 'v) list \<Rightarrow> 'v flat_edit list erl" where
  "diffi old new =
     (let del = lists_subtract (map fst old) (map fst new);
          ins = lists_subtract (map fst new) (map fst old);
          common = lists_subtract (map fst new) ins in
      erl_then (erl_map (\<lambda>k. erl_then (maps_get k new) (\<lambda>v. Value (Flat_insert k v))) ins) (\<lambda>b.
      erl_then (erl_map (\<lambda>k.
        erl_then (maps_get k old) (\<lambda>old_val.
        erl_then (maps_get k new) (\<lambda>new_val.
          Value (if old_val = new_val then [] else [Flat_update k old_val new_val])))) common) (\<lambda>c.
      Value (map Flat_delete del @ b @ concat c))))"

text \<open>\<open>as_map\<close> has a clause for updates without the old value, which \<open>diff\<close> does not make.\<close>

datatype map_val = Op string | Path "key list" | Val tree

fun as_map :: "edit \<Rightarrow> (string \<times> map_val) list erl" where
  "as_map (Delete p) = Value [(''op'', Op ''delete''), (''path'', Path p)]"
| "as_map (Insert p v) = Value [(''op'', Op ''insert''), (''path'', Path p), (''val'', Val v)]"
| "as_map (Update p old new) = no_clause"

section \<open>What edits mean\<close>

text \<open>A key put into a map, in its place.\<close>

fun kput :: "key \<Rightarrow> 'v \<Rightarrow> (key \<times> 'v) list \<Rightarrow> (key \<times> 'v) list" where
  "kput k v [] = [(k, v)]"
| "kput k v ((j, w) # m) =
     (if k < j then (k, v) # (j, w) # m else if k = j then (k, v) # m else (j, w) # kput k v m)"

text \<open>An edit applies where it says what is there: a deleted key is there, an inserted one is not, an
  updated one has the old value.\<close>

fun at_path :: "(key \<Rightarrow> (key \<times> tree) list \<Rightarrow> (key \<times> tree) list option) \<Rightarrow> key list \<Rightarrow> tree \<Rightarrow> tree option" where
  "at_path f [k] (Node m) = map_option Node (f k m)"
| "at_path f (k # j # ks) (Node m) =
     (case map_of m k of
        None \<Rightarrow> None
      | Some t \<Rightarrow> map_option (\<lambda>t. Node (kput k t m)) (at_path f (j # ks) t))"
| "at_path f _ _ = None"

fun apply_edit :: "edit \<Rightarrow> tree \<Rightarrow> tree option" where
  "apply_edit (Delete p) =
     at_path (\<lambda>k m. if map_of m k = None then None else Some (AList.delete k m)) p"
| "apply_edit (Insert p v) =
     at_path (\<lambda>k m. if map_of m k = None then Some (kput k v m) else None) p"
| "apply_edit (Update p old new) =
     at_path (\<lambda>k m. if map_of m k = Some old then Some (kput k new m) else None) p"

fun apply_edits :: "edit list \<Rightarrow> tree \<Rightarrow> tree option" where
  "apply_edits [] t = Some t"
| "apply_edits (e # es) t = (case apply_edit e t of None \<Rightarrow> None | Some u \<Rightarrow> apply_edits es u)"

fun under :: "key list \<Rightarrow> edit \<Rightarrow> edit" where
  "under p (Delete q) = Delete (p @ q)"
| "under p (Insert q v) = Insert (p @ q) v"
| "under p (Update q old new) = Update (p @ q) old new"

section \<open>Maps in the order of their keys\<close>

definition in_order :: "(key \<times> 'v) list \<Rightarrow> bool" where
  "in_order m \<longleftrightarrow> sorted_wrt (<) (map fst m)"

lemma in_order_simps [simp]:
  "in_order []" "in_order ((k, v) # m) \<longleftrightarrow> (\<forall>j \<in> fst ` set m. k < j) \<and> in_order m"
  by (auto simp: in_order_def)

lemma in_order_distinct: "in_order m \<Longrightarrow> distinct (map fst m)"
  by (simp add: in_order_def strict_sorted_iff)

lemma in_order_unique:
  assumes "in_order m" and "in_order m'" and "map_of m = map_of m'"
  shows "m = m'"
proof -
  have "set m = set m'"
    using assms in_order_distinct by (metis map_of_inject_set)
  moreover have "sorted (map fst m)" "sorted (map fst m')"
    using assms(1,2) by (simp_all add: in_order_def strict_sorted_imp_sorted)
  ultimately show ?thesis
    using assms(1,2) in_order_distinct map_sorted_distinct_set_unique [of fst m m']
    by (metis distinct_map inj_on_Un sup.idem)
qed

lemma map_of_kput [simp]: "map_of (kput k v m) = (map_of m)(k \<mapsto> v)"
  by (induction k v m rule: kput.induct) auto

lemma set_kput: "fst ` set (kput k v m) = insert k (fst ` set m)"
  by (induction k v m rule: kput.induct) auto

lemma in_order_kput [simp]: "in_order m \<Longrightarrow> in_order (kput k v m)"
  by (induction k v m rule: kput.induct) (auto simp: set_kput)

lemma in_order_delete [simp]: "in_order m \<Longrightarrow> in_order (AList.delete k m)"
  unfolding in_order_def AList.delete_eq by (induction m) auto

lemma subtract_filter: "distinct xs \<Longrightarrow> lists_subtract xs ys = filter (\<lambda>x. x \<notin> set ys) xs"
proof (induction ys arbitrary: xs)
  case (Cons y ys)
  have "lists_subtract xs (y # ys) = lists_subtract (remove1 y xs) ys" by (simp add: lists_subtract_def)
  also have "\<dots> = filter (\<lambda>x. x \<notin> set ys) (filter ((\<noteq>) y) xs)"
    using Cons by (simp add: distinct_remove1_removeAll removeAll_filter_not_eq)
  finally show ?case by (auto intro: filter_cong)
qed (simp add: lists_subtract_def)

lemma map_of_keys: "map_of m k = None \<longleftrightarrow> k \<notin> set (map fst m)"
  by (simp add: map_of_eq_None_iff)

lemma subtracted:
  assumes "in_order old" and "in_order new"
  shows "lists_subtract (map fst old) (map fst new) = filter (\<lambda>k. map_of new k = None) (map fst old)"
    and "lists_subtract (map fst new) (lists_subtract (map fst new) (map fst old)) =
      filter (\<lambda>k. map_of old k \<noteq> None) (map fst new)"
proof -
  show del: "lists_subtract (map fst old) (map fst new) = filter (\<lambda>k. map_of new k = None) (map fst old)"
    using in_order_distinct [OF assms(1)] by (simp add: subtract_filter map_of_keys del: set_map)
  have "lists_subtract (map fst new) (map fst old) = filter (\<lambda>k. map_of old k = None) (map fst new)"
    using in_order_distinct [OF assms(2)] by (simp add: subtract_filter map_of_keys del: set_map)
  then show "lists_subtract (map fst new) (lists_subtract (map fst new) (map fst old)) =
      filter (\<lambda>k. map_of old k \<noteq> None) (map fst new)"
    using in_order_distinct [OF assms(2)] by (auto simp: subtract_filter intro!: filter_cong)
qed

section \<open>Edits for one key after the other\<close>

lemma apply_edits_append:
  "apply_edits (as @ bs) t = (case apply_edits as t of None \<Rightarrow> None | Some u \<Rightarrow> apply_edits bs u)"
  by (induction as arbitrary: t) (auto split: option.splits)

text \<open>Edits that turn the entry of one key from what it is before to what it is after.\<close>

definition turns :: "key \<Rightarrow> edit list \<Rightarrow> tree option \<Rightarrow> tree option \<Rightarrow> bool" where
  "turns k es before after \<longleftrightarrow> (\<forall>m. in_order m \<longrightarrow> map_of m k = before \<longrightarrow>
     (\<exists>m'. apply_edits es (Node m) = Some (Node m') \<and> in_order m' \<and> map_of m' = (map_of m)(k := after)))"

lemma turns_each:
  assumes "\<And>k. k \<in> set ks \<Longrightarrow> turns k (f k) (before k) (after k)"
    and "distinct ks" and "in_order m" and "\<forall>k\<in>set ks. map_of m k = before k"
  shows "\<exists>m'. apply_edits (concat (map f ks)) (Node m) = Some (Node m') \<and> in_order m' \<and>
    map_of m' = (\<lambda>j. if j \<in> set ks then after j else map_of m j)"
  using assms
proof (induction ks arbitrary: m)
  case (Cons k ks)
  obtain m1 where 1: "apply_edits (f k) (Node m) = Some (Node m1)" "in_order m1"
      "map_of m1 = (map_of m)(k := after k)"
    using Cons.prems(1) [of k] Cons.prems(3,4) by (auto simp: turns_def)
  have "\<forall>j\<in>set ks. map_of m1 j = before j" using Cons.prems(2,4) 1(3) by auto
  then obtain m2 where "apply_edits (concat (map f ks)) (Node m1) = Some (Node m2)" "in_order m2"
      "map_of m2 = (\<lambda>j. if j \<in> set ks then after j else map_of m1 j)"
    using Cons.IH [of m1] Cons.prems(1,2) 1(2) by auto
  with 1 Cons.prems(2) show ?case by (auto simp: apply_edits_append fun_eq_iff)
qed auto

lemma turns_delete: "v \<noteq> None \<Longrightarrow> turns k [Delete [k]] v None"
  by (auto simp: turns_def delete_conv')

lemma turns_insert: "turns k [Insert [k] v] None (Some v)"
  by (auto simp: turns_def)

lemma turns_update: "turns k [Update [k] v w] (Some v) (Some w)"
  by (auto simp: turns_def)

lemma turns_nothing: "turns k [] v v"
  by (auto simp: turns_def)

text \<open>Edits inside a tree are edits of the entry it is at.\<close>

lemma at_path_under:
  "at_path f p t = Some u \<Longrightarrow> map_of m k = Some t \<Longrightarrow> at_path f (k # p) (Node m) = Some (Node (kput k u m))"
  by (cases p) simp_all

lemma apply_under:
  "apply_edit e t = Some u \<Longrightarrow> map_of m k = Some t \<Longrightarrow>
    apply_edit (under [k] e) (Node m) = Some (Node (kput k u m))"
  by (cases e) (simp_all add: at_path_under)

lemma turns_under:
  "apply_edits es t = Some u \<Longrightarrow> turns k (map (under [k]) es) (Some t) (Some u)"
proof (induction es arbitrary: t)
  case (Cons e es)
  then obtain t1 where 1: "apply_edit e t = Some t1" "apply_edits es t1 = Some u" by (auto split: option.splits)
  show ?case
    unfolding turns_def
  proof (intro allI impI)
    fix m :: "(key \<times> tree) list"
    assume m: "in_order m" "map_of m k = Some t"
    have "apply_edit (under [k] e) (Node m) = Some (Node (kput k t1 m))"
      by (rule apply_under) fact+
    with m Cons.IH [OF 1(2)] show "\<exists>m'. apply_edits (map (under [k]) (e # es)) (Node m) = Some (Node m') \<and>
        in_order m' \<and> map_of m' = (map_of m)(k := Some u)"
      unfolding turns_def by (fastforce dest: spec [of _ "kput k t1 m"])
  qed
qed (simp add: turns_nothing)

section \<open>Differences\<close>

fun wf_tree :: "tree \<Rightarrow> bool" where
  "wf_tree (Leaf v) = True"
| "wf_tree (Node m) = (in_order m \<and> list_all (\<lambda>(k, t). wf_tree t) m)"

text \<open>No leaf has become a map on the way: \<open>diff\<close> follows a new map into the old value.\<close>

function can_follow :: "tree \<Rightarrow> tree \<Rightarrow> bool" where
  "can_follow (Node old) (Node new) \<longleftrightarrow> (\<forall>k\<in>set (map fst new).
     case (map_of old k, map_of new k) of
       (Some v, Some (Node n)) \<Rightarrow> Node n = v \<or> can_follow v (Node n)
     | _ \<Rightarrow> True)"
| "can_follow (Leaf v) t = False"
| "can_follow (Node m) (Leaf v) = False"
  by pat_completeness auto
termination
  by (relation "measure (\<lambda>(_, new). size new)") (auto dest!: sym [of "Some _"] node_smaller)

declare can_follow.simps [simp del]

text \<open>The edits of a common key, or the error.\<close>

definition key_edits :: "key list \<Rightarrow> (key \<times> tree) list \<Rightarrow> (key \<times> tree) list \<Rightarrow> key \<Rightarrow> edit list erl" where
  "key_edits parent old new k =
     erl_then (maps_get k old) (\<lambda>old_val.
     erl_then (maps_get k new) (\<lambda>new_val.
       if new_val = old_val then Value []
       else case new_val of
         Leaf _ \<Rightarrow> Value [Update (parent @ [k]) old_val new_val]
       | Node n \<Rightarrow>
           (case old_val of
              Node m \<Rightarrow> diff_maps (parent @ [k]) m n
            | Leaf _ \<Rightarrow> badmap)))"

lemma erl_map_total: "(\<And>x. x \<in> set xs \<Longrightarrow> f x = Value (g x)) \<Longrightarrow> erl_map f xs = Value (map g xs)"
  by (induction xs) auto

lemma erl_map_badmap:
  "(\<And>x. x \<in> set xs \<Longrightarrow> f x = badmap \<or> (\<exists>y. f x = Value y)) \<Longrightarrow> x \<in> set xs \<Longrightarrow> f x = badmap \<Longrightarrow> erl_map f xs = badmap"
proof (induction xs)
  case (Cons a xs)
  show ?case
  proof (cases "f a = badmap")
    case False
    then have "x \<in> set xs" "\<exists>y. f a = Value y" using Cons.prems by auto
    with Cons show ?thesis by (auto simp: badmap_def)
  qed (simp add: badmap_def)
qed simp

text \<open>The three groups of edits, with the keys as maps see them.\<close>

lemma diff_maps_keys:
  assumes "in_order old" and "in_order new"
  shows "diff_maps parent old new =
    erl_then (erl_map (key_edits parent old new) (filter (\<lambda>k. map_of old k \<noteq> None) (map fst new))) (\<lambda>c.
    Value (map (under parent)
      (concat (map (\<lambda>k. [Delete [k]]) (filter (\<lambda>k. map_of new k = None) (map fst old))) @
       concat (map (\<lambda>k. [Insert [k] (the (map_of new k))]) (filter (\<lambda>k. map_of old k = None) (map fst new)))) @
      concat c))"
proof -
  let ?del = "filter (\<lambda>k. map_of new k = None) (map fst old)"
  let ?ins = "filter (\<lambda>k. map_of old k = None) (map fst new)"
  have d: "erl_map (\<lambda>k. Value (Delete (parent @ [k]))) ks = Value (map (\<lambda>k. Delete (parent @ [k])) ks)" for ks
    by (rule erl_map_total) simp
  have i: "erl_map (\<lambda>k. erl_then (maps_get k new) (\<lambda>v. Value (Insert (parent @ [k]) v))) ?ins =
      Value (map (\<lambda>k. Insert (parent @ [k]) (the (map_of new k))) ?ins)"
  proof (rule erl_map_total)
    fix k assume "k \<in> set ?ins"
    then have "map_of new k \<noteq> None" by (simp add: map_of_eq_None_iff)
    then show "erl_then (maps_get k new) (\<lambda>v. Value (Insert (parent @ [k]) v)) =
        Value (Insert (parent @ [k]) (the (map_of new k)))"
      by (auto simp: maps_get_def)
  qed
  have u: "map (\<lambda>k. Delete (parent @ [k])) ks = map (under parent) (concat (map (\<lambda>k. [Delete [k]]) ks))"
    "map (\<lambda>k. Insert (parent @ [k]) (the (map_of new k))) ks =
       map (under parent) (concat (map (\<lambda>k. [Insert [k] (the (map_of new k))]) ks))" for ks
    by (induction ks) simp_all
  show ?thesis
    unfolding diff_maps.simps [of parent old new] Let_def subtracted(2) [OF assms]
    unfolding subtracted(1) [OF assms] subtracted(1) [OF assms(2,1)] d i erl_then_simps key_edits_def [symmetric] u map_append append_assoc ..
qed

lemma under_under: "map (under p) (map (under q) es) = map (under (p @ q)) es"
proof -
  have "under p (under q e) = under (p @ q) e" for e by (cases e) simp_all
  then show ?thesis by simp
qed

lemma filter_keys: "k \<in> set (filter P (map fst m)) \<longleftrightarrow> P k \<and> (\<exists>v. map_of m k = Some v)"
proof -
  have "k \<in> fst ` set m \<longleftrightarrow> map_of m k \<noteq> None" by (simp add: map_of_eq_None_iff)
  then show ?thesis by auto
qed

text \<open>What the edits of one level come to.\<close>

lemma edits_applied:
  assumes "in_order old" and "in_order new"
    and "\<And>k. map_of old k \<noteq> None \<Longrightarrow> map_of new k \<noteq> None \<Longrightarrow> turns k (f k) (map_of old k) (map_of new k)"
  shows "apply_edits (concat (map (\<lambda>k. [Delete [k]]) (filter (\<lambda>k. map_of new k = None) (map fst old))) @
      concat (map (\<lambda>k. [Insert [k] (the (map_of new k))]) (filter (\<lambda>k. map_of old k = None) (map fst new))) @
      concat (map f (filter (\<lambda>k. map_of old k \<noteq> None) (map fst new)))) (Node old) = Some (Node new)"
proof -
  let ?del = "filter (\<lambda>k. map_of new k = None) (map fst old)"
  let ?ins = "filter (\<lambda>k. map_of old k = None) (map fst new)"
  let ?com = "filter (\<lambda>k. map_of old k \<noteq> None) (map fst new)"
  have dist: "distinct ?del" "distinct ?ins" "distinct ?com"
    using assms(1,2) by (simp_all add: in_order_distinct)
  have mem: "k \<in> set (map fst m) \<longleftrightarrow> map_of m k \<noteq> None" for k and m :: "(key \<times> tree) list"
    by (simp add: map_of_eq_None_iff)
  have sets: "j \<in> set ?del \<longleftrightarrow> map_of old j \<noteq> None \<and> map_of new j = None"
    "j \<in> set ?ins \<longleftrightarrow> map_of new j \<noteq> None \<and> map_of old j = None"
    "j \<in> set ?com \<longleftrightarrow> map_of new j \<noteq> None \<and> map_of old j \<noteq> None" for j
    unfolding set_filter mem_Collect_eq mem by auto
  obtain m1 where 1: "apply_edits (concat (map (\<lambda>k. [Delete [k]]) ?del)) (Node old) = Some (Node m1)" "in_order m1"
      "map_of m1 = (\<lambda>j. if j \<in> set ?del then None else map_of old j)"
    using turns_each [of ?del "\<lambda>k. [Delete [k]]" "map_of old" "\<lambda>_. None" old] turns_delete dist(1) assms(1)
    by (auto simp: mem simp del: set_map)
  have "\<forall>k\<in>set ?ins. map_of m1 k = None" by (auto simp: 1(3) sets simp del: set_filter not_None_eq)
  then obtain m2 where 2: "apply_edits (concat (map (\<lambda>k. [Insert [k] (the (map_of new k))]) ?ins)) (Node m1) = Some (Node m2)"
      "in_order m2" "map_of m2 = (\<lambda>j. if j \<in> set ?ins then Some (the (map_of new j)) else map_of m1 j)"
    using turns_each [of ?ins "\<lambda>k. [Insert [k] (the (map_of new k))]" "\<lambda>_. None" "\<lambda>k. Some (the (map_of new k))" m1]
      turns_insert dist(2) 1(2) by blast
  have "\<forall>k\<in>set ?com. map_of m2 k = map_of old k"
    by (auto simp: 1(3) 2(3) sets simp del: set_filter not_None_eq)
  moreover have "turns k (f k) (map_of old k) (map_of new k)" if "k \<in> set ?com" for k
    using that assms(3) [of k] by (simp add: sets del: set_filter not_None_eq)
  ultimately obtain m3 where 3: "apply_edits (concat (map f ?com)) (Node m2) = Some (Node m3)" "in_order m3"
      "map_of m3 = (\<lambda>j. if j \<in> set ?com then map_of new j else map_of m2 j)"
    using turns_each [of ?com f "map_of old" "map_of new" m2] dist(3) 2(2) by blast
  have "map_of m3 = map_of new"
    by (intro ext) (auto simp: 3(3) 2(3) 1(3) sets simp del: set_filter not_None_eq)
  then have "m3 = new" using in_order_unique [OF 3(2) assms(2)] by simp
  with 1 2 3 show ?thesis by (simp add: apply_edits_append)
qed

lemma wf_entry: "wf_tree (Node m) \<Longrightarrow> map_of m k = Some t \<Longrightarrow> wf_tree t"
  by (auto simp: list_all_iff dest!: map_of_SomeD)

text \<open>What \<open>diff_maps\<close> gives for one common key, and what becomes of one level: when every common key
  can be followed the edits lead from the old map to the new one, otherwise the comparison fails.\<close>

definition key_followed :: "(key \<times> tree) list \<Rightarrow> (key \<times> tree) list \<Rightarrow> key \<Rightarrow> bool" where
  "key_followed old new k = (case (map_of old k, map_of new k) of
      (Some v, Some (Node n)) \<Rightarrow> Node n = v \<or> can_follow v (Node n) | _ \<Rightarrow> True)"

definition key_served :: "key list \<Rightarrow> (key \<times> tree) list \<Rightarrow> (key \<times> tree) list \<Rightarrow> key \<Rightarrow> edit list \<Rightarrow> bool" where
  "key_served parent old new k es \<longleftrightarrow> key_edits parent old new k = Value (map (under parent) es) \<and>
     turns k es (map_of old k) (map_of new k)"

definition level_served :: "key list \<Rightarrow> (key \<times> tree) list \<Rightarrow> (key \<times> tree) list \<Rightarrow> bool" where
  "level_served parent old new \<longleftrightarrow> (if can_follow (Node old) (Node new)
     then \<exists>es. diff_maps parent old new = Value (map (under parent) es) \<and>
       apply_edits es (Node old) = Some (Node new)
     else diff_maps parent old new = badmap)"

lemma follow_keys: "can_follow (Node old) (Node new) \<longleftrightarrow> (\<forall>k\<in>set (map fst new). key_followed old new k)"
  unfolding can_follow.simps key_followed_def ..

lemma leaf_key_served:
  assumes "map_of old k = Some v" and "map_of new k = Some w" and "w = v \<or> (\<exists>l. w = Leaf l) \<or> (\<exists>l. v = Leaf l)"
  shows "if key_followed old new k then \<exists>es. key_served parent old new k es else key_edits parent old new k = badmap"
proof -
  have same: "key_served parent old new k []" if "w = v"
    using assms(1,2) that turns_nothing by (cases v) (simp_all add: key_served_def key_edits_def maps_get_def)
  have change: "key_served parent old new k [Update [k] v w]" if "w \<noteq> v" "key_followed old new k"
    using assms that turns_update [of k v w]
    by (cases w; cases v) (auto simp: key_served_def key_edits_def maps_get_def key_followed_def can_follow.simps)
  have fails: "key_edits parent old new k = badmap" if "\<not> key_followed old new k"
    using assms that by (cases w; cases v) (auto simp: key_edits_def maps_get_def key_followed_def can_follow.simps)
  show ?thesis using same change fails by (cases "w = v") auto
qed

lemma node_key_served:
  assumes "map_of old k = Some (Node m)" and "map_of new k = Some (Node n)" and "m \<noteq> n"
    and "level_served (parent @ [k]) m n"
  shows "if key_followed old new k then \<exists>es. key_served parent old new k es else key_edits parent old new k = badmap"
proof -
  have "key_edits parent old new k = diff_maps (parent @ [k]) m n"
    "key_followed old new k \<longleftrightarrow> can_follow (Node m) (Node n)"
    using assms(1,2,3) by (auto simp: key_edits_def maps_get_def key_followed_def)
  moreover have "turns k (map (under [k]) es) (Some (Node m)) (Some (Node n))"
    if "apply_edits es (Node m) = Some (Node n)" for es
    using that by (rule turns_under)
  ultimately show ?thesis
    using assms unfolding level_served_def key_served_def under_under [symmetric]
    by (cases "can_follow (Node m) (Node n)") (auto simp del: map_map)
qed

lemma level_applied:
  assumes "in_order old" and "in_order new"
    and "\<And>k v w. map_of old k = Some v \<Longrightarrow> map_of new k = Some w \<Longrightarrow> \<exists>es. key_served parent old new k es"
  shows "\<exists>es. diff_maps parent old new = Value (map (under parent) es) \<and> apply_edits es (Node old) = Some (Node new)"
proof -
  let ?com = "filter (\<lambda>k. map_of old k \<noteq> None) (map fst new)"
  have "\<exists>es. key_served parent old new k es" if "k \<in> set ?com" for k
    using that assms(3) unfolding filter_keys by blast
  then obtain f where f: "\<forall>k\<in>set ?com. key_served parent old new k (f k)" by (metis bchoice)
  have t: "turns k (f k) (map_of old k) (map_of new k)" if "map_of old k \<noteq> None" "map_of new k \<noteq> None" for k
    using bspec [OF f, of k] that unfolding filter_keys key_served_def by auto
  from f have "erl_map (key_edits parent old new) ?com = Value (map (\<lambda>k. map (under parent) (f k)) ?com)"
    by (intro erl_map_total) (simp add: key_served_def)
  moreover have "concat (map (\<lambda>k. map (under parent) (f k)) ks) = map (under parent) (concat (map f ks))" for ks
    by (induction ks) simp_all
  ultimately have d: "diff_maps parent old new = Value (map (under parent)
      (concat (map (\<lambda>k. [Delete [k]]) (filter (\<lambda>k. map_of new k = None) (map fst old))) @
       concat (map (\<lambda>k. [Insert [k] (the (map_of new k))]) (filter (\<lambda>k. map_of old k = None) (map fst new))) @
       concat (map f ?com)))"
    by (simp only: diff_maps_keys [OF assms(1,2)] erl_then_simps map_append append_assoc)
  show ?thesis by (rule exI, rule conjI, rule d, rule edits_applied [OF assms(1,2) t])
qed

lemma level_refused:
  assumes "in_order old" and "in_order new" and "map_of old k = Some v" and "map_of new k = Some w"
    and "key_edits parent old new k = badmap"
    and "\<And>j v w. map_of old j = Some v \<Longrightarrow> map_of new j = Some w \<Longrightarrow>
      key_edits parent old new j = badmap \<or> (\<exists>y. key_edits parent old new j = Value y)"
  shows "diff_maps parent old new = badmap"
proof -
  have "k \<in> set (filter (\<lambda>k. map_of old k \<noteq> None) (map fst new))" using assms(3,4) unfolding filter_keys by simp
  moreover have "key_edits parent old new j = badmap \<or> (\<exists>y. key_edits parent old new j = Value y)"
    if "j \<in> set (filter (\<lambda>k. map_of old k \<noteq> None) (map fst new))" for j
    using that assms(6) unfolding filter_keys by blast
  ultimately have "erl_map (key_edits parent old new) (filter (\<lambda>k. map_of old k \<noteq> None) (map fst new)) = badmap"
    using assms(5) by (intro erl_map_badmap) auto
  then show ?thesis by (simp add: diff_maps_keys [OF assms(1,2)] badmap_def)
qed

lemma diff_maps_applied:
  assumes "wf_tree (Node old)" and "wf_tree (Node new)"
  shows "level_served parent old new"
  using assms
proof (induction "size (Node new)" arbitrary: parent old new rule: less_induct)
  case less
  have io: "in_order old" "in_order new" using less.prems by simp_all
  have one: "if key_followed old new k then \<exists>es. key_served parent old new k es
      else key_edits parent old new k = badmap" if "map_of old k = Some v" "map_of new k = Some w" for k v w
  proof (cases "w = v \<or> (\<exists>l. w = Leaf l) \<or> (\<exists>l. v = Leaf l)")
    case True
    with that show ?thesis by (rule leaf_key_served)
  next
    case False
    then obtain m n where vw: "v = Node m" "w = Node n" "m \<noteq> n" by (metis tree.exhaust)
    have "size (Node n) < size (Node new)" using node_smaller that(2) vw(2) by blast
    then have "level_served (parent @ [k]) m n"
      by (rule less.hyps) (use wf_entry [OF less.prems(1) that(1)] wf_entry [OF less.prems(2) that(2)] vw in simp_all)
    with that vw show ?thesis by (intro node_key_served) simp_all
  qed
  show ?case
  proof (cases "can_follow (Node old) (Node new)")
    case True
    have "\<exists>es. key_served parent old new k es" if "map_of old k = Some v" "map_of new k = Some w" for k v w
    proof -
      have "k \<in> set (map fst new)" using that(2) map_of_SomeD by force
      then have "key_followed old new k" using True unfolding follow_keys by blast
      with one [OF that] show ?thesis by simp
    qed
    then show ?thesis using True level_applied [OF io, of parent] by (simp add: level_served_def)
  next
    case False
    then obtain k where k: "\<not> key_followed old new k" unfolding follow_keys by blast
    then obtain v w where vw: "map_of old k = Some v" "map_of new k = Some w"
      by (auto simp: key_followed_def split: option.splits)
    have "key_edits parent old new j = badmap \<or> (\<exists>y. key_edits parent old new j = Value y)"
      if "map_of old j = Some v" "map_of new j = Some w" for j v w
      using one [OF that] by (auto simp: key_served_def split: if_splits)
    with level_refused [OF io vw] one [OF vw] k have "diff_maps parent old new = badmap" by simp
    with False show ?thesis by (simp add: level_served_def)
  qed
qed

lemma diff_same: "in_order m \<Longrightarrow> diff_maps parent m m = Value []"
proof -
  assume m: "in_order m"
  have "erl_map (key_edits parent m m) (filter (\<lambda>k. map_of m k \<noteq> None) (map fst m)) =
      Value (map (\<lambda>k. []) (filter (\<lambda>k. map_of m k \<noteq> None) (map fst m)))"
    by (rule erl_map_total, unfold filter_keys) (auto simp: key_edits_def maps_get_def)
  moreover have "filter (\<lambda>k. map_of m k = None) (map fst m) = []"
    using map_of_eq_None_iff [of m] by (simp add: filter_empty_conv)
  ultimately show ?thesis by (simp add: diff_maps_keys [OF m m])
qed

text \<open>\<open>diffi\<close> is \<open>diff\<close> on maps whose values are leaves.\<close>

fun leaf_edit :: "evalue flat_edit \<Rightarrow> edit" where
  "leaf_edit (Flat_delete k) = Delete [k]"
| "leaf_edit (Flat_insert k v) = Insert [k] (Leaf v)"
| "leaf_edit (Flat_update k v w) = Update [k] (Leaf v) (Leaf w)"

definition leaves :: "(key \<times> evalue) list \<Rightarrow> (key \<times> tree) list" where
  "leaves m = map (\<lambda>(k, v). (k, Leaf v)) m"

lemma leaves_simps [simp]:
  "map fst (leaves m) = map fst m" "map_of (leaves m) k = map_option Leaf (map_of m k)"
  "in_order (leaves m) = in_order m"
  by (induction m) (simp_all add: leaves_def in_order_def case_prod_unfold comp_def)

lemma erl_map_keys:
  assumes "\<And>k v. map_of m k = Some v \<Longrightarrow> f k = Value (g k)"
  shows "erl_map f (filter P (map fst m)) = Value (map g (filter P (map fst m)))"
  by (rule erl_map_total, unfold filter_keys) (use assms in blast)

lemma diffi_leaves:
  assumes "in_order old" and "in_order new"
  shows "diff (Node (leaves old)) (Node (leaves new)) = erl_then (diffi old new) (\<lambda>es. Value (map leaf_edit es))"
proof -
  let ?del = "filter (\<lambda>k. map_of new k = None) (map fst old)"
  let ?ins = "filter (\<lambda>k. map_of old k = None) (map fst new)"
  let ?com = "filter (\<lambda>k. map_of old k \<noteq> None) (map fst new)"
  let ?upd = "\<lambda>k. if map_of old k = map_of new k then []
    else [Flat_update k (the (map_of old k)) (the (map_of new k))]"
  have "erl_map (\<lambda>k. erl_then (maps_get k new) (\<lambda>v. Value (Flat_insert k v))) ?ins =
      Value (map (\<lambda>k. Flat_insert k (the (map_of new k))) ?ins)"
    by (rule erl_map_keys) (simp add: maps_get_def)
  moreover have "erl_map (\<lambda>k. erl_then (maps_get k old) (\<lambda>old_val. erl_then (maps_get k new) (\<lambda>new_val.
      Value (if old_val = new_val then [] else [Flat_update k old_val new_val])))) ?com = Value (map ?upd ?com)"
    by (rule erl_map_total, unfold filter_keys) (auto simp: maps_get_def)
  ultimately have i: "diffi old new = Value (map Flat_delete ?del @
      map (\<lambda>k. Flat_insert k (the (map_of new k))) ?ins @ concat (map ?upd ?com))"
    unfolding diffi_def Let_def subtracted(2) [OF assms]
    unfolding subtracted(1) [OF assms] subtracted(1) [OF assms(2,1)] by simp
  have "erl_map (key_edits [] (leaves old) (leaves new)) ?com = Value (map (\<lambda>k. map leaf_edit (?upd k)) ?com)"
    by (rule erl_map_total, unfold filter_keys) (auto simp: key_edits_def maps_get_def)
  moreover have "concat (map (\<lambda>k. [Delete [k]]) ks) = map (\<lambda>k. Delete [k]) ks"
    "concat (map (\<lambda>k. [Insert [k] (h k)]) ks) = map (\<lambda>k. Insert [k] (h k)) ks" for ks h
    by (induction ks) simp_all
  moreover have "map (\<lambda>k. Insert [k] (the (map_option Leaf (map_of new k)))) ?ins =
      map (\<lambda>k. Insert [k] (Leaf (the (map_of new k)))) ?ins"
    by (rule map_cong [OF refl], unfold filter_keys) auto
  moreover have "map (under []) es = es" for es
  proof -
    have "under [] e = e" for e by (cases e) simp_all
    then show ?thesis by (simp add: map_idI)
  qed
  ultimately show ?thesis
    using diff_maps_keys [of "leaves old" "leaves new" "[]"] assms
    by (simp add: diff_def i comp_def map_concat)
qed

section \<open>Properties\<close>

text \<open>C26: The edits take the old tree to the new one: applied in order, each finds what it says is there
  (a deleted key, no key to insert, the old value of an update), and the last one leaves the new tree.
  There are none exactly when the trees are the same. Where a leaf of the old tree has become a map,
  there are no edits at all but an error: the new map is followed into the old value.\<close>

theorem diff_applies:
  assumes "wf_tree (Node old)" and "wf_tree (Node new)"
  shows "if can_follow (Node old) (Node new)
    then \<exists>es. diff (Node old) (Node new) = Value es \<and> apply_edits es (Node old) = Some (Node new) \<and>
      (es = [] \<longleftrightarrow> old = new)
    else diff (Node old) (Node new) = badmap"
proof -
  have "map (under []) es = es" for es
  proof -
    have "under [] e = e" for e by (cases e) simp_all
    then show ?thesis by (simp add: map_idI)
  qed
  then show ?thesis
    using diff_maps_applied [OF assms, of "[]"] diff_same [of new "[]"] assms
    by (auto simp: diff_def level_served_def)
qed

theorem diff_applies_witness:
  "\<exists>es. diff (Node [([97], Leaf (E_int 1)), ([98], Node [([99], Leaf (E_int 2))])])
      (Node [([98], Node [([99], Leaf (E_int 3)), ([100], Node [])])]) = Value es \<and>
    apply_edits es (Node [([97], Leaf (E_int 1)), ([98], Node [([99], Leaf (E_int 2))])]) =
      Some (Node [([98], Node [([99], Leaf (E_int 3)), ([100], Node [])])])"
  using diff_applies [of "[([97], Leaf (E_int 1)), ([98], Node [([99], Leaf (E_int 2))])]"
      "[([98], Node [([99], Leaf (E_int 3)), ([100], Node [])])]"]
  by (auto simp: can_follow.simps)

text \<open>A leaf that becomes a map, and an update \<open>as_map\<close> has no clause for.\<close>

lemma leaf_to_map_fails:
  "diff (Node [([97], Leaf (E_int 1))]) (Node [([97], Node [])]) = badmap"
  using diff_maps_applied [of "[([97], Leaf (E_int 1))]" "[([97], Node [])]" "[]"]
  by (simp add: diff_def level_served_def can_follow.simps)

lemma updates_not_mapped: "as_map (Update p old new) = no_clause"
  by simp

end
