(* ===== verification/Erl_Tasks.thy ===== *)
theory Erl_Tasks
  imports Erl_Types
begin

text \<open>
  Two handlers of a server process that let one job run at a time: src/task_queue.erl, which queues tasks
  and answers their callers, and src/throttle.erl, which collects requests while a worker is busy and
  gives them all to the next one. Around each handler stands the system it works in: a mailbox, the
  processes it has started, and steps that happen in any order.
\<close>

section \<open>Task queue\<close>

datatype ('p, 't, 'r) tq_msg = Task 'p 't | Task_next | Task_done 'r

datatype ('p, 't, 'r) tq_action = Send_next | Spawn 't | Answer 'p 'r

text \<open>\<open>handle(task_next, State)\<close>: the process is started; the queue stays.\<close>

fun tq_next :: "('p \<times> 't) list \<Rightarrow> ('p, 't, 'r) tq_action list" where
  "tq_next [] = []"
| "tq_next ((p, t) # q) = [Spawn t]"

fun tq_handle :: "('p, 't, 'r) tq_msg \<Rightarrow> ('p \<times> 't) list \<Rightarrow> (('p, 't, 'r) tq_action list \<times> ('p \<times> 't) list) erl" where
  "tq_handle (Task p t) q = Value (if q = [] then [Send_next] else [], q @ [(p, t)])"
| "tq_handle Task_next q = Value (tq_next q, q)"
| "tq_handle (Task_done r) [] = Throw (e_atom ''task_done_empty_queue'')"
| "tq_handle (Task_done r) ((p, t) # q) = Value (Answer p r # tq_next q, q)"

record ('p, 't, 'r) tq_sys =
  tq_box :: "('p, 't, 'r) tq_msg list"
  tq_queue :: "('p \<times> 't) list"
  tq_running :: "'t list"
  tq_answers :: "('p \<times> 'r) list"

fun tq_act :: "('p, 't, 'r) tq_action \<Rightarrow> ('p, 't, 'r) tq_sys \<Rightarrow> ('p, 't, 'r) tq_sys" where
  "tq_act Send_next s = s\<lparr>tq_box := tq_box s @ [Task_next]\<rparr>"
| "tq_act (Spawn t) s = s\<lparr>tq_running := tq_running s @ [t]\<rparr>"
| "tq_act (Answer p r) s = s\<lparr>tq_answers := tq_answers s @ [(p, r)]\<rparr>"

text \<open>The server takes its next message; a process it has started runs its task to the end, in any
  order, \<open>run\<close> being what comes of it ({ok,_}, or {error,_} from the catch); a caller asks. The list is
  of what has been asked for.\<close>

inductive tq_works :: "('t \<Rightarrow> 'r) \<Rightarrow> ('p, 't, 'r) tq_sys \<Rightarrow> ('p, 't, 'r) tq_sys \<Rightarrow> bool" for run where
  handles: "tq_box s = m # ms \<Longrightarrow> tq_handle m (tq_queue s) = Value (as, q) \<Longrightarrow>
    tq_works run s (fold tq_act as (s\<lparr>tq_box := ms, tq_queue := q\<rparr>))"
| finishes: "tq_running s = ts @ t # us \<Longrightarrow>
    tq_works run s (s\<lparr>tq_running := ts @ us, tq_box := tq_box s @ [Task_done (run t)]\<rparr>)"

inductive tq_reach :: "('t \<Rightarrow> 'r) \<Rightarrow> ('p \<times> 't) list \<Rightarrow> ('p, 't, 'r) tq_sys \<Rightarrow> bool" for run where
  start: "tq_reach run [] \<lparr>tq_box = [], tq_queue = [], tq_running = [], tq_answers = []\<rparr>"
| asks: "tq_reach run l s \<Longrightarrow> tq_reach run (l @ [(p, t)]) (s\<lparr>tq_box := tq_box s @ [Task p t]\<rparr>)"
| works: "tq_reach run l s \<Longrightarrow> tq_works run s s' \<Longrightarrow> tq_reach run l s'"

inductive_cases tq_worksE: "tq_works run s s'"

fun is_task :: "('p, 't, 'r) tq_msg \<Rightarrow> bool" where
  "is_task (Task p t) = True"
| "is_task m = False"

fun asked :: "('p, 't, 'r) tq_msg list \<Rightarrow> ('p \<times> 't) list" where
  "asked [] = []"
| "asked (Task p t # ms) = (p, t) # asked ms"
| "asked (m # ms) = asked ms"

lemma asked_append [simp]: "asked (ms @ ms') = asked ms @ asked ms'"
  by (induction ms rule: asked.induct) simp_all

text \<open>The one thing that is under way for the head of the queue: the message to start it, the process,
  or the message that it is done.\<close>

definition under_way :: "('t \<Rightarrow> 'r) \<Rightarrow> ('p, 't, 'r) tq_sys \<Rightarrow> bool" where
  "under_way run s \<longleftrightarrow> (let notes = filter (\<lambda>m. \<not> is_task m) (tq_box s) in
     case tq_queue s of
       [] \<Rightarrow> notes = [] \<and> tq_running s = []
     | (p, t) # q \<Rightarrow> notes = [Task_next] \<and> tq_running s = [] \<or> notes = [] \<and> tq_running s = [t] \<or>
         notes = [Task_done (run t)] \<and> tq_running s = [])"

definition tq_inv :: "('t \<Rightarrow> 'r) \<Rightarrow> ('p \<times> 't) list \<Rightarrow> ('p, 't, 'r) tq_sys \<Rightarrow> bool" where
  "tq_inv run l s \<longleftrightarrow> under_way run s \<and>
     tq_answers s @ map (\<lambda>(p, t). (p, run t)) (tq_queue s @ asked (tq_box s)) = map (\<lambda>(p, t). (p, run t)) l"

lemma next_handled: "tq_handle Task_next q = Value (as, q') \<longleftrightarrow> as = tq_next q \<and> q' = q"
  by auto

lemma next_acts [simp]:
  "fold tq_act (tq_next q) s = s\<lparr>tq_running := tq_running s @ map snd (take 1 q)\<rparr>"
  by (cases q) auto

lemma tq_inv_handles:
  assumes "tq_inv run l s" and "tq_box s = m # ms" and "tq_handle m (tq_queue s) = Value (as, q)"
  shows "tq_inv run l (fold tq_act as (s\<lparr>tq_box := ms, tq_queue := q\<rparr>))"
proof (cases m)
  case (Task p t)
  with assms show ?thesis
    by (cases "tq_queue s") (auto simp: tq_inv_def under_way_def Let_def)
next
  case Task_next
  then have "as = tq_next (tq_queue s)" "q = tq_queue s" using assms(3) by (simp_all only: next_handled)
  then have "fold tq_act as (s\<lparr>tq_box := ms, tq_queue := q\<rparr>) =
      s\<lparr>tq_box := ms, tq_running := tq_running s @ map snd (take 1 (tq_queue s))\<rparr>" by simp
  then show ?thesis
    using assms(1,2) Task_next
    by (cases "tq_queue s") (auto simp: tq_inv_def under_way_def Let_def)
next
  case (Task_done r)
  with assms obtain p t q' where q: "tq_queue s = (p, t) # q'" "q = q'" "as = Answer p r # tq_next q'" "r = run t"
      "filter (\<lambda>m. \<not> is_task m) ms = []" "tq_running s = []"
    by (cases "tq_queue s") (auto simp: tq_inv_def under_way_def Let_def)
  with Task_done assms show ?thesis
    by (cases q') (auto simp: tq_inv_def under_way_def Let_def)
qed

lemma tq_inv_finishes:
  assumes "tq_inv run l s" and "tq_running s = ts @ t # us"
  shows "tq_inv run l (s\<lparr>tq_running := ts @ us, tq_box := tq_box s @ [Task_done (run t)]\<rparr>)"
  using assms by (auto simp: tq_inv_def under_way_def Let_def append_eq_Cons_conv split: list.splits)

lemma tq_invariant: "tq_reach run l s \<Longrightarrow> tq_inv run l s"
proof (induction rule: tq_reach.induct)
  case start
  show ?case by (simp add: tq_inv_def under_way_def)
next
  case (asks l s p t)
  then show ?case by (simp add: tq_inv_def under_way_def Let_def split: list.splits prod.splits)
next
  case (works l s s')
  from works(2) show ?case
  proof (rule tq_worksE)
    fix m ms as q
    assume "s' = fold tq_act as (s\<lparr>tq_box := ms, tq_queue := q\<rparr>)" "tq_box s = m # ms"
      "tq_handle m (tq_queue s) = Value (as, q)"
    with tq_inv_handles [OF works.IH] show ?thesis by simp
  next
    fix ts t us
    assume "s' = s\<lparr>tq_running := ts @ us, tq_box := tq_box s @ [Task_done (run t)]\<rparr>" "tq_running s = ts @ t # us"
    with tq_inv_finishes [OF works.IH] show ?thesis by simp
  qed
qed

text \<open>What is left to do.\<close>

fun tq_weight :: "('p, 't, 'r) tq_msg \<Rightarrow> nat" where
  "tq_weight (Task p t) = 8"
| "tq_weight Task_next = 3"
| "tq_weight (Task_done r) = 1"

definition tq_work :: "('p, 't, 'r) tq_sys \<Rightarrow> nat" where
  "tq_work s = sum_list (map tq_weight (tq_box s)) + 4 * length (tq_queue s) + 2 * length (tq_running s)"

lemma tq_work_less:
  assumes "tq_works run s s'"
  shows "tq_work s' < tq_work s"
  using assms
proof (rule tq_worksE)
  fix m ms as q
  assume s': "s' = fold tq_act as (s\<lparr>tq_box := ms, tq_queue := q\<rparr>)" "tq_box s = m # ms"
    "tq_handle m (tq_queue s) = Value (as, q)"
  show ?thesis
  proof (cases m)
    case (Task p t)
    with s' show ?thesis by (auto simp: tq_work_def split: if_splits)
  next
    case Task_next
    with s'(3) have "as = tq_next (tq_queue s)" "q = tq_queue s" by (simp_all only: next_handled)
    with s' Task_next show ?thesis by (simp add: tq_work_def)
  next
    case (Task_done r)
    with s' show ?thesis by (cases "tq_queue s") (auto simp: tq_work_def)
  qed
next
  fix ts t us
  assume "s' = s\<lparr>tq_running := ts @ us, tq_box := tq_box s @ [Task_done (run t)]\<rparr>" "tq_running s = ts @ t # us"
  then show ?thesis by (simp add: tq_work_def)
qed

text \<open>C27: Tasks run one at a time, in the order they were asked for, and all of them: in every state the
  system can get into, at most one task is running and it is the first of the queue, the server never
  finds a finished task without a queue, and the answers given so far are those of the first
  callers, in order, each with the result of its own task. Whatever the order in which messages and
  processes get their turn, after a bounded number of turns there is nothing left to do, and then
  every caller has been answered.\<close>

theorem tasks_one_by_one:
  assumes "tq_reach run l s"
  shows "(tq_running s = [] \<or> (\<exists>p t q. tq_queue s = (p, t) # q \<and> tq_running s = [t])) \<and>
    (\<forall>m ms. tq_box s = m # ms \<longrightarrow> (\<exists>as q. tq_handle m (tq_queue s) = Value (as, q))) \<and>
    tq_answers s = map (\<lambda>(p, t). (p, run t)) (take (length (tq_answers s)) l) \<and>
    (\<forall>s'. tq_works run s s' \<longrightarrow> tq_work s' < tq_work s) \<and>
    ((\<nexists>s'. tq_works run s s') \<longrightarrow> tq_answers s = map (\<lambda>(p, t). (p, run t)) l)"
proof (intro conjI allI impI)
  have inv: "under_way run s" "tq_answers s @ map (\<lambda>(p, t). (p, run t)) (tq_queue s @ asked (tq_box s)) =
      map (\<lambda>(p, t). (p, run t)) l"
    using tq_invariant [OF assms] by (simp_all add: tq_inv_def)
  show "tq_running s = [] \<or> (\<exists>p t q. tq_queue s = (p, t) # q \<and> tq_running s = [t])"
    using inv(1) by (auto simp: under_way_def Let_def split: list.splits)
  show handled: "\<exists>as q. tq_handle m (tq_queue s) = Value (as, q)" if "tq_box s = m # ms" for m ms
    using inv(1) that by (cases "(m, tq_queue s)" rule: tq_handle.cases) (auto simp: under_way_def Let_def)
  show "tq_answers s = map (\<lambda>(p, t). (p, run t)) (take (length (tq_answers s)) l)"
    using arg_cong [OF inv(2), of "take (length (tq_answers s))"] by (simp add: take_map)
  show "tq_work s' < tq_work s" if "tq_works run s s'" for s' using that by (rule tq_work_less)
  show "tq_answers s = map (\<lambda>(p, t). (p, run t)) l" if stuck: "\<nexists>s'. tq_works run s s'"
  proof -
    have "tq_box s = []" using stuck handled handles by (metis neq_Nil_conv)
    moreover have "tq_running s = []" using stuck finishes [of s "[]"] by (metis append_Nil neq_Nil_conv)
    ultimately have "tq_queue s = []" using inv(1) by (auto simp: under_way_def Let_def split: list.splits)
    with inv(2) \<open>tq_box s = []\<close> show ?thesis by simp
  qed
qed

theorem tasks_one_by_one_witness:
  "\<exists>s :: (nat, nat, nat) tq_sys. tq_reach (\<lambda>t. 2 * t) [(2, 10)] s \<and> tq_running s = [10] \<and> tq_answers s = []"
proof -
  let ?run = "\<lambda>t :: nat. 2 * t"
  let ?s = "\<lambda>b q r. \<lparr>tq_box = b, tq_queue = q, tq_running = r, tq_answers = []\<rparr> :: (nat, nat, nat) tq_sys"
  have "tq_reach ?run [(2, 10)] (?s [Task 2 10] [] [])" using asks [OF start, of ?run 2 10] by simp
  moreover have "tq_works ?run (?s [Task 2 10] [] []) (?s [Task_next] [(2, 10)] [])"
    using handles [of "?s [Task 2 10] [] []" "Task 2 10" "[]" "[Send_next]" "[(2, 10)]" ?run] by simp
  moreover have "tq_works ?run (?s [Task_next] [(2, 10)] []) (?s [] [(2, 10)] [10])"
    using handles [of "?s [Task_next] [(2, 10)] []" Task_next "[]" "[Spawn 10]" "[(2, 10)]" ?run] by simp
  ultimately have r: "tq_reach ?run [(2, 10)] (?s [] [(2, 10)] [10])" by (blast intro: works)
  then show ?thesis using tasks_one_by_one [OF r] by (intro exI [of _ "?s [] [(2, 10)] [10]"]) simp
qed

section \<open>Throttle\<close>

datatype 'a th_msg = Trigger 'a | Down

datatype ('w, 'a) th_state = Idle | Busy 'w | Again 'w "'a list"

text \<open>\<open>StartWorker\<close> changes the world around it and returns what names the worker.\<close>

fun th_handle :: "('a list \<Rightarrow> 's \<Rightarrow> 'w \<times> 's) \<Rightarrow> 'a th_msg \<Rightarrow> ('w, 'a) th_state \<Rightarrow> 's \<Rightarrow> (('w, 'a) th_state erl \<times> 's)" where
  "th_handle start_worker (Trigger a) Idle s = (case start_worker [a] s of (w, s') \<Rightarrow> (Value (Busy w), s'))"
| "th_handle start_worker (Trigger a) (Busy w) s = (Value (Again w [a]), s)"
| "th_handle start_worker (Trigger a) (Again w as) s = (Value (Again w (a # as)), s)"
| "th_handle start_worker Down Idle s = (Raise (e_atom ''case_clause''), s)"
| "th_handle start_worker Down (Busy w) s = (Value Idle, s)"
| "th_handle start_worker Down (Again w as) s = (case start_worker as s of (w', s') \<Rightarrow> (Value (Busy w'), s'))"

text \<open>The world: the workers that run, by number, and what each one started so far was given.\<close>

record 'a workers =
  wk_running :: "nat list"
  wk_given :: "'a list list"

definition start_worker :: "'a list \<Rightarrow> 'a workers \<Rightarrow> nat \<times> 'a workers" where
  "start_worker as s = (length (wk_given s),
     s\<lparr>wk_running := wk_running s @ [length (wk_given s)], wk_given := wk_given s @ [as]\<rparr>)"

record 'a th_sys =
  th_box :: "'a th_msg list"
  th_st :: "(nat, 'a) th_state"
  th_workers :: "'a workers"

text \<open>A worker that ends makes its monitor send a message.\<close>

inductive th_reach :: "'a list \<Rightarrow> 'a th_sys \<Rightarrow> bool" where
  start: "th_reach [] \<lparr>th_box = [], th_st = Idle, th_workers = \<lparr>wk_running = [], wk_given = []\<rparr>\<rparr>"
| triggers: "th_reach l s \<Longrightarrow> th_reach (l @ [a]) (s\<lparr>th_box := th_box s @ [Trigger a]\<rparr>)"
| handles: "th_reach l s \<Longrightarrow> th_box s = m # ms \<Longrightarrow>
    th_handle start_worker m (th_st s) (th_workers s) = (Value st, ws) \<Longrightarrow>
    th_reach l \<lparr>th_box = ms, th_st = st, th_workers = ws\<rparr>"
| finishes: "th_reach l s \<Longrightarrow> wk_running (th_workers s) = us @ w # vs \<Longrightarrow>
    th_reach l (s\<lparr>th_workers := (th_workers s)\<lparr>wk_running := us @ vs\<rparr>, th_box := th_box s @ [Down]\<rparr>)"

fun triggered :: "'a th_msg list \<Rightarrow> 'a list" where
  "triggered [] = []"
| "triggered (Trigger a # ms) = a # triggered ms"
| "triggered (Down # ms) = triggered ms"

lemma triggered_append [simp]: "triggered (ms @ ms') = triggered ms @ triggered ms'"
  by (induction ms rule: triggered.induct) simp_all

fun collected :: "('w, 'a) th_state \<Rightarrow> 'a list" where
  "collected (Again w as) = rev as"
| "collected st = []"

definition th_inv :: "'a list \<Rightarrow> 'a th_sys \<Rightarrow> bool" where
  "th_inv l s \<longleftrightarrow> (let downs = filter (\<lambda>m. m = Down) (th_box s); ws = th_workers s in
     (case th_st s of
        Idle \<Rightarrow> downs = [] \<and> wk_running ws = []
      | Busy w \<Rightarrow> downs = [] \<and> wk_running ws = [w] \<or> downs = [Down] \<and> wk_running ws = []
      | Again w as \<Rightarrow> downs = [] \<and> wk_running ws = [w] \<or> downs = [Down] \<and> wk_running ws = []) \<and>
     concat (map rev (wk_given ws)) @ collected (th_st s) @ triggered (th_box s) = l)"

lemma th_invariant: "th_reach l s \<Longrightarrow> th_inv l s"
proof (induction rule: th_reach.induct)
  case start
  show ?case by (simp add: th_inv_def)
next
  case (triggers l s a)
  then show ?case by (auto simp: th_inv_def Let_def split: th_state.splits)
next
  case (handles l s m ms st ws)
  then show ?case
    by (cases m; cases "th_st s") (auto simp: th_inv_def Let_def start_worker_def)
next
  case (finishes l s us w vs)
  then show ?case
    by (auto simp: th_inv_def Let_def append_eq_Cons_conv split: th_state.splits)
qed

text \<open>C30: Requests are throttled, and none is lost or served twice: in every state the system can get
  into, at most one worker is running, the handler has a clause for the next message, and what the
  workers were given, one after the other and each list from its end, is what was asked for in that
  order, up to what is collected and what is still in the mailbox. When no message and no worker is
  left, nothing is left in the collection either: all requests have been given to a worker.\<close>

theorem requests_throttled:
  assumes "th_reach l s"
  shows "length (wk_running (th_workers s)) \<le> 1 \<and>
    (\<forall>m ms. th_box s = m # ms \<longrightarrow>
      (\<exists>st ws. th_handle start_worker m (th_st s) (th_workers s) = (Value st, ws))) \<and>
    concat (map rev (wk_given (th_workers s))) @ collected (th_st s) @ triggered (th_box s) = l \<and>
    (th_box s = [] \<and> wk_running (th_workers s) = [] \<longrightarrow> concat (map rev (wk_given (th_workers s))) = l)"
proof -
  have inv: "th_inv l s" by (rule th_invariant) fact
  moreover have "\<exists>st ws. th_handle start_worker m (th_st s) (th_workers s) = (Value st, ws)"
    if "th_box s = m # ms" for m ms
    using inv that by (cases m; cases "th_st s") (auto simp: th_inv_def Let_def start_worker_def)
  ultimately show ?thesis
    by (auto simp: th_inv_def Let_def split: th_state.splits)
qed

theorem requests_throttled_witness:
  "\<exists>s :: nat th_sys. th_reach [7, 8] s \<and> wk_running (th_workers s) = [0] \<and> th_st s = Again 0 [8]"
proof -
  let ?w = "\<lparr>wk_running = [0], wk_given = [[7]]\<rparr> :: nat workers"
  have "th_reach [7] (\<lparr>th_box = [Trigger 7], th_st = Idle, th_workers = \<lparr>wk_running = [], wk_given = []\<rparr>\<rparr> :: nat th_sys)"
    using th_reach.triggers [OF th_reach.start, of 7] by simp
  from th_reach.handles [OF this, of "Trigger 7" "[]" "Busy 0" ?w]
  have "th_reach [7] \<lparr>th_box = [], th_st = Busy 0, th_workers = ?w\<rparr>" by (simp add: start_worker_def)
  from th_reach.triggers [OF this, of 8]
  have "th_reach [7, 8] \<lparr>th_box = [Trigger 8], th_st = Busy 0, th_workers = ?w\<rparr>" by simp
  from th_reach.handles [OF this, of "Trigger 8" "[]" "Again 0 [8]" ?w]
  have r: "th_reach [7, 8] \<lparr>th_box = [], th_st = Again 0 [8], th_workers = ?w\<rparr>" by simp
  from requests_throttled [OF r] r show ?thesis
    by (intro exI [of _ "\<lparr>th_box = [], th_st = Again 0 [8], th_workers = ?w\<rparr>"]) simp
qed

end
