(* ===== verification/Erl_Ftdi.thy ===== *)
theory Erl_Ftdi
  imports Erl_Port Ftdi_Command
begin

text \<open>
  The Erlang end of the FTDI driver, src/ftdi.erl: each request of the driver process is one
  command to the port program, and the caller is answered when a message has come back. The
  composition with c_src/ftdi_connect.c shows that the message is the acknowledgement of that
  very command.
\<close>

section \<open>The driver process\<close>

datatype ftdi_request = Ping_port | Send_spi "u8 list" | Send_ice40 "u8 list"

fun request_message :: "ftdi_request \<Rightarrow> u8 list" where
  "request_message Ping_port = [3, 0, 0, 0]"
| "request_message (Send_spi bin) = [1, 0, 0, 0] @ bin"
| "request_message (Send_ice40 bin) = [2, 0, 0, 0] @ bin"

text \<open>What a port sends its owner: data, and the exit status of the program when it has ended. The
  program's side is None from then on; a command to a closed port is ignored.\<close>

datatype port_msg = Port_data "u8 list" | Port_exit int

record 'f ftdi_link =
  chip_end :: "'f ftdi option"
  mailbox :: "port_msg list"

fun exit_status :: "halt \<Rightarrow> int" where
  "exit_status (Exit rc) = rc"
| "exit_status _ = 1"

definition ftdi_send :: "'f ftdi_lib \<Rightarrow> u8 list \<Rightarrow> 'f ftdi_link \<Rightarrow> 'f ftdi_link" where
  "ftdi_send lib bin l =
     (case chip_end l of
        None \<Rightarrow> l
      | Some s \<Rightarrow>
          (case ftdi_loop 1 lib (deliver bin s) of
             Ok _ t \<Rightarrow> \<lparr>chip_end = Some t, mailbox = mailbox l @ map Port_data (arrived s t)\<rparr>
           | Stop h t \<Rightarrow> \<lparr>chip_end = None,
               mailbox = mailbox l @ map Port_data (arrived s t) @ [Port_exit (exit_status h)]\<rparr>))"

text \<open>\<open>wait_ack\<close> takes any message of the port; without one it waits for ever (None).\<close>

definition wait_ack :: "'f ftdi_link \<Rightarrow> 'f ftdi_link option" where
  "wait_ack l = (case mailbox l of [] \<Rightarrow> None | msg # msgs \<Rightarrow> Some (l\<lparr>mailbox := msgs\<rparr>))"

definition ftdi_handle :: "'f ftdi_lib \<Rightarrow> ftdi_request \<Rightarrow> 'f ftdi_link \<Rightarrow> 'f ftdi_link option" where
  "ftdi_handle lib req l = wait_ack (ftdi_send lib (request_message req) l)"

text \<open>A sequence of requests, from the ping the process starts with; the answers are the callers
  that have received ok.\<close>

fun ftdi_requests ::
    "'f ftdi_lib \<Rightarrow> ftdi_request list \<Rightarrow> 'f ftdi_link \<Rightarrow> (nat \<times> 'f ftdi_link) option" where
  "ftdi_requests lib [] l = Some (0, l)"
| "ftdi_requests lib (r # rs) l =
     (case ftdi_handle lib r l of
        None \<Rightarrow> None
      | Some l1 \<Rightarrow> map_option (\<lambda>(n, l'). (Suc n, l')) (ftdi_requests lib rs l1))"

text \<open>\<open>push_bin\<close> chooses the request by the last two parts of a file name.\<close>

definition push_request :: "u8 list list \<Rightarrow> u8 list \<Rightarrow> ftdi_request option" where
  "push_request rev_parts bin =
     (case rev_parts of
        ext # kind # _ \<Rightarrow>
          if ext = bytes_of ''bin'' \<and> kind = bytes_of ''ram'' then Some (Send_spi bin)
          else if ext = bytes_of ''bin'' \<and> kind = bytes_of ''ice40'' then Some (Send_ice40 bin)
          else None
      | _ \<Rightarrow> None)"

section \<open>Both ends together\<close>

fun request_parts :: "ftdi_request \<Rightarrow> u8 \<times> u8 list" where
  "request_parts Ping_port = (3, [])"
| "request_parts (Send_spi bin) = (1, bin)"
| "request_parts (Send_ice40 bin) = (2, bin)"

lemma request_plain: "request_message r = plain_packet (request_parts r)"
  by (cases r) (simp_all add: plain_packet_def)

lemma request_command: "fst (request_parts r) \<le> 3 \<and> fst (request_parts r) \<noteq> 0"
  by (cases r) simp_all

text \<open>What a request drives on the wire to the chip.\<close>

fun request_wire :: "'f ftdi_lib \<Rightarrow> ftdi_request \<Rightarrow> u8 list" where
  "request_wire lib Ping_port = []"
| "request_wire lib (Send_spi bin) = transfer_bytes lib bin"
| "request_wire lib (Send_ice40 bin) = program_bytes lib bin"

lemma request_wire_command: "command_wire lib (fst (request_parts r)) (snd (request_parts r)) = request_wire lib r"
  by (cases r) (simp_all add: command_wire_def)

text \<open>The program waits for a command. Its abstract state is what the chip has been sent, and the
  number of turns for which poll is known to report input.\<close>

definition ftdi_ready :: "('f \<Rightarrow> u8 list) \<Rightarrow> nat \<Rightarrow> u8 list \<times> nat \<Rightarrow> 'f ftdi \<Rightarrow> bool" where
  "ftdi_ready wire room d s \<longleftrightarrow> readable 0 s \<and> writable 1 s \<and> pending 0 s = [] \<and> malloc_max s = room \<and>
     wire (ftdic s) = fst d \<and> (\<exists>ps. polls s = replicate (snd d) 1 @ ps)"

definition request_fits :: "nat \<Rightarrow> ftdi_request \<Rightarrow> bool" where
  "request_fits room r \<longleftrightarrow>
     length (snd (request_parts r)) < 2 ^ 31 - 4 \<and> length (snd (request_parts r)) + 4 < room"

text \<open>The answer to a request is one empty message.\<close>

definition ftdi_replies ::
    "'f ftdi_lib \<Rightarrow> ('f \<Rightarrow> u8 list) \<Rightarrow> ('f \<Rightarrow> u8 list) \<Rightarrow> nat \<Rightarrow> u8 list \<times> nat \<Rightarrow> u8 list \<Rightarrow>
      u8 list list \<Rightarrow> u8 list \<times> nat \<Rightarrow> bool" where
  "ftdi_replies lib wire ready room d bin ms d' \<longleftrightarrow> ftdi_ok lib wire ready \<and> 0 < snd d \<and> ms = [[]] \<and>
     (\<exists>r. bin = request_message r \<and> request_fits room r \<and> d' = (fst d @ request_wire lib r, snd d - 1))"

definition ftdi_turn :: "'f ftdi_lib \<Rightarrow> 'f ftdi \<Rightarrow> 'f ftdi option" where
  "ftdi_turn lib s = (case ftdi_loop 1 lib s of Ok _ t \<Rightarrow> Some t | Stop h t \<Rightarrow> None)"

lemma ftdi_turn_acks:
  assumes "ftdi_ok lib wire ready" and "ftdi_ready wire room (w, Suc turns) s" and "request_fits room r"
  shows "\<exists>t. ftdi_turn lib (deliver (request_message r) s) = Some t \<and>
    out t 1 = out s 1 @ concat (map frame [[]]) \<and> ftdi_ready wire room (w @ request_wire lib r, turns) t"
proof -
  let ?q = "request_parts r"
  let ?s = "deliver (request_message r) s"
  obtain ps where s: "readable 0 s" "writable 1 s" "pending 0 s = []" "malloc_max s = room"
    "wire (ftdic s) = w" "polls s = 1 # replicate turns 1 @ ps"
    using assms(2) by (auto simp: ftdi_ready_def)
  have more: "ftdic ?s = ftdic s" "polls ?s = polls s" using ftdi_more [of ?s s] by simp_all
  let ?s1 = "?s\<lparr>polls := replicate turns 1 @ ps\<rparr>"
  have "pending 0 ?s = frame (fst ?q # 0 # 0 # 0 # snd ?q)" "readable 0 ?s" "writable 1 ?s" "malloc_max ?s = room"
    using s by (simp_all add: request_plain plain_packet_def)
  then have s1: "pending 0 ?s1 = frame (fst ?q # 0 # 0 # 0 # snd ?q) @ []" "readable 0 ?s1" "writable 1 ?s1"
    "malloc_max ?s1 = room"
    by (simp_all add: pending_def readable_def writable_def)
  have fit: "fst ?q \<le> 3" "length (snd ?q) < 2 ^ 31 - 4" "length (snd ?q) + 4 < malloc_max ?s1"
    using assms(3) request_command s1(4) by (simp_all add: request_fits_def)
  obtain t where t: "command lib ?s1 = Ok () t"
    "wire (ftdic t) = wire (ftdic ?s1) @ command_wire lib (fst ?q) (snd ?q)"
    "out t 1 = out ?s1 1 @ frame []" "pending 0 t = []" "readable 0 t" "writable 1 t"
    "malloc_max t = malloc_max ?s1" "polls t = polls ?s1"
    using command_ok [OF assms(1) s1(2,3,1) fit(1) _ fit(2,3)] by auto
  have "ftdi_turn lib ?s = Some t"
    using t(1) more(2) s(6) by (simp add: ftdi_turn_def loop_turn_def Let_def)
  then show ?thesis
    using t s(5) s1(4) more(1) by (auto simp: ftdi_ready_def request_wire_command)
qed

interpretation ftdi_server: packet_server "ftdi_turn lib" "ftdi_ready wire room" "ftdi_replies lib wire ready room"
  for lib :: "'f ftdi_lib" and wire ready room
proof unfold_locales
  fix d d' :: "u8 list \<times> nat" and s :: "'f ftdi" and bin ms
  assume s: "ftdi_ready wire room d s" and "ftdi_replies lib wire ready room d bin ms d'"
  then obtain r where r: "ftdi_ok lib wire ready" "0 < snd d" "ms = [[]]" "bin = request_message r"
    "request_fits room r" "d' = (fst d @ request_wire lib r, snd d - 1)"
    unfolding ftdi_replies_def by blast
  then have "d = (fst d, Suc (snd d - 1))" by (cases d) simp
  with s have "ftdi_ready wire room (fst d, Suc (snd d - 1)) s" by simp
  from ftdi_turn_acks [OF r(1) this r(5)] show "\<exists>t. ftdi_turn lib (deliver bin s) = Some t \<and>
      out t 1 = out s 1 @ concat (map frame ms) \<and> ftdi_ready wire room d' t"
    unfolding r(3,4,6) .
qed (auto simp: ftdi_replies_def)

lemma ftdi_handle_acked:
  assumes "ftdi_ok lib wire ready" and "ftdi_ready wire room (w, Suc turns) s" and "request_fits room r"
  shows "\<exists>t. ftdi_handle lib r \<lparr>chip_end = Some s, mailbox = []\<rparr> = Some \<lparr>chip_end = Some t, mailbox = []\<rparr> \<and>
    ftdi_ready wire room (w @ request_wire lib r, turns) t"
proof -
  have "ftdi_replies lib wire ready room (w, Suc turns) (request_message r) [[]] (w @ request_wire lib r, turns)"
    using assms(1,3) by (auto simp: ftdi_replies_def)
  from ftdi_server.exchange [OF assms(2) this] obtain t where
    t: "ftdi_turn lib (deliver (request_message r) s) = Some t" "arrived s t = [[]]"
    "ftdi_ready wire room (w @ request_wire lib r, turns) t" .
  from t(1) have "ftdi_loop 1 lib (deliver (request_message r) s) = Ok () t"
    by (auto simp: ftdi_turn_def split: res.splits)
  with t(2,3) show ?thesis
    by (simp add: ftdi_handle_def ftdi_send_def wait_ack_def del: ftdi_loop.simps)
qed

lemma ftdi_requests_acked:
  assumes "ftdi_ok lib wire ready" and "ftdi_ready wire room (w, length rs) s" and "\<forall>r \<in> set rs. request_fits room r"
  shows "\<exists>t. ftdi_requests lib rs \<lparr>chip_end = Some s, mailbox = []\<rparr> =
      Some (length rs, \<lparr>chip_end = Some t, mailbox = []\<rparr>) \<and>
    ftdi_ready wire room (w @ concat (map (request_wire lib) rs), 0) t"
  using assms(2,3)
proof (induction rs arbitrary: w s)
  case (Cons r rs)
  then obtain t where t: "ftdi_handle lib r \<lparr>chip_end = Some s, mailbox = []\<rparr> =
      Some \<lparr>chip_end = Some t, mailbox = []\<rparr>" "ftdi_ready wire room (w @ request_wire lib r, length rs) t"
    using ftdi_handle_acked [OF assms(1), of room w "length rs" s r] by auto
  with Cons.IH [OF t(2)] Cons.prems(2) show ?case by auto
qed auto

section \<open>Properties\<close>

text \<open>C23: The driver and the program agree command by command: for any sequence of requests every
  caller is answered, by the acknowledgement of its own request and by nothing left over from
  another one (no message remains), and the chip has been sent the transfers and the programming
  sequences of the requests in their order.\<close>

theorem ftdi_driver_acked:
  assumes "ftdi_ok lib wire ready" and "ftdi_ready wire room (w, length rs) s"
    and "\<forall>r \<in> set rs. request_fits room r"
  shows "\<exists>t. ftdi_requests lib rs \<lparr>chip_end = Some s, mailbox = []\<rparr> =
      Some (length rs, \<lparr>chip_end = Some t, mailbox = []\<rparr>) \<and>
    pending 0 t = [] \<and> wire (ftdic t) = w @ concat (map (request_wire lib) rs)"
  using ftdi_requests_acked [OF assms] by (auto simp: ftdi_ready_def)

theorem ftdi_driver_acked_witness:
  "\<exists>t. ftdi_requests toy_chip [Ping_port, Send_spi [7]]
       \<lparr>chip_end = Some (toy_port [] [1, 1]), mailbox = []\<rparr> =
     Some (2, \<lparr>chip_end = Some t, mailbox = []\<rparr>) \<and> fst (ftdic t) = transfer_bytes toy_chip [7]"
proof -
  have "ftdi_ready fst 1000 ([], length [Ping_port, Send_spi [7]]) (toy_port [] [1, 1])"
    by (simp add: ftdi_ready_def)
  from ftdi_driver_acked [OF toy_chip_ok this] show ?thesis
    by (auto simp: request_fits_def)
qed

text \<open>\<open>wait_ack\<close> does not look at the message: when the program ends on a request instead, its exit
  status is taken for the acknowledgement and the caller is told ok.\<close>

lemma exit_taken_for_ack:
  assumes "chip_end l = Some s" and "mailbox l = []"
    and "ftdi_loop 1 lib (deliver (request_message r) s) = Stop h t" and "out t 1 = out s 1"
  shows "ftdi_handle lib r l = Some \<lparr>chip_end = None, mailbox = []\<rparr>"
proof -
  have "arrived s t = []" using assms(4) by (intro arrived_frames) simp_all
  then show ?thesis
    using assms by (simp add: ftdi_handle_def ftdi_send_def wait_ack_def del: ftdi_loop.simps)
qed

end
