(* ===== verification/Erl_Gpio.thy ===== *)
theory Erl_Gpio
  imports Gpio_Poll
begin

text \<open>
  The Erlang end of the GPIO watcher, src/gpio_poll.erl: the port is opened with {line,10}, and
  parse turns a message into the number of a pin and its value. Anything it does not understand
  is a pattern error, here None. The composition with c_src/gpio_poll.c shows which messages
  arrive.
\<close>

section \<open>Messages from a {line,L} port\<close>

text \<open>A line is a message of its own; a longer one than L bytes comes in pieces, all but the last
  of them marked.\<close>

datatype line_msg = Eol "u8 list" | Noeol "u8 list"

fun cut_lines :: "nat \<Rightarrow> u8 list \<Rightarrow> u8 list \<Rightarrow> line_msg list \<times> u8 list" where
  "cut_lines lim part [] = ([], part)"
| "cut_lines lim part (b # bs) =
     (if b = 10 then (case cut_lines lim [] bs of (ms, r) \<Rightarrow> (Eol part # ms, r))
      else if length part = lim then (case cut_lines lim [b] bs of (ms, r) \<Rightarrow> (Noeol part # ms, r))
      else cut_lines lim (part @ [b]) bs)"

lemma cut_lines_prefix:
  "10 \<notin> set xs \<Longrightarrow> length part + length xs \<le> lim \<Longrightarrow>
    cut_lines lim part (xs @ 10 # bs) = (case cut_lines lim [] bs of (ms, r) \<Rightarrow> (Eol (part @ xs) # ms, r))"
  by (induction xs arbitrary: part) auto

lemma cut_lines_lines:
  "\<forall>l \<in> set ls. 10 \<notin> set l \<and> length l \<le> lim \<Longrightarrow>
    cut_lines lim [] (concat (map (\<lambda>l. l @ [10]) ls)) = (map Eol ls, [])"
  by (induction ls) (simp_all add: cut_lines_prefix)

section \<open>\<open>parse\<close>\<close>

fun split_on :: "u8 \<Rightarrow> u8 list \<Rightarrow> u8 list list" where
  "split_on c [] = [[]]"
| "split_on c (b # bs) =
     (if b = c then [] # split_on c bs
      else case split_on c bs of [] \<Rightarrow> [[b]] | w # ws \<Rightarrow> (b # w) # ws)"

definition digits_to_nat :: "u8 list \<Rightarrow> nat option" where
  "digits_to_nat ds =
     (if ds \<noteq> [] \<and> (\<forall>b \<in> set ds. is_digit b) then Some (digits_value 0 ds) else None)"

definition binary_to_integer :: "u8 list \<Rightarrow> int option" where
  "binary_to_integer bs =
     (case bs of
        [] \<Rightarrow> None
      | b # ds \<Rightarrow>
          if b = 45 then map_option (\<lambda>n. - int n) (digits_to_nat ds)
          else if b = 43 then map_option int (digits_to_nat ds)
          else map_option int (digits_to_nat (b # ds)))"

definition parse :: "line_msg \<Rightarrow> (int \<times> int) option" where
  "parse msg =
     (case msg of
        Noeol _ \<Rightarrow> None
      | Eol l \<Rightarrow>
          (case map binary_to_integer (split_on 44 l) of
             [Some i, Some v] \<Rightarrow> Some (i, v)
           | _ \<Rightarrow> None))"

lemma split_on_none: "c \<notin> set xs \<Longrightarrow> split_on c xs = [xs]"
  by (induction xs) auto

lemma split_on_sep: "c \<notin> set xs \<Longrightarrow> split_on c (xs @ c # ys) = xs # split_on c ys"
  by (induction xs) auto

lemma digits_to_nat_dec: "digits_to_nat (dec_bytes n) = Some n"
  using dec_bytes_read_back [of n] by (simp add: digits_to_nat_def)

lemma binary_to_integer_dec: "binary_to_integer (dec_bytes n) = Some (int n)"
proof -
  obtain b ds where b: "dec_bytes n = b # ds"
    using dec_bytes_read_back [of n] by (cases "dec_bytes n") auto
  then have "is_digit b" using dec_bytes_read_back [of n] by auto
  then show ?thesis
    using digits_to_nat_dec [of n] digit_not_sign [of b] by (simp add: binary_to_integer_def b)
qed

lemma parse_pair: "parse (Eol (dec_bytes i @ [44] @ dec_bytes v)) = Some (int i, int v)"
  using comma_not_in_dec_bytes [of i] comma_not_in_dec_bytes [of v]
  by (simp add: parse_def split_on_sep split_on_none binary_to_integer_dec)

section \<open>Both ends together\<close>

text \<open>A line without its end; it has at most ten bytes for fewer than a hundred million pins.\<close>

definition report :: "nat \<Rightarrow> nat \<Rightarrow> u8 list" where
  "report i v = dec_bytes i @ [44] @ dec_bytes v"

lemma report_line: "line i v = report i v @ [10]"
  by (simp add: line_def report_def)

lemma newline_not_in_dec_bytes: "10 \<notin> set (dec_bytes n)"
  using dec_bytes_read_back [of n] by (auto simp: is_digit_def word_le_nat_alt)

lemma length_dec_bytes: "n < 10 ^ Suc k \<Longrightarrow> length (dec_bytes n) \<le> Suc k"
  using dec_of_nat_length [of n k] by (simp add: dec_bytes_def)

lemma report_fits:
  assumes "i < 10 ^ 7" and "v < 10"
  shows "10 \<notin> set (report i v) \<and> length (report i v) < 10"
proof -
  have "length (dec_bytes i) \<le> Suc 6" using assms(1) by (intro length_dec_bytes) simp
  then show ?thesis
    using assms(2) newline_not_in_dec_bytes by (simp add: report_def length_digit)
qed

lemma parsed_reports:
  assumes "\<forall>(i, v) \<in> set ps. i < 10 ^ 7 \<and> v < 10"
  shows "map parse (fst (cut_lines 10 [] (concat (map (\<lambda>(i, v). line i v) ps)))) =
    map (\<lambda>(i, v). Some (int i, int v)) ps"
proof -
  have "concat (map (\<lambda>(i, v). line i v) ps) = concat (map (\<lambda>l. l @ [10]) (map (\<lambda>(i, v). report i v) ps))"
    by (induction ps) (auto simp: report_line)
  moreover have "\<forall>l \<in> set (map (\<lambda>(i, v). report i v) ps). 10 \<notin> set l \<and> length l \<le> 10"
    using assms report_fits by (fastforce simp: less_imp_le)
  ultimately show ?thesis
    using cut_lines_lines [of "map (\<lambda>(i, v). report i v) ps" 10] parse_pair
    by (simp add: report_def case_prod_beta)
qed

text \<open>The changes of a session: the pins of each event with their values.\<close>

definition changes :: "(poll_event \<times> (nat \<Rightarrow> nat)) list \<Rightarrow> nat \<Rightarrow> (nat \<times> nat) list" where
  "changes evs n = concat (map (\<lambda>(e, vals). map (\<lambda>i. (i, vals i)) (ready_pins e n)) evs)"

lemma lines_of_changes:
  "concat (map (\<lambda>(e, vals). concat (map (\<lambda>i. line i (vals i)) (ready_pins e n))) evs) =
    concat (map (\<lambda>(i, v). line i v) (changes evs n))"
  by (induction evs) (auto simp: changes_def comp_def)

lemma changes_bounds:
  assumes "\<forall>(e, vals) \<in> set evs. shows_values e fds vals" and "length fds \<le> 10 ^ 7"
  shows "\<forall>(i, v) \<in> set (changes evs (length fds)). i < 10 ^ 7 \<and> v < 10"
  using assms by (fastforce simp: changes_def shows_values_def ready_pins_def)

section \<open>Properties\<close>

text \<open>C22: From the pin to the Erlang process: over a whole session of the watcher, started with
  nothing on stdout, the messages of the port are one per change of a pin, whole in spite of the
  line limit of 10 bytes, and parse gives for them exactly the pin numbers and values, in the
  order of the changes.\<close>

theorem gpio_changes_delivered:
  assumes "\<forall>p \<in> set ps. length p \<le> 73 \<and> pin_files s (pin_path p) \<noteq> - 1"
    and "fds = map (\<lambda>p. pin_files s (pin_path p)) ps" and "length fds \<le> 10 ^ 7"
    and "events s = map fst evs @ last_event # more_events" and "stdio s = []" and "out s 1 = []"
    and "\<forall>(e, vals) \<in> set evs. quiet_stdin e (length fds) \<and> shows_values e fds vals"
    and "0 \<le> pe_rv last_event" and "pe_revents last_event (length fds) AND STDIN_EVENTS \<noteq> 0"
    and "length evs < n"
  shows "\<exists>s'. gpio_main n ps s = Stop (Exit 0) s' \<and>
    map parse (fst (cut_lines 10 [] (out s' 1))) =
      map (\<lambda>(i, v). Some (int i, int v)) (changes evs (length fds))"
proof -
  have "\<forall>(e, vals) \<in> set evs. shows_values e fds vals" using assms(7) by auto
  note parsed = parsed_reports [OF changes_bounds [OF this assms(3)]]
  obtain s' where "gpio_main n ps s = Stop (Exit 0) s'"
    "out s' 1 = concat (map (\<lambda>(i, v). line i v) (changes evs (length fds)))"
    using gpio_main_runs [OF assms(1,2,4,5,7-10)] assms(6) unfolding lines_of_changes by auto
  then show ?thesis using parsed by auto
qed

theorem gpio_changes_delivered_witness:
  "\<exists>s'. gpio_main 2 [[55]] (toy_gpio [toy_event 2 0, toy_event 2 16]) = Stop (Exit 0) s' \<and>
     map parse (fst (cut_lines 10 [] (out s' 1))) = [Some (0, 1)]"
proof -
  have d: "dec_bytes (Suc 0) = [49]" by (simp add: dec_bytes_rec)
  have ready: "ready_pins (toy_event 2 0) (Suc 0) = [0]"
    by (simp add: ready_pins_def GPIO_EVENTS_def)
  show ?thesis
    using gpio_changes_delivered [of "[[55]]" "toy_gpio [toy_event 2 0, toy_event 2 16]" "[5]"
        "[(toy_event 2 0, \<lambda>_. Suc 0)]" "toy_event 2 16" "[]" 2]
    by (auto simp: ready quiet_stdin_def shows_values_def pin_text_def d changes_def STDIN_EVENTS_def)
qed

end
