(* ===== verification/Erl_V4l.thy ===== *)
theory Erl_V4l
  imports Erl_Port V4l_Stream
begin

text \<open>
  The Erlang end of the camera port, src/v4l.erl: a process that asks for a frame when it starts
  and after every image it has received, and broadcasts images and statistics. The composition
  with c_src/v4l.c is a closed loop, in which one request is under way at any time.
\<close>

section \<open>The process\<close>

datatype v4l_action = Broadcast_jpeg "u8 list" | Broadcast_stats "u8 list" | Port_command "u8 list"

text \<open>\<open>handle\<close> of a data message: what it sends, None for a message that ends the process. Of the
  two clauses that are left none returns: the size of the byte the third one binds is an error.\<close>

definition v4l_handle :: "u8 list \<Rightarrow> v4l_action list option" where
  "v4l_handle bin =
     (if take 3 bin = [0xFF, 0xD8, 0xFF] then Some [Broadcast_jpeg bin, Port_command []]
      else if take 4 bin = [1, 0, 0, 0] then Some [Broadcast_stats bin]
      else None)"

fun v4l_handle_all :: "u8 list list \<Rightarrow> v4l_action list option" where
  "v4l_handle_all [] = Some []"
| "v4l_handle_all (bin # bins) =
     (case v4l_handle bin of
        None \<Rightarrow> None
      | Some as \<Rightarrow> map_option (\<lambda>more_as. as @ more_as) (v4l_handle_all bins))"

text \<open>\<open>stats\<close>: the fields of a record of statistics. The reading of four bytes as a float, which
  fails for those that are no number, is a parameter.\<close>

record 'f v4l_stats =
  st_width :: nat
  st_height :: nat
  st_motion :: 'f
  st_brightness :: 'f

definition le_value :: "u8 list \<Rightarrow> nat" where
  "le_value bs = be_value (rev bs)"

definition stats :: "(u8 list \<Rightarrow> 'f option) \<Rightarrow> u8 list \<Rightarrow> 'f v4l_stats option" where
  "stats float32 bin =
     (if length bin = 16 \<and> take 4 bin = [1, 0, 0, 0] then
        (case (float32 (take 4 (drop 8 bin)), float32 (drop 12 bin)) of
           (Some m, Some b) \<Rightarrow> Some \<lparr>st_width = le_value (take 2 (drop 4 bin)),
             st_height = le_value (take 2 (drop 6 bin)), st_motion = m, st_brightness = b\<rparr>
         | _ \<Rightarrow> None)
      else None)"

section \<open>The loop through both ends\<close>

text \<open>The camera program, the requests on their way to it, and what has been broadcast. A turn: the
  program serves the first request, the process handles the messages that arrive.\<close>

record v4l_link =
  camera_end :: v4l
  under_way :: "u8 list list"
  broadcasts :: "v4l_action list"

fun perform :: "v4l_action list \<Rightarrow> v4l_link \<Rightarrow> v4l_link" where
  "perform [] l = l"
| "perform (Port_command bin # as) l = perform as (l\<lparr>under_way := under_way l @ [bin]\<rparr>)"
| "perform (a # as) l = perform as (l\<lparr>broadcasts := broadcasts l @ [a]\<rparr>)"

definition camera_turn :: "stats_lib \<Rightarrow> nat \<Rightarrow> v4l \<Rightarrow> v4l option" where
  "camera_turn lib n s = (case stream_loop 1 lib n s of Ok _ t \<Rightarrow> Some t | Stop h t \<Rightarrow> None)"

definition v4l_turn :: "stats_lib \<Rightarrow> nat \<Rightarrow> v4l_link \<Rightarrow> v4l_link option" where
  "v4l_turn lib n l =
     (case under_way l of
        [] \<Rightarrow> None
      | bin # bins \<Rightarrow>
          (case camera_turn lib n (deliver bin (camera_end l)) of
             None \<Rightarrow> None
           | Some t \<Rightarrow> map_option (\<lambda>as. perform as (l\<lparr>camera_end := t, under_way := bins\<rparr>))
               (v4l_handle_all (arrived (camera_end l) t))))"

primrec v4l_turns :: "nat \<Rightarrow> stats_lib \<Rightarrow> nat \<Rightarrow> v4l_link \<Rightarrow> v4l_link option" where
  "v4l_turns 0 lib n l = Some l"
| "v4l_turns (Suc k) lib n l =
     (case v4l_turn lib n l of None \<Rightarrow> None | Some l' \<Rightarrow> v4l_turns k lib n l')"

text \<open>The process starts with a request.\<close>

definition v4l_start :: "v4l \<Rightarrow> v4l_link" where
  "v4l_start s = perform [Port_command []] \<lparr>camera_end = s, under_way = [], broadcasts = []\<rparr>"

section \<open>The loop keeps going\<close>

text \<open>A JPEG image starts with its SOI marker and the next marker.\<close>

definition makes_jpeg :: "stats_lib \<Rightarrow> bool" where
  "makes_jpeg lib \<longleftrightarrow> (\<forall>rows. take 3 (jpeg_image lib rows) = [0xFF, 0xD8, 0xFF])"

fun stream_broadcasts :: "stats_lib \<Rightarrow> u8 list \<Rightarrow> u8 list list \<Rightarrow> v4l_action list" where
  "stream_broadcasts lib olds [] = []"
| "stream_broadcasts lib olds (f # fs) =
     Broadcast_jpeg (image_message lib f) # Broadcast_stats (stats_message lib olds f) #
       stream_broadcasts lib (luma f) fs"

lemma handle_image: "makes_jpeg lib \<Longrightarrow>
    v4l_handle (image_message lib f) = Some [Broadcast_jpeg (image_message lib f), Port_command []]"
  by (simp add: v4l_handle_def makes_jpeg_def image_message_def)

lemma handle_stats: "v4l_handle (stats_message lib olds f) = Some [Broadcast_stats (stats_message lib olds f)]"
  by (simp add: v4l_handle_def stats_message_def)

text \<open>The camera program waits for a request: the luma of the frame before, and the captures to
  come. It answers one with the image and its statistics.\<close>

definition camera_ready :: "u8 list \<times> capture list \<Rightarrow> v4l \<Rightarrow> bool" where
  "camera_ready d s \<longleftrightarrow> readable 0 s \<and> writable 1 s \<and> pending 0 s = [] \<and> seen_y s = fst d \<and>
     captures s = snd d \<and> length (fst d) = WIDTH * HEIGHT"

definition camera_replies ::
    "stats_lib \<Rightarrow> nat \<Rightarrow> u8 list \<times> capture list \<Rightarrow> u8 list \<Rightarrow> u8 list list \<Rightarrow>
      u8 list \<times> capture list \<Rightarrow> bool" where
  "camera_replies lib n d bin ms d' \<longleftrightarrow> small_messages lib \<and> bin = [] \<and>
     (\<exists>cap. good_capture n cap \<and> snd d = cap # snd d' \<and> fst d' = luma (captured cap) \<and>
        ms = [image_message lib (captured cap), stats_message lib (fst d) (captured cap)])"

lemma camera_turn_sends:
  assumes "small_messages lib" and "good_capture n cap" and "camera_ready (olds, cap # caps) s"
  shows "\<exists>t. camera_turn lib n (deliver [] s) = Some t \<and>
    out t 1 = out s 1 @ concat (map frame [image_message lib (captured cap),
      stats_message lib olds (captured cap)]) \<and> camera_ready (luma (captured cap), caps) t"
proof -
  let ?s = "deliver [] s"
  have more: "captures ?s = captures s \<and> seen_y ?s = seen_y s" using v4l_more [of ?s s] by simp
  then have s: "readable 0 ?s" "writable 1 ?s" "pending 0 ?s = frame [] @ []" "captures ?s = cap # caps"
    "length (seen_y ?s) = WIDTH * HEIGHT" "seen_y ?s = olds"
    using assms(3) by (simp_all add: camera_ready_def)
  obtain t where t: "serve_frame lib n ?s = Ok () t" "pending 0 t = []" "readable 0 t" "writable 1 t"
    "captures t = caps" "seen_y t = luma (captured cap)"
    "out t 1 = out ?s 1 @ frame (image_message lib (captured cap)) @
      frame (stats_message lib (seen_y ?s) (captured cap))"
    using serve_frame_ok [OF assms(1) s(1-4) assms(2) s(5)] .
  then have "camera_turn lib n ?s = Some t" by (simp add: camera_turn_def)
  then show ?thesis using t s(6) by (simp add: camera_ready_def)
qed

interpretation camera_server: packet_server "camera_turn lib n" camera_ready "camera_replies lib n" for lib n
proof unfold_locales
  fix d d' s bin ms
  assume s: "camera_ready d s" and "camera_replies lib n d bin ms d'"
  then obtain cap where c: "small_messages lib" "bin = []" "good_capture n cap" "snd d = cap # snd d'"
    "fst d' = luma (captured cap)"
    "ms = [image_message lib (captured cap), stats_message lib (fst d) (captured cap)]"
    unfolding camera_replies_def by blast
  have d: "(fst d, cap # snd d') = d" "(luma (captured cap), snd d') = d'"
    using c(4,5) by (simp_all add: prod_eq_iff)
  from camera_turn_sends [OF c(1,3), of "fst d" "snd d'" s] s
  show "\<exists>t. camera_turn lib n (deliver bin s) = Some t \<and>
      out t 1 = out s 1 @ concat (map frame ms) \<and> camera_ready d' t"
    unfolding d c(2,6) by blast
next
  fix d d' bin ms m
  assume r: "camera_replies lib n d bin ms d'" and m: "m \<in> set ms"
  then have "small_messages lib" unfolding camera_replies_def by blast
  then have "length (image_message lib f) < 2 ^ 31" "length (stats_message lib olds f) = 16" for f olds
    by (simp_all add: small_messages_def image_message_def stats_message_def)
  then have "length (image_message lib f) < 2 ^ 32" "length (stats_message lib olds f) < 2 ^ 32" for f olds
    by (simp_all add: less_trans [where y = "2 ^ 31"])
  with r m show "length m < 2 ^ 32" unfolding camera_replies_def by auto
qed

text \<open>One request is under way and the camera is ready.\<close>

definition one_request :: "u8 list \<times> capture list \<Rightarrow> v4l_link \<Rightarrow> bool" where
  "one_request d l \<longleftrightarrow> under_way l = [[]] \<and> camera_ready d (camera_end l)"

lemma v4l_turn_goes_on:
  assumes "small_messages lib" and "makes_jpeg lib" and "good_capture n cap" and "one_request (olds, cap # caps) l"
  shows "\<exists>l'. v4l_turn lib n l = Some l' \<and> one_request (luma (captured cap), caps) l' \<and>
    broadcasts l' = broadcasts l @ [Broadcast_jpeg (image_message lib (captured cap)),
      Broadcast_stats (stats_message lib olds (captured cap))]"
proof -
  let ?ms = "[image_message lib (captured cap), stats_message lib olds (captured cap)]"
  have "camera_replies lib n (olds, cap # caps) [] ?ms (luma (captured cap), caps)"
    using assms(1,3) by (simp add: camera_replies_def)
  moreover have l: "under_way l = [[]]" "camera_ready (olds, cap # caps) (camera_end l)"
    using assms(4) by (simp_all add: one_request_def)
  ultimately obtain t where "camera_turn lib n (deliver [] (camera_end l)) = Some t"
    "arrived (camera_end l) t = ?ms" "camera_ready (luma (captured cap), caps) t"
    using camera_server.exchange by blast
  then show ?thesis
    using l(1) assms(2) by (simp add: v4l_turn_def handle_image handle_stats one_request_def)
qed

lemma v4l_turns_go_on:
  assumes "small_messages lib" and "makes_jpeg lib" and "\<forall>cap \<in> set caps. good_capture n cap"
    and "one_request (olds, caps @ more_caps) l"
  shows "\<exists>l' olds'. v4l_turns (length caps) lib n l = Some l' \<and> one_request (olds', more_caps) l' \<and>
    broadcasts l' = broadcasts l @ stream_broadcasts lib olds (map captured caps)"
  using assms(3,4)
proof (induction caps arbitrary: l olds)
  case (Cons cap caps)
  then obtain l1 where l1: "v4l_turn lib n l = Some l1" "one_request (luma (captured cap), caps @ more_caps) l1"
    "broadcasts l1 = broadcasts l @ [Broadcast_jpeg (image_message lib (captured cap)),
      Broadcast_stats (stats_message lib olds (captured cap))]"
    using v4l_turn_goes_on [OF assms(1,2), of n cap olds "caps @ more_caps" l] by auto
  with Cons.IH [OF _ l1(2)] Cons.prems(1) show ?case by auto
qed auto

lemma stats_of_message:
  assumes "small_messages lib"
    and "float32 (motion_bytes lib (word_of_nat (motion_sum (luma f) olds))) = Some m"
    and "float32 (brightness_bytes lib (word_of_nat (level_sum (luma f)))) = Some b"
  shows "stats float32 (stats_message lib olds f) =
    Some \<lparr>st_width = WIDTH, st_height = HEIGHT, st_motion = m, st_brightness = b\<rparr>"
  using assms
  by (simp add: stats_def stats_message_def small_messages_def le_value_def be_value_Cons
      WIDTH_def HEIGHT_def)

section \<open>Properties\<close>

definition toy_jpeg :: stats_lib where
  "toy_jpeg = toy_stats\<lparr>jpeg_image := \<lambda>rows. [0xFF, 0xD8, 0xFF, 0xDB]\<rparr>"

text \<open>C20: The camera loop never stalls and never runs ahead: from its start, for as many good
  captures as there are, every turn broadcasts the image of the next capture and its statistics,
  and after it exactly one request is under way again, nothing else.\<close>

theorem v4l_loop_alive:
  assumes "small_messages lib" and "makes_jpeg lib" and "\<forall>cap \<in> set caps. good_capture n cap"
    and "readable 0 s" "writable 1 s" and "pending 0 s = []" and "captures s = caps @ more_caps"
    and "length (seen_y s) = WIDTH * HEIGHT"
  shows "\<exists>l. v4l_turns (length caps) lib n (v4l_start s) = Some l \<and>
    broadcasts l = stream_broadcasts lib (seen_y s) (map captured caps) \<and>
    under_way l = [[]] \<and> pending 0 (camera_end l) = [] \<and> captures (camera_end l) = more_caps"
proof -
  have "one_request (seen_y s, caps @ more_caps) (v4l_start s)"
    using assms(4-8) by (simp add: one_request_def v4l_start_def camera_ready_def)
  from v4l_turns_go_on [OF assms(1-3) this] show ?thesis
    by (auto simp: v4l_start_def one_request_def camera_ready_def)
qed

theorem v4l_loop_alive_witness:
  "\<exists>l. v4l_turns (length [toy_capture grey]) toy_jpeg 2 (v4l_start (toy_v4l [] [toy_capture grey])) = Some l \<and>
     length (broadcasts l) = 2 \<and> under_way l = [[]]"
proof -
  have "good_capture 2 (toy_capture grey)"
    by (simp add: good_capture_def toy_capture_def grey_def)
  moreover have "small_messages toy_jpeg" "makes_jpeg toy_jpeg"
    by (simp_all add: small_messages_def makes_jpeg_def toy_jpeg_def toy_stats_def)
  ultimately show ?thesis
    using v4l_loop_alive [of toy_jpeg "[toy_capture grey]" 2 "toy_v4l [] [toy_capture grey]" "[]"]
    by auto
qed

text \<open>The record of statistics means the same on both sides: what the C program packs, in the
  byte order of its machine, \<open>stats\<close> unpacks as the width, the height and the two floats.\<close>

lemma v4l_stats_roundtrip:
  assumes "small_messages lib"
    and "float32 (motion_bytes lib (word_of_nat (motion_sum (luma f) olds))) = Some m"
    and "float32 (brightness_bytes lib (word_of_nat (level_sum (luma f)))) = Some b"
  shows "stats float32 (stats_message lib olds f) =
    Some \<lparr>st_width = 640, st_height = 480, st_motion = m, st_brightness = b\<rparr>"
  using stats_of_message [OF assms] by (simp add: WIDTH_def HEIGHT_def)

lemma v4l_stats_roundtrip_witness:
  "stats (\<lambda>bs. Some (be_value bs)) (stats_message toy_stats [] grey) =
     Some \<lparr>st_width = 640, st_height = 480, st_motion = 0, st_brightness = 0\<rparr>"
proof -
  have "small_messages toy_stats" by (simp add: small_messages_def toy_stats_def)
  then show ?thesis
    by (rule v4l_stats_roundtrip) (simp_all add: toy_stats_def be_value_Cons)
qed

end
