(* ===== verification/Spec2Isabelle.thy ===== *)
theory Spec2Isabelle
  imports Sqlite_Robust Axo_Threads Ftdi_Session Programs_End Erl_Sqlstore Erl_Axo_Load Erl_Leb128 Erl_Rsp Erl_Zip Erl_Diff Erl_Tasks
    Erl_Ftdi Erl_Gpio Erl_V4l
begin

text \<open>
  The C programs of \<open>erl_tools\<close> and the Erlang modules that talk to them.

  The repository holds tools for Erlang. Its C part is a set of small \<^emph>\<open>port
  programs\<close>: processes an Erlang node starts and talks to over stdin and stdout in length
  prefixed packets (Erlang's \<open>{packet,4}\<close>), most of them in front of a piece of
  hardware or a library.

  \<^item> include/system.h, include/port.h: assertions that end the program, the raw read and
    write calls, and the framing of packets on top of them (all programs but gpio_poll.c use it).
  \<^item> include/bert.h, c_src/bert.c: a reader and a writer for the external term format. The
    reader is a table of function pointers: the user's callbacks get atoms, binaries and so on and
    move the reader on with \<open>pop\<close> and \<open>wind\<close>. The writer runs a term
    twice, to size it and to write it.
  \<^item> c_src/sqlite3.c: serves SQL queries: a request is a term, which a reader flattens to at
    most ten slices (the SQL text and its bound arguments); each row goes back as a term in a
    frame of its own, an empty frame ends the answer. Errors leave the query by longjmp.
  \<^item> c_src/axo_connect.c: bridges stdin and stdout to two USB bulk endpoints, one thread for
    each direction.
  \<^item> c_src/ftdi_connect.c: drives an FTDI chip in MPSSE mode: raw data, SPI transfers, the
    programming of an FPGA, transactions with a reply.
  \<^item> c_src/gpio_poll.c: polls GPIO files and prints a line for every change.
  \<^item> c_src/v4l.c: on request captures a camera frame, compresses it and computes how much it
    differs from the one before.

  Each program has its Erlang end under src/: sqlite3.erl (queries and transactions, collected
  through the sinks of sink.erl), axo.erl (calls to the device, told apart by tags), ftdi.erl
  (commands that wait for an acknowledgement), gpio_poll.erl (lines that are parsed) and v4l.erl
  (a loop that asks for a frame after every image). On the SQLite client stand the key value
  stores: type_base.erl writes typed values as text and reads them back, kvstore.erl has the
  operations of a store over the methods of an object, sqlite3_kvstore.erl gives such an object
  for a table, and \<open>kvstore:to_obj\<close> serves it with the messages of obj.erl, the
  protocol of a process whose state is a map. axo.erl loads patches into the memory of its
  device with several calls. leb128.erl (terms as bytes that delimit themselves), rsp.erl (packets
  put together from the chunks of a connection) and zip_stream.erl (archives written as a stream) are
  formats of their own, without a C end here. diff.erl tells how one tree of maps differs from another;
  task_queue.erl and throttle.erl are handlers of a process that runs one job at a time.

  \<^bold>\<open>The theories.\<close> In the order of their imports:

  \<^item> \<open>C_Prelude\<close>: the machine. A C function is a state transformer with a
    result of type \<open>res\<close>: \<open>Ok\<close> a value and a state, or
    \<open>Stop\<close> with the way the program ended: \<open>Exit\<close> a status,
    \<open>Error\<close> the message of an assertion, \<open>Undef\<close> undefined behaviour
    that was reached (an access outside an object, an uninitialised value, a shift by the width),
    \<open>Longjmp\<close>, or \<open>Out_Of_Fuel\<close>. Nothing is assumed about what undefined
    behaviour does, a theorem that a run is \<open>Ok\<close> shows there is none of the modelled
    kinds. The theory has the lemma collections and the locale \<open>trace\<close>: computations
    that extend an observation, closed under sequence and loops; the FTDI and GPIO proofs
    instantiate it. \<open>keeps\<close> and \<open>preserves\<close> are the two kinds of
    frame conditions, a value or an invariant of the state that a call leaves as it is, whether it
    returns or stops; \<open>ends\<close> says of a call that it does not run out of fuel in the
    states of an invariant.
  \<^item> \<open>C_Stdlib\<close>: decimal printing and \<open>atoi\<close>.
  \<^item> \<open>Posix_Io\<close>: descriptors. What arrives on a descriptor is a script of read
    events, the segments as the kernel delivers them and the errors in between (EINTR among them);
    likewise for writes. \<open>read\<close> and \<open>write\<close> consume the scripts, so
    every statement about all states is one about every segmentation. The state also counts the
    blocks of \<open>malloc\<close> in use.
  \<^item> \<open>Port\<close>: system.h and port.h, one definition per function of the packet
    layer. Locales \<open>exact_reader\<close> and \<open>exact_writer\<close> are the two
    contracts the programs rely on, interpreted on \<open>assert_read_fixed\<close> and
    \<open>assert_write\<close>, \<open>packet_loop\<close> is one they keep (a turn begins
    with the length of a packet), interpreted on the loops of the four that are sent packets; \<open>frame\<close> is the specification of a packet on the
    wire.
  \<^item> \<open>Bert_Reader\<close>: the reading half of bert.c; the struct of function pointers
    is a record whose missing entries are NULL pointers. \<open>Bert_Fold\<close>: terms, their
    encoding, and the two contracts of a user of the reader as locales: \<open>bert_stream\<close>
    (callbacks that consume what they are told compute a fold over the term) and
    \<open>bert_bounded\<close> (decoding ends within a recursion depth measured by the input).
  \<^item> \<open>Sqlite_Reader\<close>: the reader of sqlite3.c, as an interpretation of both.
    \<open>Bert_Writer\<close>: the writing half of bert.c, with the locale
    \<open>byte_sink\<close> interpreted on the real push function. \<open>Sqlite_Port\<close>:
    the rest of sqlite3.c and its sessions; \<open>Sqlite_Robust\<close>: what it keeps up for
    every input.
  \<^item> \<open>Axo_Usb\<close>, \<open>Ftdi_Mpsse\<close>, \<open>Gpio_Poll\<close>,
    \<open>V4l_Stream\<close>: the program of the same name each, complete from
    \<open>main\<close> to its loop; \<open>Axo_Threads\<close> lets the two threads of
    axo_connect.c be preempted between any two calls; \<open>Programs_End\<close> bounds the turns of
    the loops, with the locale \<open>using_loop\<close> (turns that use something up) interpreted on all
    four. Two theories go on with ftdi_connect.c: \<open>Ftdi_Command\<close> has what its
    commands do from packet to acknowledgement, with the locale \<open>mpsse_trace\<close> (the
    calls of the library add to an observation of the chip) interpreted on the bytes written to it;
    \<open>Ftdi_Session\<close> interprets it a second time, on the whole conversation with a
    chip that answers, and has the sessions of the program from \<open>main\<close>.
  \<^item> \<open>Bert_Build\<close>: Erlang values, and a second interpretation of
    \<open>bert_stream\<close> on callbacks that build them; \<open>read_term\<close> is what
    the Erlang ends read a message with. \<open>Erl_Port\<close>: how the runtime cuts the
    output of a program into messages and delivers one to it, the sinks, and the locale
    \<open>packet_server\<close>: the contract of a program that answers a message with whole
    packets and is then ready for the next one, interpreted on sqlite3.c, ftdi_connect.c and
    v4l.c.
  \<^item> \<open>Erl_Sqlite\<close>, \<open>Erl_Axo\<close>, \<open>Erl_Ftdi\<close>,
    \<open>Erl_Gpio\<close>, \<open>Erl_V4l\<close>: the Erlang end of the program and the
    composition of both. In \<open>Erl_Sqlite\<close> the locale \<open>query_runner\<close>
    is the contract between the transaction code and the function it runs a query with; the
    interpretation gives it the C program. While the Erlang side waits, the program runs up to
    where it reads the next message.
  \<^item> \<open>Erl_Types\<close>: type_base.erl, with the locale \<open>type_codec\<close>: the
    contract of a module that encodes and decodes the values of types, interpreted on
    type_base.erl itself. \<open>Erl_Kvstore\<close>: kvstore.erl over a record of methods, with
    the locales \<open>kv_cells\<close> (single entries) and \<open>kv_store\<close>, which extends it
    (lists and maps): the methods act on a map. \<open>Erl_Sqlkv\<close>: sqlite3_kvstore.erl, with the
    locale \<open>sql_table\<close>, which extends \<open>query_runner\<close> by what the statements do
    to one table; a sublocale gives \<open>kv_store\<close> for it. \<open>Erl_Sqlstore\<close>
    interprets \<open>sql_table\<close>, and with it all of them, on the C program.
  \<^item> \<open>Erl_Axo_Load\<close>: the calls of axo.erl made of several messages. A call runs
    the process, both threads of axo_connect.c and the device in turn; the device is an argument.
    \<open>Erl_Leb128\<close>: leb128.erl, reader and writer. \<open>Erl_Rsp\<close>: rsp.erl,
    packets and chunks. \<open>Erl_Zip\<close>: zip_stream.erl, with the locale
    \<open>zip_output\<close>, the contract of what an archive is written to, interpreted on a list of
    bytes and on the file sink. \<open>Erl_Diff\<close>: diff.erl, with what its edits mean.
    \<open>Erl_Tasks\<close>: task_queue.erl and throttle.erl, each with the reachable states of the
    system around it as an inductive relation.
  \<^item> This theory holds what joins the writer and a reader.

  \<^bold>\<open>What the lemmas show.\<close> Each component has its operations, then an abstract
  view of it (the stream a descriptor still has, the slices of a reader, the bytes a chip has
  received) and lemmas that each operation acts on that view as specified; the numbered statements
  rest on these.

  \<^item> Packets: reading and writing are independent of segmentation and interruptions, a
    packet written is the packet read, an end of file ends the program with status 0, each of the five at its next
    turn (\<open>programs_end_with_port\<close>).
  \<^item> Terms: \<open>sq_decode_flattens\<close> (the decoder refines a fold),
    \<open>sq_decode_stops\<close> (it ends on every input), \<open>write_term_encodes\<close>,
    \<open>write_packet_complete\<close> and \<open>written_terms_read_back\<close>.
  \<^item> Servers: the behaviour of each program over a whole session against an abstract one.
    For sqlite3.c this is \<open>session\<close>, the sequence of library steps a query should
    make with the frames it should answer; for axo_connect.c the invariant of the interleaved
    threads, by loop bodies (\<open>axo_step\<close>) and by calls (\<open>preempt\<close>), from a
    start (\<open>reader_start\<close>) in which the reader's variable \<open>total\<close>, which the
    code does not initialise, has any value: nothing is delivered unless it happens to be 0; for ftdi_connect.c the conversation with the chip and the acknowledgements that carry
    its replies (\<open>serve\<close>); for gpio_poll.c
    the lines printed; for v4l.c the frames with the exact sums.
  \<^item> Progress and shape: \<open>axo_bridge_drains\<close> (where \<open>total\<close> starts at 0 and the messages fit the
    buffer, whatever the schedule, the bridge can take a turn until all has arrived, and no
    longer),
    \<open>sqlite_output_framed\<close> (the output is whole frames for every input),
    \<open>sqlite_server_ends\<close> (on every input the program comes to an end), \<open>loops_come_to_end\<close> (so do the
    other four),
    \<open>v4l_in_bounds\<close> (the conversion, for every width and height, reads and stores
    nothing outside of a buffer), \<open>bert_decode_builds\<close> and the lemma
    \<open>unexpected_types_rejected\<close> (the reader on all its types and on the tags it does
    not handle).
  \<^item> Both ends: \<open>sql_transaction_refines\<close> and
    \<open>sql_transaction_error\<close> (a transaction over the port is a sequence of library
    steps, and its tables are the rows), \<open>axo_call_roundtrip\<close> and
    \<open>axo_answers_bounded\<close>, \<open>ftdi_driver_acked\<close>,
    \<open>gpio_changes_delivered\<close>, \<open>v4l_loop_alive\<close>.
  \<^item> Stores: \<open>type_roundtrip\<close> (a value of a type is read back from its text),
    \<open>persistent_object\<close> (a table served as an object answers six of the messages of obj.erl
    as the object in memory does, but for a missing key, where the answers differ as stated; it has no
    clause for the others; from the client through the transaction, the port and the C program down to the
    statements, and back), \<open>checked_writes_decided\<close> (whether a write with a check is made
    is what the check decides, as long as every statement is carried out), \<open>defaults_added\<close>.
  \<^item> Device memory: \<open>patch_loaded\<close> (loading and starting a patch refines one
    write to the memory and one start, over the process and both threads).
  \<^item> Formats: \<open>leb128_roundtrip\<close>, \<open>leb128_reader_ends\<close> (on
    every input), \<open>rsp_packets_delivered\<close> (packets survive being cut into chunks; they
    come as one message each where chunks keep to their borders, and only there),
    \<open>zip_readable\<close> (a reader finds every file of an archive of
    files that are not empty),
    \<open>diff_applies\<close> (the edits make the new tree out of the old one),
    with the lemmas \<open>diffi_leaves\<close>, \<open>qRcmd_read_back\<close> on remote commands and
    \<open>rotate_back\<close> on steps through a finite type.
  \<^item> Processes: \<open>tasks_one_by_one\<close> and \<open>requests_throttled\<close>
    (one job at a time, in order, none lost, over every interleaving of messages and processes).
  \<^item> Limits: where the code's arithmetic, bounds or flow do not do what their context wants,
    the lemma states the input and the outcome (\<open>packet4_len_wraps\<close>,
    \<open>packet1_short_read\<close>, \<open>assert_write_exact\<close>,
    \<open>packet4_static_check_wraps\<close>, \<open>sq_binary_wraps\<close>,
    \<open>binary_huge_is_cstring\<close>, \<open>api_uint_swapped\<close>,
    \<open>recv_byte_does_not_wait\<close>, \<open>command_leaks\<close>,
    \<open>reader_total_uninitialised\<close>, \<open>pin_path_overflow\<close>, and the lemmas
    \<open>sq_pop_reads_past_end\<close>, \<open>short_capture_overreads\<close>,
    \<open>query_hangs\<close>, \<open>exit_taken_for_ack\<close>,
    \<open>second_call_takes_over\<close>, \<open>valid_rejects\<close>,
    \<open>zero_cannot_be_listed\<close>, \<open>negative_not_read_back\<close>,
    \<open>range_error_not_printed\<close>, \<open>unwrap_wrap\<close>,
    \<open>plus_ends_message\<close>, \<open>leaf_to_map_fails\<close>,
    \<open>updates_not_mapped\<close>, \<open>undefined_not_read\<close>,
    \<open>empty_file_written\<close>, \<open>update_not_served\<close> and
    \<open>list_sink_refused\<close>), and \<open>unchecked_range_poisons\<close>.

  \<^bold>\<open>Integers.\<close> uint8_t, uint16_t and uint32_t are words, so wrapping is that
  of C; an int which is the result of a call is an integer; int counters are compared with the
  width written out where a length can exceed it. A uint32_t length passed as an int is
  \<open>sint\<close>.

  \<^bold>\<open>Loops and fuel.\<close> Loops over data are total functions with a measure. A
  loop that does not end by itself takes a number of turns: \<open>message_loop\<close>,
  \<open>main_loop\<close>, \<open>reader_loop\<close>, \<open>ftdi_loop\<close>,
  \<open>poll_loop\<close> and \<open>stream_loop\<close>. Statements about a session give one
  turn for each message and one for the end where it has one, which is all that the session needs,
  since each turn serves one. \<open>r_object\<close> takes the recursion depth it may use: the
  depth of the term is enough (\<open>sq_decode_flattens\<close>), and 11 times one more than the length
    of the message is for every message (\<open>sq_decode_stops\<close>; there are at most ten slices, so
  the offset can be wound back by a wrapped size at most ten times). \<open>row_loop\<close> needs
  one turn more than the result has rows (\<open>results_end\<close>). For an input that is not
  a session, \<open>message_loop\<close> has enough with more turns than a quarter of its length,
  as each turn takes four bytes (\<open>sqlite_server_ends\<close>), and so have the other loops
  (\<open>loops_come_to_end\<close>). The loop of \<open>recv_byte\<close> needs one turn
  because it never waits. \<open>port_send\<close> runs \<open>message_loop\<close> for one
  turn: \<open>Out_Of_Fuel\<close> is there the program that waits for the next message.
  \<open>read_term\<close> allows a depth of the length of the message, which every term fits
  (\<open>depth_encode\<close>), and \<open>leb_decode\<close> one more than its bytes, as every
  call of the reader takes one (\<open>leb128_reader_ends\<close> is that this is enough).

  \<^bold>\<open>Parameters.\<close> Code that is not in the repository is an argument: the
  records \<open>sqlite_lib\<close>, \<open>usb_lib\<close>, \<open>ftdi_lib\<close> (libraries,
  with their own state), \<open>camera\<close> and \<open>capture\<close> (the answers of the V4L2
  ioctls), \<open>stats_lib\<close> (libjpeg's compression of a list of scan lines, and the
  floating point square root and division of the statistics), the poll events of
  \<open>gpio\<close>, the printer and the parser of Erlang terms (\<open>erl_syntax\<close>), the
  types of type_base.erl that are not modelled or that a user adds (\<open>more_types\<close>,
  \<open>type_module\<close>). What is relied on is in named predicates: \<open>lib_ok\<close> and
  \<open>counts_statements\<close> (sqlite3), \<open>delivers\<close> and \<open>receives\<close>
  (libusb), \<open>ftdi_ok\<close>, \<open>opens\<close>, \<open>purges\<close> and \<open>answers\<close>
    (libftdi, and what the chip sends for what it was sent),
  \<open>all_set\<close>, \<open>good_capture\<close>, \<open>shows_values\<close>,
  \<open>rows_fit\<close> and \<open>results_end\<close> (rows below 2 GB, and finitely
  many of them), \<open>makes_jpeg\<close> (an image starts with the markers of a JPEG),
  \<open>sqlite_table\<close> (what SQLite's statements on one table do, as its documentation
  says), \<open>prints_plain\<close> (how integers and booleans print), \<open>axo_linked\<close>,
  \<open>leaves_device\<close>, \<open>responds\<close> and \<open>axo_memory\<close> (the USB link
  carries packets, and the firmware's side of the memory protocol, as axo.erl gives it);
  each is shown to hold of a concrete instance by the witnesses.

  \<^bold>\<open>Not modelled.\<close> The log on stderr, except where a call made for it has an
  effect on the hardware (\<open>log_cdone\<close>). The bounds of the C stack: the arrays of
  variable length in \<open>r_tuple\<close>, \<open>query\<close>,
  \<open>bert_write_packet\<close> and the programs have sizes that are not checked against it
  (one of size 0 is taken as empty, as compilers do). That an uninitialised byte is undefined is
  applied where it reaches an output; in a log it is ignored. Floating point and libjpeg. Data
  races on stdout are not possible in axo_connect.c since one thread only writes there; a call of
  libusb or of the system is atomic, and the reads of one packet, which only the main thread
  makes, are one turn. The
  Erlang runtime: processes, links and timeouts around the modelled functions are left out, a
  function that would wait for ever or crash gives None, and messages of other senders do not
  come between those of the port. Of type_base.erl the types float, term and datetime. Of
  leb128.erl and rsp.erl the files, sockets and processes that bytes come from. The other Erlang modules, the JavaScript and Rust sources, the
  shell scripts and the build rules.
\<close>

section \<open>Writer and reader\<close>

text \<open>C10: What the writer writes the reader reads back: the packet of any term without integers
  and strings, its size field taken off, builds the Erlang value of the term for a reader that
  builds values, and is decoded by the reader of sqlite3.c to exactly the flattening of the term,
  or is refused with the error the term deserves.\<close>

theorem written_terms_read_back:
  assumes "fits t" and "writable_term t" and "depth t \<le> fuel" and "length (encode t) + 5 < 2 ^ 32"
  shows "\<exists>msg. bert_write_packet None 4 (\<lambda>a. write_term a t) (\<lambda>b n. modify (\<lambda>_. (b, n))) s =
      Ok () (map Some (be_bytes 4 (length msg) @ msg), word_of_nat (4 + length msg)) \<and>
    read_term msg = Some (value_of t) \<and>
    (case fold_term flatten t flat_empty of
       Ok v a \<Rightarrow> \<exists>r. sq_decode fuel msg = Ok v r \<and> flat_view r = a
     | Stop h a \<Rightarrow> \<exists>r. sq_decode fuel msg = Stop h r)"
proof -
  let ?msg = "BERT_START # encode t"
  have "emits w_fit w_put (write_term (w_set_api w_push) t) (encode t)"
    by (rule write_term_emits(1)) fact+
  then have "bert_write_packet None (word_of_nat 4) (\<lambda>a. write_term a t) (\<lambda>b n. modify (\<lambda>_. (b, n))) s =
      modify (\<lambda>_. (map Some (be_bytes 4 (1 + length (encode t)) @ ?msg),
        word_of_nat (4 + 1 + length (encode t)))) s"
    using assms(4) by (intro write_packet_ok) simp_all
  moreover have "tracks flat_view sq_rest (sq_good (?msg @ [])) [] (sq_decode fuel (?msg @ []))
      (fold_term flatten t flat_empty)"
    using sq_decode_tracks [OF assms(1), of "[]" fuel] assms(3,4) by simp
  ultimately show ?thesis
    by (intro exI [of _ ?msg]) (auto simp: tracks_def read_term_encode [OF assms(1)] split: res.splits)
qed

theorem written_terms_read_back_witness:
  "\<exists>msg r. bert_write_packet None 4 (\<lambda>a. write_term a (T_list [T_binary [1], T_binary [2]] T_nil))
      (\<lambda>b n. modify (\<lambda>_. (b, n))) ([], 0) =
      Ok () (map Some (be_bytes 4 (length msg) @ msg), word_of_nat (4 + length msg)) \<and>
    sq_decode 2 msg = Ok None r \<and> fl_slices (flat_view r) = [(Some Bind_text, [1]), (Some Bind_text, [2])]"
proof -
  let ?t = "T_list [T_binary [1], T_binary [2]] T_nil"
  have "fold_term flatten ?t flat_empty =
      Ok None \<lparr>fl_slices = [(Some Bind_text, [1]), (Some Bind_text, [2])], fl_bind = Some Bind_text\<rparr>"
    by (simp add: flat_binary_def flat_empty_def MAX_NB_SLICES_def io_simps)
  then show ?thesis
    using written_terms_read_back [of ?t 2 "([], 0)"] by auto
qed

section \<open>The port is closed\<close>

text \<open>C18: No program outlives its Erlang port. Once the port is closed and no whole packet length
  is left on stdin, or for the GPIO watcher once stdin has an event, the next turn of each of the
  five programs ends it with status 0, without another byte on stdout: sqlite3.c at the length of
  the next query, axo_connect.c and v4l.c at that of the next message, ftdi_connect.c as soon as
  poll reports the end of file.\<close>

theorem programs_end_with_port:
  assumes "readable 0 sq \<and> length (pending 0 sq) < 4"
    and "readable 0 ax \<and> length (pending 0 ax) < 4"
    and "readable 0 vi \<and> length (pending 0 vi) < 4"
    and "readable 0 ft \<and> length (pending 0 ft) < 4" and "polls ft = rv # more_polls" "0 < rv"
    and "events gp = e # es" "0 \<le> pe_rv e" "pe_revents e (length fds) AND STDIN_EVENTS \<noteq> 0"
  shows "(\<exists>t. message_loop (Suc n) fuel sqlite sq = Stop (Exit 0) t \<and> out t = out sq) \<and>
    (\<exists>t. main_loop (Suc n) libusb ax = Stop (Exit 0) t \<and> out t = out ax) \<and>
    (\<exists>t. stream_loop (Suc n) jpeg req_count vi = Stop (Exit 0) t \<and> out t = out vi) \<and>
    (\<exists>t. ftdi_loop (Suc n) libftdi ft = Stop (Exit 0) t \<and> out t = out ft) \<and>
    (\<exists>t. poll_loop (Suc n) fds gp = Stop (Exit 0) t \<and> out t = out gp)"
proof (intro conjI)
  from assms(1) obtain t where "message_loop (Suc n) fuel sqlite sq = Stop (Exit 0) t" "same_but_rd 0 sq t"
    by (elim conjE) (rule sq_loop.ends_with_port)
  then show "\<exists>t. message_loop (Suc n) fuel sqlite sq = Stop (Exit 0) t \<and> out t = out sq"
    by (intro exI [of _ t]) (simp add: frame_simps del: message_loop.simps)
  from assms(2) obtain t where "main_loop (Suc n) libusb ax = Stop (Exit 0) t" "same_but_rd 0 ax t"
    by (elim conjE) (rule axo_loop.ends_with_port)
  then show "\<exists>t. main_loop (Suc n) libusb ax = Stop (Exit 0) t \<and> out t = out ax"
    by (intro exI [of _ t]) (simp add: frame_simps del: main_loop.simps)
  from assms(3) obtain t where "stream_loop (Suc n) jpeg req_count vi = Stop (Exit 0) t" "same_but_rd 0 vi t"
    by (elim conjE) (rule camera_loop.ends_with_port)
  then show "\<exists>t. stream_loop (Suc n) jpeg req_count vi = Stop (Exit 0) t \<and> out t = out vi"
    by (intro exI [of _ t]) (simp add: frame_simps del: stream_loop.simps)
  from assms(4) show "\<exists>t. ftdi_loop (Suc n) libftdi ft = Stop (Exit 0) t \<and> out t = out ft"
    using ftdi_loop_eof [OF assms(5,6)] by metis
  show "\<exists>t. poll_loop (Suc n) fds gp = Stop (Exit 0) t \<and> out t = out gp"
    using poll_turn_stdin [OF assms(7-9)] by simp
qed

theorem programs_end_with_port_witness:
  "(\<exists>t. message_loop 1 1 toy_lib (toy_state [Rd_data [0, 0]]) = Stop (Exit 0) t) \<and>
   (\<exists>t. main_loop 1 toy_usb (toy_axo [] [[1]]) = Stop (Exit 0) t) \<and>
   (\<exists>t. stream_loop 1 toy_stats 1 (toy_v4l [Rd_err EINTR] []) = Stop (Exit 0) t) \<and>
   (\<exists>t. ftdi_loop 1 toy_chip (toy_port [] [1]) = Stop (Exit 0) t) \<and>
   (\<exists>t. poll_loop 1 [5] (toy_gpio [toy_event 2 16]) = Stop (Exit 0) t)"
proof -
  have "readable 0 (toy_state [Rd_data [0, 0]]) \<and> length (pending 0 (toy_state [Rd_data [0, 0]])) < 4"
    "readable 0 (toy_axo [] [[1]]) \<and> length (pending 0 (toy_axo [] [[1]])) < 4"
    "readable 0 (toy_v4l [Rd_err EINTR] []) \<and> length (pending 0 (toy_v4l [Rd_err EINTR] [])) < 4"
    "readable 0 (toy_port [] [1]) \<and> length (pending 0 (toy_port [] [1])) < 4"
    by simp_all
  from programs_end_with_port [OF this, of 1 "[]" "toy_gpio [toy_event 2 16]" "toy_event 2 16" "[]" "[5]"
      0 1 toy_lib toy_usb toy_stats 1 toy_chip]
  show ?thesis unfolding One_nat_def by (auto simp: STDIN_EVENTS_def simp del: message_loop.simps
        main_loop.simps stream_loop.simps ftdi_loop.simps poll_loop.simps)
qed

end
